(* ===== verification/Prelude.thy ===== *)
theory Prelude
  imports Main "HOL-Library.Word" "HOL-Library.Monad_Syntax"
begin

unbundle bit_operations_syntax

text \<open>
  Shared vocabulary of the development: machine integer types, the model of a
  failing \<open>CHECK\<close>, the theorem collections, and generic facts on lists and
  options that several components use.
\<close>

type_synonym u32 = "32 word"
type_synonym u64 = "64 word"

named_theorems frame_simps "reads of a field that an update does not touch"

text \<open>
  \<open>CHECK(b)\<close>, \<open>CHECK_EQ\<close> and \<open>GHOST_ERROR\<close> abort the process.  An operation
  that may abort returns an option: \<^const>\<open>None\<close> is the aborted process, and a process whose behaviour is
  undefined (a dereference of a null or freed pointer, a read outside an array).
\<close>

definition CHECK :: "bool \<Rightarrow> unit option" where
  "CHECK b = (if b then Some () else None)"

text \<open>\<open>absl::Nanoseconds\<close>; durations are integers in ticks of a quarter of a nanosecond, the resolution of the library.\<close>

definition Nanoseconds :: "u64 \<Rightarrow> int" where
  "Nanoseconds n = 4 * sint n"

text \<open>Rounding up to a multiple of a power of two, and decimal numbers.\<close>

definition roundup2 :: "'a :: len word \<Rightarrow> 'a word \<Rightarrow> 'a word" where
  "roundup2 x y = (x + (y - 1)) AND (NOT (y - 1))"

fun dec :: "nat \<Rightarrow> string" where
  "dec n = (if n < 10 then [char_of (48 + n)] else dec (n div 10) @ [char_of (48 + n mod 10)])"

declare dec.simps [simp del]

text \<open>
  The model is that of the optimised build, in which \<open>DCHECK\<close> is compiled out: such a condition is not
  tested.  Where the code after it has no defined behaviour without it (an index outside an array), the condition is
  kept as a requirement, and breaking it is \<^const>\<open>None\<close>, too.
\<close>

abbreviation REQUIRE :: "bool \<Rightarrow> unit option" where "REQUIRE \<equiv> CHECK"

lemma CHECK_simps [simp]: "CHECK True = Some ()" "CHECK False = None"
  by (simp_all add: CHECK_def)

lemma CHECK_eq_Some [simp]: "CHECK b = Some u \<longleftrightarrow> b"
  by (cases u) (simp add: CHECK_def)

lemma CHECK_eq_None [simp]: "CHECK b = None \<longleftrightarrow> \<not> b"
  by (simp add: CHECK_def)

lemma CHECK_bind_eq_Some [simp]:
  "(CHECK b \<bind> f) = Some x \<longleftrightarrow> b \<and> f () = Some x"
  by (cases b) simp_all

text \<open>A loop over a list whose body may abort, as the range-based \<open>for\<close> loops are.\<close>

fun mfold :: "('a \<Rightarrow> 's \<Rightarrow> 's option) \<Rightarrow> 'a list \<Rightarrow> 's \<Rightarrow> 's option" where
  "mfold f [] s = Some s"
| "mfold f (x # xs) s = do { s \<leftarrow> f x s; mfold f xs s }"

lemma mfold_append: "mfold f (xs @ ys) s = mfold f xs s \<bind> mfold f ys"
proof (induction xs arbitrary: s)
  case (Cons x xs)
  then show ?case by (cases "f x s") simp_all
qed simp

lemma mfold_cong:
  "(\<And>x s. x \<in> set xs \<Longrightarrow> f x s = g x s) \<Longrightarrow> mfold f xs s = mfold g xs s"
proof (induction xs arbitrary: s)
  case (Cons x xs)
  then have "mfold f xs = mfold g xs" by (simp add: fun_eq_iff)
  then show ?case using Cons.prems by simp
qed simp

lemma mfold_inv:
  assumes "mfold f xs s = Some s'" and "P s"
    and "\<And>x s s'. x \<in> set xs \<Longrightarrow> P s \<Longrightarrow> f x s = Some s' \<Longrightarrow> P s'"
  shows "P s'"
  using assms
proof (induction xs arbitrary: s)
  case (Cons x xs)
  obtain s1 where "f x s = Some s1" "mfold f xs s1 = Some s'"
    using Cons.prems(1) by (auto simp: bind_eq_Some_conv)
  then show ?case using Cons.IH [of s1] Cons.prems(2, 3) by auto
qed simp

lemma mfold_unit: "mfold f xs () = Some () \<longleftrightarrow> (\<forall>x \<in> set xs. f x () = Some ())"
  by (induction xs) (auto simp: bind_eq_Some_conv)

lemma unat_u32_less: "unat (w :: u32) < 2 ^ 32"
  using unsigned_less [of w] by simp

lemma unat_ucast_u32: "unat (ucast (w :: u32) :: u64) = unat w"
proof -
  have "take_bit 64 (unat w) = unat w" using unat_u32_less [of w] by (intro take_bit_nat_eq_self) simp
  then show ?thesis by (simp add: unsigned_ucast_eq)
qed

end
