(* ===== verification/Arr_Structs.thy ===== *)
theory Arr_Structs
  imports Prelude
begin

unbundle bit_operations_syntax

text \<open>
  Byte-level model of the id/pointer conversions of \<open>lib/arr_structs.bpf.h\<close>,
  \<open>third_party/bpf/common.bpf.h\<close> and the head of \<open>lib/avl.bpf.h\<close>: elements of one
  array are named by 1-based ids, 0 is "no element", and every conversion back
  to a pointer is bounds checked.  Pointers and sizes are 64-bit words with 0 as
  NULL, ids are 32-bit words, so wrap-around and truncation are the machine's.
  The lemmas show when the conversions are inverse to one another, which is what
  lets the list and tree models use ids in the place of element pointers.
\<close>

section \<open>Bounded indexing\<close>

definition BOUNDED_ARRAY_IDX :: "u64 \<Rightarrow> u64 \<Rightarrow> u64 \<Rightarrow> u64 \<Rightarrow> u64" where
  "BOUNDED_ARRAY_IDX esz arr arr_sz idx =
     (if arr \<noteq> 0 then (if arr_sz \<le> idx then 0 else arr + idx * esz) else arr)"

definition bounded_idx :: "u64 \<Rightarrow> u64 \<Rightarrow> u64" where
  "bounded_idx idx bound = (if idx < bound then idx else 0)"

definition id_to_elem :: "u64 \<Rightarrow> u64 \<Rightarrow> u64 \<Rightarrow> u64 \<Rightarrow> u64" where
  "id_to_elem esz arr arr_sz eid =
     (if eid \<noteq> 0 then BOUNDED_ARRAY_IDX esz arr arr_sz (eid - 1) else 0)"

definition elem_to_id :: "u64 \<Rightarrow> u64 \<Rightarrow> u64 \<Rightarrow> u64" where
  "elem_to_id esz arr elem = (elem - arr) div esz + 1"

section \<open>Packed element esz and field offset\<close>

definition el_off :: "u64 \<Rightarrow> u64 \<Rightarrow> u64" where
  "el_off elem_sz field_off = (push_bit 32 elem_sz) OR field_off"

definition el_off_elem :: "u64 \<Rightarrow> u64" where
  "el_off_elem eo = drop_bit 32 eo"

definition el_off_field :: "u64 \<Rightarrow> u64" where
  "el_off_field eo = eo AND (push_bit 32 1 - 1)"

definition avl_id_to_node_ptr :: "u64 \<Rightarrow> u64 \<Rightarrow> u64 \<Rightarrow> u32 \<Rightarrow> u64" where
  "avl_id_to_node_ptr arr arr_sz eo eid =
     (let elem_sz = el_off_elem eo; field_off = el_off_field eo in
      if eid = 0 then 0
      else let p = ucast (eid - 1) * elem_sz + field_off in
        BOUNDED_ARRAY_IDX 1 arr ((arr_sz - 1) * elem_sz + field_off) p)"

definition avl_node_ptr_to_id :: "u64 \<Rightarrow> u64 \<Rightarrow> u64 \<Rightarrow> u32" where
  "avl_node_ptr_to_id arr eo node =
     (let elem_sz = el_off_elem eo; field_off = el_off_field eo in
      if node = 0 then 0
      else ucast (((node - field_off) - arr) div elem_sz + 1))"

text \<open>
  An array that the address space holds: a non-null base, a positive element
  esz, and no wrap-around from the base to the end of the last element.
\<close>

definition arr_layout :: "u64 \<Rightarrow> u64 \<Rightarrow> u64 \<Rightarrow> bool" where
  "arr_layout arr esz arr_sz \<longleftrightarrow>
     arr \<noteq> 0 \<and> esz \<noteq> 0 \<and> unat arr + unat arr_sz * unat esz < 2 ^ 64 \<and> unat arr_sz < 2 ^ 32"

lemma unat_add_noflow: "unat (a::u64) + unat b < 2 ^ 64 \<Longrightarrow> unat (a + b) = unat a + unat b"
  by (simp add: unat_word_ariths)

lemma unat_mult_noflow: "unat (a::u64) * unat b < 2 ^ 64 \<Longrightarrow> unat (a * b) = unat a * unat b"
  by (simp add: unat_word_ariths)

lemma unat_minus_one64: "(a::u64) \<noteq> 0 \<Longrightarrow> unat (a - 1) = unat a - 1"
  by (simp add: unat_minus_one)

lemma bit_below_32: 
  assumes "(f::u64) < 2 ^ 32" and "bit f n"
  shows "n < 32"
proof (rule ccontr)
  assume "\<not> n < 32"
  have "unat f < 2 ^ 32"
    using assms(1) by (simp add: word_less_nat_alt)
  also have "(2::nat) ^ 32 \<le> 2 ^ n"
    using \<open>\<not> n < 32\<close> by (intro power_increasing) auto
  finally have "unat f div 2 ^ n = 0" by simp
  moreover have "bit (unat f) n"
    using assms(2) by (simp add: bit_unsigned_iff)
  ultimately show False
    by (simp add: bit_iff_odd)
qed

lemma el_off_elem_el_off:
  assumes "e < 2 ^ 32" and "f < 2 ^ 32"
  shows "el_off_elem (el_off e f) = e"
proof (rule bit_eqI)
  fix n
  have "n < 32" if "bit e n" using that bit_below_32 [OF assms(1)] by blast
  moreover have "\<not> bit f (32 + n)" using bit_below_32 [OF assms(2), of "32 + n"] by auto
  ultimately show "bit (el_off_elem (el_off e f)) n = bit e n"
    by (auto simp: el_off_elem_def el_off_def bit_simps)
qed

lemma el_off_field_el_off:
  assumes "f < 2 ^ 32"
  shows "el_off_field (el_off e f) = f"
proof (rule bit_eqI)
  fix n
  have m: "push_bit 32 1 - 1 = (mask 32 :: u64)" by (simp add: mask_eq_exp_minus_1)
  have "n < 32" if "bit f n" using that bit_below_32 [OF assms] by blast
  then show "bit (el_off_field (el_off e f)) n = bit f n"
    unfolding el_off_field_def el_off_def m by (auto simp: bit_simps)
qed

lemma id_to_elem_in_range:
  assumes "arr_layout arr esz arr_sz" and "0 < eid" and "eid \<le> arr_sz"
  shows "unat (id_to_elem esz arr arr_sz eid) = unat arr + (unat eid - 1) * unat esz"
proof -
  have i: "unat (eid - 1) = unat eid - 1" "unat (eid - 1) < unat arr_sz"
    using assms(2,3) unat_gt_0 [of eid] by (auto simp: unat_minus_one64 word_le_nat_alt word_less_nat_alt)
  have "unat (eid - 1) * unat esz \<le> unat arr_sz * unat esz"
    using i(2) by simp
  then have b: "unat arr + unat (eid - 1) * unat esz < 2 ^ 64"
    using assms(1) unfolding arr_layout_def by linarith
  then have "unat ((eid - 1) * esz) = unat (eid - 1) * unat esz"
    by (intro unat_mult_noflow) simp
  moreover from this b have "unat (arr + (eid - 1) * esz) = unat arr + unat ((eid - 1) * esz)"
    by (intro unat_add_noflow) simp
  ultimately show ?thesis
    using assms i by (auto simp: id_to_elem_def BOUNDED_ARRAY_IDX_def arr_layout_def word_le_nat_alt)
qed
lemma elem_to_id_id_to_elem:
  assumes "arr_layout arr esz arr_sz" and "0 < eid" and "eid \<le> arr_sz"
  shows "elem_to_id esz arr (id_to_elem esz arr arr_sz eid) = eid"
proof -
  let ?p = "id_to_elem esz arr arr_sz eid"
  have p: "unat ?p = unat arr + (unat eid - 1) * unat esz"
    by (rule id_to_elem_in_range [OF assms])
  have "unat (?p - arr) = (unat eid - 1) * unat esz"
    using p by (simp add: unat_sub word_le_nat_alt)
  then have "unat ((?p - arr) div esz) = unat eid - 1"
    using assms(1) by (simp add: unat_div arr_layout_def unat_gt_0)
  then have "unat ((?p - arr) div esz) = unat (eid - 1)"
    using assms(2) by (simp add: unat_minus_one64 word_neq_0_conv)
  then have "(?p - arr) div esz = eid - 1"
    by (simp only: word_unat_eq_iff)
  then show ?thesis by (simp add: elem_to_id_def)
qed

lemma id_to_elem_out_of_range:
  "eid = 0 \<or> arr_sz < eid \<Longrightarrow> id_to_elem esz arr arr_sz eid = 0"
  by (auto simp: id_to_elem_def BOUNDED_ARRAY_IDX_def word_le_nat_alt word_less_nat_alt
      unat_minus_one64)

lemma id_to_elem_inj:
  assumes "arr_layout arr esz arr_sz"
    and "0 < i" "i \<le> arr_sz" "0 < j" "j \<le> arr_sz"
    and "id_to_elem esz arr arr_sz i = id_to_elem esz arr arr_sz j"
  shows "i = j"
  using elem_to_id_id_to_elem [OF assms(1-3)] elem_to_id_id_to_elem [OF assms(1,4,5)] assms(6)
  by metis

text \<open>The byte offset of a node, and the bound the tree's lookup checks it against.\<close>

lemma avl_ptr_bound:
  assumes "arr_layout arr e arr_sz" and "e < 2 ^ 32" and "f < e" and "arr_sz \<noteq> 0"
  shows "unat ((arr_sz - 1) * e + f) = (unat arr_sz - 1) * unat e + unat f"
proof -
  have a: "unat (arr_sz - 1) = unat arr_sz - 1" "unat arr_sz \<ge> 1"
    using assms(4) by (auto simp: unat_minus_one64 unat_gt_0 Suc_le_eq)
  have "(unat arr_sz - 1) * unat e + unat f < unat arr_sz * unat e"
    using a assms(3) by (cases "unat arr_sz") (auto simp: word_less_nat_alt)
  then have b: "(unat arr_sz - 1) * unat e + unat f < 2 ^ 64"
    using assms(1) unfolding arr_layout_def by linarith
  then have "unat ((arr_sz - 1) * e) = (unat arr_sz - 1) * unat e"
    using a by (subst unat_mult_noflow) auto
  with b show ?thesis by (subst unat_add_noflow) auto
qed

lemma ucast_succ_u32:
  assumes nz: "w \<noteq> 0"
  shows "ucast (ucast (w - 1 :: u32) + 1 :: u64) = w"
proof -
  note w = unat_u32_less [of w]
  have "unat (ucast (w - 1) :: u64) = unat w - 1"
    using unat_ucast_u32 [of "w - 1"] unat_minus_one [OF nz] by simp
  moreover have "unat w \<noteq> 0" using nz by (simp add: unat_eq_0)
  ultimately have "unat (ucast (w - 1) + 1 :: u64) = unat w"
    using w by (subst unat_add_noflow) auto
  then have "unat (ucast (ucast (w - 1) + 1 :: u64) :: u32) = unat w"
    using w by (simp add: unsigned_ucast_eq take_bit_nat_eq_self)
  then show ?thesis by (simp only: word_unat_eq_iff)
qed

lemma avl_ptr_offset:
  assumes "arr_layout arr e arr_sz" and "e < 2 ^ 32" and "f < e" and "(eid :: u32) \<noteq> 0"
  shows "unat (ucast (eid - 1) * e + f) = (unat eid - 1) * unat e + unat f"
proof -
  have i: "unat (ucast (eid - 1) :: u64) = unat eid - 1"
    using unat_ucast_u32 [of "eid - 1"] unat_minus_one [OF assms(4)] by simp
  have e: "unat e < 2 ^ 32" "unat f < unat e" using assms(2,3) by (auto simp: word_less_nat_alt)
  have n: "unat eid - 1 < 2 ^ 32" using unat_u32_less [of eid] by simp
  have "(unat eid - 1) * unat e + unat f < 2 ^ 32 * 2 ^ 32"
  proof -
    have "(unat eid - 1) * unat e + unat f < (unat eid - 1) * unat e + unat e" using e by simp
    also have "\<dots> = Suc (unat eid - 1) * unat e" by simp
    also have "\<dots> \<le> 2 ^ 32 * 2 ^ 32" using e n by (intro mult_le_mono) linarith+
    finally show ?thesis .
  qed
  then have b: "(unat eid - 1) * unat e + unat f < 2 ^ 64" by simp
  then have "unat (ucast (eid - 1) * e :: u64) = (unat eid - 1) * unat e"
    using i by (subst unat_mult_noflow) auto
  with b show ?thesis by (subst unat_add_noflow) auto
qed

lemma avl_id_to_node_ptr_eq:
  assumes "arr_layout arr e arr_sz" and "e < 2 ^ 32" and "f < e" and "arr_sz \<noteq> 0"
  shows "avl_id_to_node_ptr arr arr_sz (el_off e f) eid =
    (if eid \<noteq> 0 \<and> unat eid < unat arr_sz then arr + (ucast (eid - 1) * e + f) else 0)"
proof -
  have f: "f < 2 ^ 32" using assms(2,3) by simp
  have "(arr_sz - 1) * e + f \<le> ucast (eid - 1) * e + f \<longleftrightarrow> unat arr_sz \<le> unat eid" if "eid \<noteq> 0"
  proof -
    have "unat e > 0" using assms(3) by (simp add: word_less_nat_alt)
    moreover have "unat eid \<ge> 1" "unat arr_sz \<ge> 1" using that assms(4) by (auto simp: unat_gt_0 Suc_le_eq)
    ultimately show ?thesis
      using avl_ptr_bound [OF assms] avl_ptr_offset [OF assms(1-3) that]
      by (auto simp: word_le_nat_alt)
  qed
  then show ?thesis
    using assms(1) by (auto simp: avl_id_to_node_ptr_def Let_def BOUNDED_ARRAY_IDX_def arr_layout_def
        el_off_elem_el_off [OF assms(2) f] el_off_field_el_off [OF f])
qed

lemma avl_ptr_address:
  assumes "arr_layout arr e arr_sz" and "e < 2 ^ 32" and "f < e"
    and "(eid :: u32) \<noteq> 0" and "unat eid < unat arr_sz"
  shows "unat (arr + (ucast (eid - 1) * e + f)) = unat arr + (unat eid - 1) * unat e + unat f"
proof -
  have o: "unat (ucast (eid - 1) * e + f) = (unat eid - 1) * unat e + unat f"
    by (rule avl_ptr_offset [OF assms(1-4)])
  have "(unat eid - 1) * unat e + unat f < Suc (unat eid - 1) * unat e"
    using assms(3) by (simp add: word_less_nat_alt)
  also have "\<dots> \<le> unat arr_sz * unat e" using assms(5) by (intro mult_le_mono) linarith+
  finally have "unat (arr + (ucast (eid - 1) * e + f)) = unat arr + unat (ucast (eid - 1) * e + f)"
    using assms(1) o unfolding arr_layout_def by (intro unat_add_noflow) linarith
  with o show ?thesis by simp
qed

lemma avl_node_ptr_to_id_ptr:
  assumes "arr_layout arr e arr_sz" and "e < 2 ^ 32" and "f < e"
    and "eid \<noteq> 0" and "unat eid < unat arr_sz"
  shows "avl_node_ptr_to_id arr (el_off e f) (avl_id_to_node_ptr arr arr_sz (el_off e f) eid) = eid"
proof -
  have f: "f < 2 ^ 32" and sz: "arr_sz \<noteq> 0" using assms(2,3,5) by auto
  let ?p = "arr + (ucast (eid - 1) * e + f)"
  have p: "avl_id_to_node_ptr arr arr_sz (el_off e f) eid = ?p"
    using assms(4,5) by (simp add: avl_id_to_node_ptr_eq [OF assms(1-3) sz])
  have o: "unat (ucast (eid - 1) * e + f) = (unat eid - 1) * unat e + unat f"
    by (rule avl_ptr_offset [OF assms(1-4)])
  have np: "unat ?p = unat arr + unat (ucast (eid - 1) * e + f)"
    using avl_ptr_address [OF assms] o by simp
  have "unat ?p \<noteq> 0" using assms(1) np by (simp add: arr_layout_def unat_eq_0)
  then have nz: "?p \<noteq> 0" by (metis unat_0)
  have "(?p - f) - arr = ucast (eid - 1) * e" by simp
  moreover have "unat (ucast (eid - 1) * e :: u64) = (unat eid - 1) * unat e"
    using o avl_ptr_offset [OF assms(1,2) _ assms(4), of 0] assms(3)
    by (simp add: word_neq_0_conv [symmetric]) force
  ultimately have "unat (((?p - f) - arr) div e) = unat eid - 1"
    using assms(3) by (simp add: unat_div word_less_nat_alt)
  also have "\<dots> = unat (ucast (eid - 1) :: u64)"
    using unat_ucast_u32 [of "eid - 1"] unat_minus_one [OF assms(4)] by simp
  finally have "((?p - f) - arr) div e = ucast (eid - 1)"
    by (simp only: word_unat_eq_iff)
  moreover have "ucast (ucast (eid - 1) + 1 :: u64) = eid"
    by (rule ucast_succ_u32 [OF assms(4)])
  ultimately show ?thesis
    using nz p by (simp add: avl_node_ptr_to_id_def Let_def
        el_off_elem_el_off [OF assms(2) f] el_off_field_el_off [OF f])
qed

section \<open>Properties\<close>

text \<open>
  C19. Ids of array elements and element pointers are in bijection: for an array that fits
  the address space, every id from 1 to the array size is converted to the address of
  its element, that address is converted back to the same id, and any other id is
  converted to NULL.
\<close>

theorem arr_ids_round_trip:
  assumes "arr_layout arr esz arr_sz"
  shows "(if 0 < eid \<and> eid \<le> arr_sz
          then unat (id_to_elem esz arr arr_sz eid) = unat arr + (unat eid - 1) * unat esz
             \<and> elem_to_id esz arr (id_to_elem esz arr arr_sz eid) = eid
          else id_to_elem esz arr arr_sz eid = 0)"
proof (cases "0 < eid \<and> eid \<le> arr_sz")
  case True
  with assms show ?thesis by (simp add: id_to_elem_in_range elem_to_id_id_to_elem)
next
  case False
  then have "eid = 0 \<or> arr_sz < eid" by (auto simp: word_gt_0)
  with False show ?thesis by (auto simp: id_to_elem_out_of_range)
qed

theorem arr_ids_round_trip_witness:
  "id_to_elem 64 4096 1024 1024 = 69568 \<and> elem_to_id 64 4096 69568 = 1024"
  using arr_ids_round_trip [of 4096 64 1024 1024]
  by (simp add: arr_layout_def id_to_elem_def BOUNDED_ARRAY_IDX_def)

text \<open>
  C20. The tree's conversions between node ids and node pointers, with the element size and
  the field offset packed into one 64-bit argument. An id from 1 to one less than the array
  size is converted to the address of the field at offset \<open>f\<close> of element \<open>id - 1\<close>, as an
  unbounded sum, and that address is converted back to the id. The id 0 and NULL stand for
  one another. Every id from the array size on is converted to NULL; this includes the id of
  the last element, which the comment above the strict check calls legitimate, so that the
  last slot of the array cannot be reached through its id.
\<close>

theorem avl_ids_round_trip:
  assumes "arr_layout arr e arr_sz" and "e < 2 ^ 32" and "f < e" and "arr_sz \<noteq> 0"
  shows "(0 < unat eid \<and> unat eid < unat arr_sz \<longrightarrow>
       unat (avl_id_to_node_ptr arr arr_sz (el_off e f) eid) = unat arr + (unat eid - 1) * unat e + unat f
     \<and> avl_node_ptr_to_id arr (el_off e f) (avl_id_to_node_ptr arr arr_sz (el_off e f) eid) = eid)
    \<and> (unat arr_sz \<le> unat eid \<longrightarrow> avl_id_to_node_ptr arr arr_sz (el_off e f) eid = 0)
    \<and> avl_id_to_node_ptr arr arr_sz (el_off e f) 0 = 0
    \<and> avl_node_ptr_to_id arr (el_off e f) 0 = 0"
proof (intro conjI impI)
  assume i: "0 < unat eid \<and> unat eid < unat arr_sz"
  then have nz: "eid \<noteq> 0" by auto
  with i show "unat (avl_id_to_node_ptr arr arr_sz (el_off e f) eid) = unat arr + (unat eid - 1) * unat e + unat f"
    by (simp add: avl_id_to_node_ptr_eq [OF assms] avl_ptr_address [OF assms(1-3)])
  show "avl_node_ptr_to_id arr (el_off e f) (avl_id_to_node_ptr arr arr_sz (el_off e f) eid) = eid"
    using avl_node_ptr_to_id_ptr [OF assms(1-3) nz] i by blast
qed (simp_all add: avl_id_to_node_ptr_eq [OF assms] avl_node_ptr_to_id_def)

theorem avl_ids_round_trip_witness:
  "unat (avl_id_to_node_ptr 4096 8 (el_off 64 16) 7) = 4096 + 6 * 64 + 16
    \<and> avl_node_ptr_to_id 4096 (el_off 64 16) (avl_id_to_node_ptr 4096 8 (el_off 64 16) 7) = 7
    \<and> avl_id_to_node_ptr 4096 8 (el_off 64 16) 8 = 0"
  using avl_ids_round_trip [of 4096 64 8 16 7] avl_ids_round_trip [of 4096 64 8 16 8]
  by (simp add: arr_layout_def)

end
