(* ===== verification/Arr_List.thy ===== *)
theory Arr_List
  imports Arr_Structs
begin

text \<open>
  The array-backed doubly linked list of \<open>lib/queue.bpf.h\<close> (a BSD TAILQ whose links are
  ids).  An element pointer is represented by its id, with 0 for NULL; the bijection is
  proved in \<open>Arr_Structs\<close>.  The array is a function from ids to the link field of the
  element, and every macro is a function on the pair of list head and array.
  The abstraction relation \<open>al_repr\<close> relates head and array to the sequence of element
  ids; each operation is shown to implement the sequence operation it stands for.
\<close>

section \<open>Data and operations\<close>

record arr_list =
  al_first :: u32
  al_last :: u32

record arr_list_entry =
  al_next :: u32
  al_prev :: u32

type_synonym al_arr = "u32 \<Rightarrow> arr_list_entry"

definition arr_list_init :: "arr_list \<Rightarrow> arr_list" where
  "arr_list_init head = head\<lparr>al_first := 0, al_last := 0\<rparr>"

text \<open>\<open>__id_to_elem\<close> with element pointers represented by ids; \<open>N\<close> is \<open>arr_sz\<close>.\<close>

definition al_elem :: "nat \<Rightarrow> u32 \<Rightarrow> u32" where
  "al_elem N i = (if i \<noteq> 0 then (if unat (i - 1) < N then i else 0) else 0)"

definition arr_list_next :: "nat \<Rightarrow> al_arr \<Rightarrow> u32 \<Rightarrow> u32" where
  "arr_list_next N arr elem = al_elem N (al_next (arr elem))"

definition arr_list_prev :: "nat \<Rightarrow> al_arr \<Rightarrow> u32 \<Rightarrow> u32" where
  "arr_list_prev N arr elem = al_elem N (al_prev (arr elem))"

definition arr_list_first :: "nat \<Rightarrow> arr_list \<Rightarrow> u32" where
  "arr_list_first N head = al_elem N (al_first head)"

definition arr_list_last :: "nat \<Rightarrow> arr_list \<Rightarrow> u32" where
  "arr_list_last N head = al_elem N (al_last head)"

definition arr_list_empty :: "arr_list \<Rightarrow> bool" where
  "arr_list_empty head \<longleftrightarrow> al_first head = 0"

definition set_next :: "u32 \<Rightarrow> u32 \<Rightarrow> al_arr \<Rightarrow> al_arr" where
  "set_next x v arr = arr(x := (arr x)\<lparr>al_next := v\<rparr>)"

definition set_prev :: "u32 \<Rightarrow> u32 \<Rightarrow> al_arr \<Rightarrow> al_arr" where
  "set_prev x v arr = arr(x := (arr x)\<lparr>al_prev := v\<rparr>)"

text \<open>A store through a pointer that the macro guards with \<open>if (ptr)\<close>.\<close>

definition when_ptr :: "u32 \<Rightarrow> ('a \<Rightarrow> 'a) \<Rightarrow> 'a \<Rightarrow> 'a" where
  "when_ptr p f a = (if p \<noteq> 0 then f a else a)"

definition arr_list_insert_head :: "nat \<Rightarrow> u32 \<Rightarrow> arr_list \<times> al_arr \<Rightarrow> arr_list \<times> al_arr" where
  "arr_list_insert_head N elem = (\<lambda>(head, arr).
     let arr = set_prev elem 0 arr;
         arr = set_next elem (al_first head) arr
     in if arr_list_empty head
        then (head\<lparr>al_last := elem, al_first := elem\<rparr>, arr)
        else (head\<lparr>al_first := elem\<rparr>,
              when_ptr (arr_list_first N head) (set_prev (arr_list_first N head) elem) arr))"

definition arr_list_insert_tail :: "nat \<Rightarrow> u32 \<Rightarrow> arr_list \<times> al_arr \<Rightarrow> arr_list \<times> al_arr" where
  "arr_list_insert_tail N elem = (\<lambda>(head, arr).
     let arr = set_prev elem (al_last head) arr;
         arr = set_next elem 0 arr
     in if arr_list_empty head
        then (head\<lparr>al_first := elem, al_last := elem\<rparr>, arr)
        else (head\<lparr>al_last := elem\<rparr>,
              when_ptr (arr_list_last N head) (set_next (arr_list_last N head) elem) arr))"

definition arr_list_insert_before :: "nat \<Rightarrow> u32 \<Rightarrow> u32 \<Rightarrow> arr_list \<times> al_arr \<Rightarrow> arr_list \<times> al_arr" where
  "arr_list_insert_before N list_elem elem = (\<lambda>(head, arr).
     let prev = arr_list_prev N arr list_elem;
         arr = when_ptr prev (set_next prev elem) arr;
         arr = set_prev elem (al_prev (arr list_elem)) arr;
         arr = set_next elem list_elem arr;
         arr = set_prev list_elem elem arr
     in (if al_first head = list_elem then head\<lparr>al_first := elem\<rparr> else head, arr))"

definition arr_list_insert_after :: "nat \<Rightarrow> u32 \<Rightarrow> u32 \<Rightarrow> arr_list \<times> al_arr \<Rightarrow> arr_list \<times> al_arr" where
  "arr_list_insert_after N list_elem elem = (\<lambda>(head, arr).
     let nxt = arr_list_next N arr list_elem;
         arr = when_ptr nxt (set_prev nxt elem) arr;
         arr = set_prev elem list_elem arr;
         arr = set_next elem (al_next (arr list_elem)) arr;
         arr = set_next list_elem elem arr
     in (if al_last head = list_elem then head\<lparr>al_last := elem\<rparr> else head, arr))"

definition arr_list_remove :: "nat \<Rightarrow> u32 \<Rightarrow> arr_list \<times> al_arr \<Rightarrow> arr_list \<times> al_arr" where
  "arr_list_remove N elem = (\<lambda>(head, arr).
     let prev = arr_list_prev N arr elem;
         arr = when_ptr prev (set_next prev (al_next (arr elem))) arr;
         nxt = arr_list_next N arr elem;
         arr = when_ptr nxt (set_prev nxt (al_prev (arr elem))) arr;
         head = (if al_first head = elem then head\<lparr>al_first := al_next (arr elem)\<rparr> else head);
         head = (if al_last head = elem then head\<lparr>al_last := al_prev (arr elem)\<rparr> else head);
         arr = set_prev elem 0 arr;
         arr = set_next elem 0 arr
     in (head, arr))"

definition arr_list_pop_first :: "nat \<Rightarrow> arr_list \<times> al_arr \<Rightarrow> u32 \<times> (arr_list \<times> al_arr)" where
  "arr_list_pop_first N = (\<lambda>(head, arr).
     let first = arr_list_first N head; eid = al_first head
     in if first \<noteq> 0
        then (let nxt = arr_list_next N arr first;
                  arr = when_ptr nxt (set_prev nxt 0) arr;
                  head = head\<lparr>al_first := al_next (arr first)\<rparr>;
                  head = (if al_last head = eid then head\<lparr>al_last := 0\<rparr> else head);
                  arr = set_next first 0 arr
              in (first, (head, arr)))
        else (first, (head, arr)))"

definition arr_list_concat :: "nat \<Rightarrow> arr_list \<times> arr_list \<times> al_arr \<Rightarrow> arr_list \<times> arr_list \<times> al_arr" where
  "arr_list_concat N = (\<lambda>(head1, head2, arr).
     let h1_l = arr_list_last N head1;
         arr = when_ptr h1_l (set_next h1_l (al_first head2)) arr;
         h2_f = arr_list_first N head2;
         arr = when_ptr h2_f (set_prev h2_f (al_last head1)) arr;
         head1 = (if arr_list_empty head1 then head1\<lparr>al_first := al_first head2\<rparr> else head1);
         head1 = head1\<lparr>al_last := al_last head2\<rparr>
     in (head1, arr_list_init head2, arr))"

text \<open>
  The iterators: \<open>body\<close> is the loop body on the whole program state \<open>'s\<close>, \<open>ent\<close> reads
  the link fields out of that state, \<open>n\<close> is \<open>max - _i\<close>.  The result is the final value
  of \<open>var\<close> and the final state.
\<close>

fun foreach_loop :: "nat \<Rightarrow> ('s \<Rightarrow> al_arr) \<Rightarrow> (u32 \<Rightarrow> 's \<Rightarrow> 's) \<Rightarrow> nat \<Rightarrow> u32 \<Rightarrow> 's \<Rightarrow> u32 \<times> 's" where
  "foreach_loop N ent body 0 var s = (var, s)"
| "foreach_loop N ent body (Suc n) var s =
     (if var \<noteq> 0
      then let s' = body var s in foreach_loop N ent body n (arr_list_next N (ent s') var) s'
      else (var, s))"

definition arr_list_foreach ::
  "nat \<Rightarrow> arr_list \<Rightarrow> ('s \<Rightarrow> al_arr) \<Rightarrow> (u32 \<Rightarrow> 's \<Rightarrow> 's) \<Rightarrow> nat \<Rightarrow> 's \<Rightarrow> u32 \<times> 's" where
  "arr_list_foreach N head ent body mx s = foreach_loop N ent body mx (arr_list_first N head) s"

fun foreach_safe_loop :: "nat \<Rightarrow> ('s \<Rightarrow> al_arr) \<Rightarrow> (u32 \<Rightarrow> 's \<Rightarrow> 's) \<Rightarrow> nat \<Rightarrow> u32 \<Rightarrow> 's \<Rightarrow> u32 \<times> 's" where
  "foreach_safe_loop N ent body 0 var s = (var, s)"
| "foreach_safe_loop N ent body (Suc n) var s =
     (if var \<noteq> 0
      then let tvar = arr_list_next N (ent s) var in foreach_safe_loop N ent body n tvar (body var s)
      else (var, s))"

definition arr_list_foreach_safe ::
  "nat \<Rightarrow> arr_list \<Rightarrow> ('s \<Rightarrow> al_arr) \<Rightarrow> (u32 \<Rightarrow> 's \<Rightarrow> 's) \<Rightarrow> nat \<Rightarrow> 's \<Rightarrow> u32 \<times> 's" where
  "arr_list_foreach_safe N head ent body mx s =
     foreach_safe_loop N ent body mx (arr_list_first N head) s"

fun foreach_reverse_loop :: "nat \<Rightarrow> ('s \<Rightarrow> al_arr) \<Rightarrow> (u32 \<Rightarrow> 's \<Rightarrow> 's) \<Rightarrow> nat \<Rightarrow> u32 \<Rightarrow> 's \<Rightarrow> u32 \<times> 's" where
  "foreach_reverse_loop N ent body 0 var s = (var, s)"
| "foreach_reverse_loop N ent body (Suc n) var s =
     (if var \<noteq> 0
      then let s' = body var s
           in foreach_reverse_loop N ent body n (arr_list_prev N (ent s') var) s'
      else (var, s))"

definition arr_list_foreach_reverse ::
  "nat \<Rightarrow> arr_list \<Rightarrow> ('s \<Rightarrow> al_arr) \<Rightarrow> (u32 \<Rightarrow> 's \<Rightarrow> 's) \<Rightarrow> nat \<Rightarrow> 's \<Rightarrow> u32 \<times> 's" where
  "arr_list_foreach_reverse N head ent body mx s =
     foreach_reverse_loop N ent body mx (arr_list_last N head) s"

fun foreach_reverse_safe_loop ::
  "nat \<Rightarrow> ('s \<Rightarrow> al_arr) \<Rightarrow> (u32 \<Rightarrow> 's \<Rightarrow> 's) \<Rightarrow> nat \<Rightarrow> u32 \<Rightarrow> 's \<Rightarrow> u32 \<times> 's" where
  "foreach_reverse_safe_loop N ent body 0 var s = (var, s)"
| "foreach_reverse_safe_loop N ent body (Suc n) var s =
     (if var \<noteq> 0
      then let tvar = arr_list_prev N (ent s) var
           in foreach_reverse_safe_loop N ent body n tvar (body var s)
      else (var, s))"

definition arr_list_foreach_reverse_safe ::
  "nat \<Rightarrow> arr_list \<Rightarrow> ('s \<Rightarrow> al_arr) \<Rightarrow> (u32 \<Rightarrow> 's \<Rightarrow> 's) \<Rightarrow> nat \<Rightarrow> 's \<Rightarrow> u32 \<times> 's" where
  "arr_list_foreach_reverse_safe N head ent body mx s =
     foreach_reverse_safe_loop N ent body mx (arr_list_last N head) s"

section \<open>Abstraction to sequences of ids\<close>

definition al_valid :: "nat \<Rightarrow> u32 \<Rightarrow> bool" where
  "al_valid N i \<longleftrightarrow> i \<noteq> 0 \<and> unat (i - 1) < N"

lemma al_elem_valid [simp]: "al_valid N i \<Longrightarrow> al_elem N i = i"
  by (simp add: al_valid_def al_elem_def)

lemma al_elem_0 [simp]: "al_elem N 0 = 0"
  by (simp add: al_elem_def)

lemma al_valid_nz [dest]: "al_valid N i \<Longrightarrow> i \<noteq> 0"
  by (simp add: al_valid_def)

lemma not_al_valid_0 [simp]: "\<not> al_valid N 0"
  by (simp add: al_valid_def)

lemma set_next_simps [simp]:
  "al_next (set_next x v arr y) = (if y = x then v else al_next (arr y))"
  "al_prev (set_next x v arr y) = al_prev (arr y)"
  by (simp_all add: set_next_def)

lemma set_prev_simps [simp]:
  "al_prev (set_prev x v arr y) = (if y = x then v else al_prev (arr y))"
  "al_next (set_prev x v arr y) = al_next (arr y)"
  by (simp_all add: set_prev_def)

text \<open>
  \<open>dlseg N arr p i xs j q\<close>: starting at id \<open>i\<close>, whose predecessor is \<open>p\<close>, the links
  run through \<open>xs\<close>, arrive at \<open>j\<close>, and the element before \<open>j\<close> is \<open>q\<close>.
\<close>

fun dlseg :: "nat \<Rightarrow> al_arr \<Rightarrow> u32 \<Rightarrow> u32 \<Rightarrow> u32 list \<Rightarrow> u32 \<Rightarrow> u32 \<Rightarrow> bool" where
  "dlseg N arr p i [] j q \<longleftrightarrow> i = j \<and> p = q"
| "dlseg N arr p i (x # xs) j q \<longleftrightarrow>
     x = i \<and> al_valid N x \<and> al_prev (arr x) = p \<and> dlseg N arr x (al_next (arr x)) xs j q"

definition al_repr :: "nat \<Rightarrow> arr_list \<times> al_arr \<Rightarrow> u32 list \<Rightarrow> bool" where
  "al_repr N = (\<lambda>(head, arr) xs. dlseg N arr 0 (al_first head) xs 0 (al_last head) \<and> distinct xs)"

lemma dlseg_append:
  "dlseg N arr p i (xs @ ys) j q \<longleftrightarrow> (\<exists>k m. dlseg N arr p i xs k m \<and> dlseg N arr m k ys j q)"
  by (induction xs arbitrary: p i) auto

lemma dlseg_cong:
  assumes "\<And>x. x \<in> set xs \<Longrightarrow> al_next (arr' x) = al_next (arr x)"
    and "\<And>x. x \<in> set xs \<Longrightarrow> al_prev (arr' x) = al_prev (arr x)"
  shows "dlseg N arr' p i xs j q = dlseg N arr p i xs j q"
  using assms by (induction xs arbitrary: p i) auto

lemma dlseg_frame [simp]:
  assumes "x \<notin> set xs"
  shows "dlseg N (set_next x v arr) p i xs j q = dlseg N arr p i xs j q"
    and "dlseg N (set_prev x v arr) p i xs j q = dlseg N arr p i xs j q"
  using assms by (auto intro!: dlseg_cong)

lemma dlseg_valid: "dlseg N arr p i xs j q \<Longrightarrow> x \<in> set xs \<Longrightarrow> al_valid N x"
  by (induction xs arbitrary: p i) auto

lemma dlseg_snoc:
  "dlseg N arr p i (xs @ [x]) j q \<longleftrightarrow>
     (\<exists>m. dlseg N arr p i xs x m \<and> al_valid N x \<and> al_prev (arr x) = m \<and> al_next (arr x) = j \<and> q = x)"
  by (auto simp: dlseg_append)

text \<open>Redirecting the two ends of a segment.\<close>

lemma dlseg_set_prev_first:
  "dlseg N arr p i (x # xs) j q \<Longrightarrow> x \<notin> set xs \<Longrightarrow> dlseg N (set_prev x p' arr) p' i (x # xs) j q"
  by auto

lemma dlseg_set_next_last:
  "dlseg N arr p i (xs @ [x]) j q \<Longrightarrow> x \<notin> set xs \<Longrightarrow> dlseg N (set_next x j' arr) p i (xs @ [x]) j' q"
  by (auto simp: dlseg_snoc)

lemma al_repr_empty_iff: "al_repr N (head, arr) xs \<Longrightarrow> arr_list_empty head \<longleftrightarrow> xs = []"
  by (cases xs) (auto simp: al_repr_def arr_list_empty_def)

lemma al_repr_Nil [simp]: "al_repr N (head, arr) [] \<longleftrightarrow> al_first head = 0 \<and> al_last head = 0"
  by (auto simp: al_repr_def)

lemma al_repr_init: "al_repr N (arr_list_init head, arr) []"
  by (simp add: arr_list_init_def)

lemma al_repr_unique: "al_repr N s xs \<Longrightarrow> al_repr N s ys \<Longrightarrow> xs = ys"
proof -
  have "dlseg N arr p i xs 0 q \<Longrightarrow> dlseg N arr p i ys 0 q' \<Longrightarrow> xs = ys" for arr p i q q'
  proof (induction xs arbitrary: p i ys)
    case Nil
    then show ?case by (cases ys) auto
  next
    case (Cons x xs)
    then show ?case by (cases ys) auto
  qed
  then show "al_repr N s xs \<Longrightarrow> al_repr N s ys \<Longrightarrow> xs = ys"
    by (auto simp: al_repr_def split: prod.splits)
qed

section \<open>Each operation implements its sequence operation\<close>

lemma insert_head_repr:
  assumes "al_repr N s xs" and "al_valid N e" and "e \<notin> set xs"
  shows "al_repr N (arr_list_insert_head N e s) (e # xs)"
proof (cases xs)
  case Nil
  with assms show ?thesis
    by (cases s) (simp add: arr_list_insert_head_def al_repr_def arr_list_empty_def Let_def)
next
  case (Cons x ys)
  with assms show ?thesis
    by (cases s)
      (auto simp: arr_list_insert_head_def al_repr_def arr_list_empty_def Let_def when_ptr_def
        arr_list_first_def)
qed

lemma insert_tail_repr:
  assumes "al_repr N s xs" and "al_valid N e" and "e \<notin> set xs"
  shows "al_repr N (arr_list_insert_tail N e s) (xs @ [e])"
proof (cases xs rule: rev_cases)
  case Nil
  with assms show ?thesis
    by (cases s) (simp add: arr_list_insert_tail_def al_repr_def arr_list_empty_def Let_def)
next
  case (snoc ys y)
  obtain head arr where s: "s = (head, arr)" by (cases s)
  from assms snoc s have "al_first head \<noteq> 0"
    using al_repr_empty_iff [of N head arr xs] by (auto simp: arr_list_empty_def)
  with assms snoc s show ?thesis
    by (auto simp: arr_list_insert_tail_def al_repr_def arr_list_empty_def Let_def when_ptr_def
        arr_list_last_def dlseg_snoc dlseg_append)
qed

lemma insert_before_repr:
  assumes "al_repr N s (xs @ l # ys)" and "al_valid N e" and "e \<notin> set (xs @ l # ys)"
  shows "al_repr N (arr_list_insert_before N l e s) (xs @ e # l # ys)"
proof (cases xs rule: rev_cases)
  case Nil
  with assms show ?thesis
    by (cases s)
      (auto simp: arr_list_insert_before_def al_repr_def Let_def when_ptr_def arr_list_prev_def)
next
  case (snoc zs z)
  obtain head arr where s: "s = (head, arr)" by (cases s)
  have "al_first head \<noteq> l"
    using assms(1) snoc s by (cases zs) (auto simp: al_repr_def)
  with assms snoc s show ?thesis
    by (auto simp: arr_list_insert_before_def al_repr_def Let_def when_ptr_def arr_list_prev_def
        dlseg_append)
qed

lemma dlseg_end: "dlseg N arr p i xs j q \<Longrightarrow> q = (if xs = [] then p else last xs)"
  by (induction xs arbitrary: p i) auto

lemma dlseg_start: "dlseg N arr p i xs j q \<Longrightarrow> i = (if xs = [] then j else hd xs)"
  by (cases xs) auto

lemma insert_after_repr:
  assumes "al_repr N s (xs @ l # ys)" and "al_valid N e" and "e \<notin> set (xs @ l # ys)"
  shows "al_repr N (arr_list_insert_after N l e s) (xs @ l # e # ys)"
proof (cases ys)
  case Nil
  with assms show ?thesis
    by (cases s)
      (auto simp: arr_list_insert_after_def al_repr_def Let_def when_ptr_def arr_list_next_def
        dlseg_append)
next
  case (Cons y zs)
  obtain head arr where s: "s = (head, arr)" by (cases s)
  have "al_last head = last ys"
    using assms(1) Cons s by (auto simp: al_repr_def dlseg_append dest!: dlseg_end)
  then have "al_last head \<noteq> l"
    using assms(1) Cons s by (auto simp: al_repr_def)
  with assms Cons s show ?thesis
    by (auto simp: arr_list_insert_after_def al_repr_def Let_def when_ptr_def arr_list_next_def
        dlseg_append)
qed

text \<open>Relinking the element before and the element after a position.\<close>

lemma dlseg_when_frame [simp]:
  assumes "x \<notin> set xs"
  shows "dlseg N (when_ptr x (set_next x v) arr) p i xs j q = dlseg N arr p i xs j q"
    and "dlseg N (when_ptr x (set_prev x v) arr) p i xs j q = dlseg N arr p i xs j q"
  using assms by (simp_all add: when_ptr_def)

lemma relink_next:
  assumes "dlseg N arr 0 i xs j q" and "distinct xs"
  shows "dlseg N (when_ptr q (set_next q j') arr) 0 (if xs = [] then j' else i) xs j' q"
  using assms by (cases xs rule: rev_cases) (auto simp: when_ptr_def dlseg_snoc)

lemma relink_prev:
  assumes "dlseg N arr p i ys 0 q" and "distinct ys"
  shows "dlseg N (when_ptr i (set_prev i p') arr) p' i ys 0 (if ys = [] then p' else q)"
  using assms by (cases ys) (auto simp: when_ptr_def)

lemma dlseg_elem_start: "dlseg N arr p i xs 0 q \<Longrightarrow> al_elem N i = i"
  by (cases xs) auto

lemma dlseg_elem_end: "dlseg N arr 0 i xs j q \<Longrightarrow> al_elem N q = q"
  by (cases xs rule: rev_cases) (auto simp: dlseg_snoc)

lemma dlseg_end_mem: "dlseg N arr 0 i xs j q \<Longrightarrow> q = 0 \<or> q \<in> set xs \<and> al_valid N q"
  by (cases xs rule: rev_cases) (auto simp: dlseg_snoc)

lemma dlseg_start_mem: "dlseg N arr p i xs 0 q \<Longrightarrow> i = 0 \<or> i \<in> set xs \<and> al_valid N i"
  by (cases xs) auto

lemma remove_repr:
  assumes "al_repr N s (xs @ e # ys)"
  shows "al_repr N (arr_list_remove N e s) (xs @ ys)"
proof -
  obtain head arr where s: "s = (head, arr)" by (cases s)
  let ?p = "al_prev (arr e)" and ?n = "al_next (arr e)"
  have x: "dlseg N arr 0 (al_first head) xs e ?p" and y: "dlseg N arr e ?n ys 0 (al_last head)"
    and d: "distinct (xs @ e # ys)" and v: "al_valid N e"
    using assms s by (auto simp: al_repr_def dlseg_append)
  have p: "al_elem N ?p = ?p" "?p \<notin> set ys" "?p \<noteq> e"
    using dlseg_elem_end [OF x] dlseg_end_mem [OF x] d v dlseg_valid [OF y] by auto
  have n: "al_elem N ?n = ?n" "?n \<notin> set xs" "?n \<noteq> e"
    using dlseg_elem_start [OF y] dlseg_start_mem [OF y] d v dlseg_valid [OF x] by auto
  let ?arr1 = "when_ptr ?p (set_next ?p ?n) arr"
  let ?arr2 = "when_ptr ?n (set_prev ?n ?p) ?arr1"
  have e1: "al_next (?arr1 e) = ?n" "al_prev (?arr1 e) = ?p"
    using p n by (auto simp: when_ptr_def)
  have e2: "al_next (?arr2 e) = ?n" "al_prev (?arr2 e) = ?p"
    using p n e1 by (auto simp: when_ptr_def)
  have f: "(al_first head = e) = (xs = [])" using dlseg_start [OF x] d by (cases xs) auto
  have l: "(al_last head = e) = (ys = [])" using dlseg_end [OF y] d by (cases ys rule: rev_cases) auto
  have r: "arr_list_remove N e s =
     (head\<lparr>al_first := (if xs = [] then ?n else al_first head),
           al_last := (if ys = [] then ?p else al_last head)\<rparr>, set_next e 0 (set_prev e 0 ?arr2))"
    using p n e1 e2 f l unfolding s
    by (simp add: arr_list_remove_def Let_def arr_list_prev_def arr_list_next_def)
  have "dlseg N (set_next e 0 (set_prev e 0 ?arr2)) 0 (if xs = [] then ?n else al_first head) xs ?n ?p"
    using relink_next [OF x, of ?n] d n by simp
  moreover have "dlseg N (set_next e 0 (set_prev e 0 ?arr2)) ?p ?n ys 0 (if ys = [] then ?p else al_last head)"
    using relink_prev [of N ?arr1 e ?n ys "al_last head" ?p] y d p by simp
  ultimately show ?thesis
    using d unfolding r by (auto simp: al_repr_def dlseg_append)
qed

lemma remove_clears:
  assumes "al_repr N s (xs @ e # ys)"
  shows "snd (arr_list_remove N e s) e = \<lparr>al_next = 0, al_prev = 0\<rparr>"
  by (cases s) (simp add: arr_list_remove_def Let_def set_next_def set_prev_def)

lemma pop_first_Nil:
  assumes "al_repr N s []"
  shows "arr_list_pop_first N s = (0, s)"
  using assms by (cases s) (simp add: arr_list_pop_first_def arr_list_first_def)

lemma pop_first_Cons:
  assumes "al_repr N s (x # xs)"
  shows "fst (arr_list_pop_first N s) = x"
    and "al_repr N (snd (arr_list_pop_first N s)) xs"
proof -
  obtain head arr where s: "s = (head, arr)" by (cases s)
  let ?n = "al_next (arr x)"
  have x: "x = al_first head" "al_valid N x" "al_prev (arr x) = 0"
    and y: "dlseg N arr x ?n xs 0 (al_last head)" and d: "distinct (x # xs)"
    using assms s by (auto simp: al_repr_def)
  have n: "al_elem N ?n = ?n" "?n \<noteq> x"
    using dlseg_elem_start [OF y] dlseg_start_mem [OF y] d x by auto
  have l: "(al_last head = al_first head) = (xs = [])"
    using dlseg_end [OF y] d x by (cases xs rule: rev_cases) auto
  let ?arr1 = "when_ptr ?n (set_prev ?n 0) arr"
  have "al_next (?arr1 x) = ?n" by (simp add: when_ptr_def)
  then have r: "arr_list_pop_first N s =
      (x, (head\<lparr>al_first := ?n, al_last := (if xs = [] then 0 else al_last head)\<rparr>,
           set_next x 0 ?arr1))"
    using x n l unfolding s
    by (auto simp: arr_list_pop_first_def Let_def arr_list_first_def arr_list_next_def)
  show "fst (arr_list_pop_first N s) = x" by (simp add: r)
  show "al_repr N (snd (arr_list_pop_first N s)) xs"
    using relink_prev [OF y, of 0] d unfolding r by (simp add: al_repr_def)
qed

lemma concat_repr:
  assumes "al_repr N (head1, arr) xs" and "al_repr N (head2, arr) ys"
    and "set xs \<inter> set ys = {}" and "ys \<noteq> []"
    and "arr_list_concat N (head1, head2, arr) = (head1', head2', arr')"
  shows "al_repr N (head1', arr') (xs @ ys)" and "al_repr N (head2', arr') []"
proof -
  have x: "dlseg N arr 0 (al_first head1) xs 0 (al_last head1)" "distinct xs"
    and y: "dlseg N arr 0 (al_first head2) ys 0 (al_last head2)" "distinct ys"
    using assms(1,2) by (auto simp: al_repr_def)
  let ?l = "al_last head1" and ?f = "al_first head2"
  have p: "al_elem N ?l = ?l" "?l \<notin> set ys"
    using dlseg_elem_end [OF x(1)] dlseg_end_mem [OF x(1)] assms(3) dlseg_valid [OF y(1)] by auto
  have n: "al_elem N ?f = ?f" "?f \<notin> set xs"
    using dlseg_elem_start [OF y(1)] dlseg_start_mem [OF y(1)] assms(3) dlseg_valid [OF x(1)] by auto
  let ?arr1 = "when_ptr ?l (set_next ?l ?f) arr"
  let ?arr2 = "when_ptr ?f (set_prev ?f ?l) ?arr1"
  have r: "head1' = head1\<lparr>al_first := (if xs = [] then ?f else al_first head1), al_last := al_last head2\<rparr>"
    "head2' = arr_list_init head2" "arr' = ?arr2"
    using assms(5) p n al_repr_empty_iff [OF assms(1)]
    by (auto simp: arr_list_concat_def Let_def arr_list_last_def arr_list_first_def)
  show "al_repr N (head2', arr') []" by (simp add: r arr_list_init_def)
  have "dlseg N ?arr2 0 (if xs = [] then ?f else al_first head1) xs ?f ?l"
    using relink_next [OF x, of ?f] n by simp
  moreover have "dlseg N ?arr2 ?l ?f ys 0 (al_last head2)"
    using relink_prev [of N ?arr1 0 ?f ys "al_last head2" ?l] y p assms(4) by simp
  ultimately show "al_repr N (head1', arr') (xs @ ys)"
    using assms(3) x y unfolding r by (auto simp: al_repr_def dlseg_append)
qed

section \<open>Iterators\<close>

fun chain :: "nat \<Rightarrow> (u32 \<Rightarrow> u32) \<Rightarrow> u32 \<Rightarrow> u32 list \<Rightarrow> bool" where
  "chain N link i [] \<longleftrightarrow> i = 0"
| "chain N link i (x # xs) \<longleftrightarrow> x = i \<and> al_valid N x \<and> chain N link (link x) xs"

lemma chain_cong: "(\<And>x. x \<in> set xs \<Longrightarrow> link' x = link x) \<Longrightarrow> chain N link' i xs = chain N link i xs"
  by (induction xs arbitrary: i) auto

lemma dlseg_chain_next: "dlseg N arr p i xs 0 q \<Longrightarrow> chain N (\<lambda>x. al_next (arr x)) i xs"
  by (induction xs arbitrary: p i) auto

lemma dlseg_chain_prev: "dlseg N arr 0 i xs j q \<Longrightarrow> chain N (\<lambda>x. al_prev (arr x)) q (rev xs)"
  by (induction xs arbitrary: j q rule: rev_induct) (auto simp: dlseg_snoc)

lemma chain_elem: "chain N link i xs \<Longrightarrow> al_elem N i = i"
  by (cases xs) auto

lemma foreach_loop_visits:
  assumes "chain N (\<lambda>x. al_next (ent s x)) i xs"
    and "\<And>x y s. x \<in> set xs \<Longrightarrow> y \<in> set xs \<Longrightarrow> al_next (ent (body x s) y) = al_next (ent s y)"
  shows "foreach_loop N ent body n i s = (if n < length xs then xs ! n else 0, fold body (take n xs) s)"
  using assms
proof (induction xs arbitrary: n i s)
  case Nil
  then show ?case by (cases n) auto
next
  case (Cons x xs)
  show ?case
  proof (cases n)
    case 0
    with Cons.prems show ?thesis by simp
  next
    case (Suc m)
    have "chain N (\<lambda>y. al_next (ent (body x s) y)) (al_next (ent (body x s) x)) xs"
      using Cons.prems chain_cong [of xs "\<lambda>y. al_next (ent (body x s) y)" "\<lambda>y. al_next (ent s y)" N] by auto
    from Cons.IH [OF this, of m] chain_elem [OF this] Cons.prems Suc show ?thesis
      by (auto simp: Let_def arr_list_next_def)
  qed
qed

lemma foreach_safe_loop_visits:
  assumes "chain N (\<lambda>x. al_next (ent s x)) i xs" and "distinct xs"
    and "\<And>x y s. x \<in> set xs \<Longrightarrow> y \<in> set xs \<Longrightarrow> y \<noteq> x \<Longrightarrow> al_next (ent (body x s) y) = al_next (ent s y)"
  shows "foreach_safe_loop N ent body n i s = (if n < length xs then xs ! n else 0, fold body (take n xs) s)"
  using assms
proof (induction xs arbitrary: n i s)
  case Nil
  then show ?case by (cases n) auto
next
  case (Cons x xs)
  show ?case
  proof (cases n)
    case 0
    with Cons.prems show ?thesis by simp
  next
    case (Suc m)
    have c: "chain N (\<lambda>y. al_next (ent (body x s) y)) (al_next (ent s x)) xs"
    proof -
      have "al_next (ent (body x s) y) = al_next (ent s y)" if "y \<in> set xs" for y
        using Cons.prems(2,3) that by auto
      then show ?thesis
        using Cons.prems(1) chain_cong [of xs "\<lambda>y. al_next (ent (body x s) y)" "\<lambda>y. al_next (ent s y)" N]
        by auto
    qed
    from Cons.IH [OF c, of m] chain_elem [OF c] Cons.prems Suc show ?thesis
      by (auto simp: Let_def arr_list_next_def)
  qed
qed

text \<open>The reverse loops are the forward loops over the mirrored array.\<close>

definition mirror_arr :: "al_arr \<Rightarrow> al_arr" where
  "mirror_arr arr x = \<lparr>al_next = al_prev (arr x), al_prev = al_next (arr x)\<rparr>"

lemma mirror_arr_simps [simp]:
  "al_next (mirror_arr arr x) = al_prev (arr x)" "al_prev (mirror_arr arr x) = al_next (arr x)"
  by (simp_all add: mirror_arr_def)

lemma foreach_reverse_loop_mirror:
  "foreach_reverse_loop N ent body n i s = foreach_loop N (\<lambda>s. mirror_arr (ent s)) body n i s"
  by (induction N ent body n i s rule: foreach_reverse_loop.induct)
    (auto simp: Let_def arr_list_next_def arr_list_prev_def)

lemma foreach_reverse_safe_loop_mirror:
  "foreach_reverse_safe_loop N ent body n i s =
     foreach_safe_loop N (\<lambda>s. mirror_arr (ent s)) body n i s"
  by (induction N ent body n i s rule: foreach_reverse_safe_loop.induct)
    (auto simp: Let_def arr_list_next_def arr_list_prev_def)

lemma fold_append_snoc: "fold (\<lambda>x seen. seen @ [x]) xs ys = ys @ xs"
  by (induction xs arbitrary: ys) auto

lemma foreach_visits:
  assumes "al_repr N (head, ent s) xs"
    and "\<And>x y s. x \<in> set xs \<Longrightarrow> y \<in> set xs \<Longrightarrow> ent (body x s) y = ent s y"
  shows "arr_list_foreach N head ent body n s = (if n < length xs then xs ! n else 0, fold body (take n xs) s)"
    and "arr_list_foreach_reverse N head ent body n s =
      (if n < length xs then rev xs ! n else 0, fold body (take n (rev xs)) s)"
proof -
  have seg: "dlseg N (ent s) 0 (al_first head) xs 0 (al_last head)" and "distinct xs"
    using assms(1) by (auto simp: al_repr_def)
  show "arr_list_foreach N head ent body n s = (if n < length xs then xs ! n else 0, fold body (take n xs) s)"
    unfolding arr_list_foreach_def arr_list_first_def dlseg_elem_start [OF seg]
    by (rule foreach_loop_visits) (use dlseg_chain_next [OF seg] assms(2) in auto)
  have "chain N (\<lambda>x. al_next (mirror_arr (ent s) x)) (al_last head) (rev xs)"
    using dlseg_chain_prev [OF seg] by simp
  from foreach_loop_visits [of N "\<lambda>s. mirror_arr (ent s)", OF this, of body n] assms(2)
  show "arr_list_foreach_reverse N head ent body n s =
      (if n < length xs then rev xs ! n else 0, fold body (take n (rev xs)) s)"
    by (simp add: arr_list_foreach_reverse_def arr_list_last_def dlseg_elem_end [OF seg]
        foreach_reverse_loop_mirror)
qed

lemma foreach_safe_visits:
  assumes "al_repr N (head, ent s) xs"
    and "\<And>x y s. x \<in> set xs \<Longrightarrow> y \<in> set xs \<Longrightarrow> y \<noteq> x \<Longrightarrow> al_next (ent (body x s) y) = al_next (ent s y)"
  shows "arr_list_foreach_safe N head ent body n s =
      (if n < length xs then xs ! n else 0, fold body (take n xs) s)"
proof -
  have seg: "dlseg N (ent s) 0 (al_first head) xs 0 (al_last head)" and "distinct xs"
    using assms(1) by (auto simp: al_repr_def)
  then show ?thesis
    unfolding arr_list_foreach_safe_def arr_list_first_def dlseg_elem_start [OF seg]
    by (intro foreach_safe_loop_visits) (use dlseg_chain_next [OF seg] assms(2) in auto)
qed

lemma foreach_reverse_safe_visits:
  assumes "al_repr N (head, ent s) xs"
    and "\<And>x y s. x \<in> set xs \<Longrightarrow> y \<in> set xs \<Longrightarrow> y \<noteq> x \<Longrightarrow> al_prev (ent (body x s) y) = al_prev (ent s y)"
  shows "arr_list_foreach_reverse_safe N head ent body n s =
      (if n < length xs then rev xs ! n else 0, fold body (take n (rev xs)) s)"
proof -
  have seg: "dlseg N (ent s) 0 (al_first head) xs 0 (al_last head)" and d: "distinct xs"
    using assms(1) by (auto simp: al_repr_def)
  have "chain N (\<lambda>x. al_next (mirror_arr (ent s) x)) (al_last head) (rev xs)"
    using dlseg_chain_prev [OF seg] by simp
  from foreach_safe_loop_visits [of N "\<lambda>s. mirror_arr (ent s)", OF this, of body n] assms(2) d
  show ?thesis
    by (simp add: arr_list_foreach_reverse_safe_def arr_list_last_def dlseg_elem_end [OF seg]
        foreach_reverse_safe_loop_mirror)
qed

section \<open>The first-in first-out contract\<close>

text \<open>
  What a scheduler relies on when it keeps a run queue in an \<open>arr_list\<close>: elements enter
  at the tail, leave at the head, and can be unlinked from the middle.
\<close>

locale fifo_queue =
  fixes repr :: "'q \<Rightarrow> 'e list \<Rightarrow> bool"
    and ok :: "'e \<Rightarrow> bool"
    and null :: 'e
    and push :: "'e \<Rightarrow> 'q \<Rightarrow> 'q"
    and pop :: "'q \<Rightarrow> 'e \<times> 'q"
    and unlink :: "'e \<Rightarrow> 'q \<Rightarrow> 'q"
  assumes push_law: "repr q xs \<Longrightarrow> ok e \<Longrightarrow> e \<notin> set xs \<Longrightarrow> repr (push e q) (xs @ [e])"
    and pop_empty: "repr q [] \<Longrightarrow> pop q = (null, q)"
    and pop_law: "repr q (x # xs) \<Longrightarrow> fst (pop q) = x \<and> repr (snd (pop q)) xs"
    and unlink_law: "repr q (xs @ e # ys) \<Longrightarrow> repr (unlink e q) (xs @ ys)"
begin

lemma push_all:
  "repr q xs \<Longrightarrow> list_all ok es \<Longrightarrow> distinct (xs @ es) \<Longrightarrow> repr (fold push es q) (xs @ es)"
proof (induction es arbitrary: q xs)
  case (Cons e es)
  then have "repr (push e q) (xs @ [e])" by (intro push_law) auto
  from Cons.IH [OF this] Cons.prems show ?case by simp
qed simp

lemma pop_many: "repr q xs \<Longrightarrow> n \<le> length xs \<Longrightarrow> repr (((\<lambda>q. snd (pop q)) ^^ n) q) (drop n xs)"
proof (induction n arbitrary: q xs)
  case (Suc n)
  then obtain y ys where xs: "xs = y # ys" by (cases xs) auto
  then have "repr (snd (pop q)) ys" using Suc.prems pop_law by blast
  from Suc.IH [OF this] Suc.prems xs show ?case
    by (simp add: funpow_Suc_right del: funpow.simps)
qed simp

lemma pop_order:
  assumes "repr q xs" and "list_all ok es" and "distinct (xs @ es)" and "i < length es"
  shows "fst (pop (((\<lambda>q. snd (pop q)) ^^ (length xs + i)) (fold push es q))) = es ! i"
proof -
  have "repr (((\<lambda>q. snd (pop q)) ^^ (length xs + i)) (fold push es q)) (drop (length xs + i) (xs @ es))"
    using pop_many [OF push_all [OF assms(1-3)], of "length xs + i"] assms(4) by simp
  moreover have "drop (length xs + i) (xs @ es) = es ! i # drop (Suc i) es"
    using assms(4) by (simp add: Cons_nth_drop_Suc)
  ultimately show ?thesis using pop_law by metis
qed

lemma unlink_one: "repr q xs \<Longrightarrow> e \<in> set xs \<Longrightarrow> repr (unlink e q) (remove1 e xs)"
proof -
  assume r: "repr q xs" and "e \<in> set xs"
  then obtain ys zs where xs: "xs = ys @ e # zs" "e \<notin> set ys" by (meson split_list_first)
  then have "remove1 e xs = ys @ zs" by (simp add: remove1_append)
  with unlink_law [of q ys e zs] r xs show ?thesis by simp
qed

end

interpretation lq: fifo_queue "al_repr N" "al_valid N" 0
  "arr_list_insert_tail N" "arr_list_pop_first N" "arr_list_remove N" for N
  by unfold_locales
    (auto intro: insert_tail_repr pop_first_Nil pop_first_Cons remove_repr)

section \<open>Properties\<close>

text \<open>
  C21. The four insertions implement the sequence operations they are named after: on a
  well-formed list that represents \<open>zs\<close>, inserting a fresh element \<open>e\<close> at the head, at the
  tail, before a member or after a member gives a well-formed list with \<open>e\<close> at exactly
  that position and the other elements in their order.
\<close>

theorem arr_list_insert_refines:
  assumes "al_repr N s zs" and "al_valid N e" and "e \<notin> set zs"
  shows "al_repr N (arr_list_insert_head N e s) (e # zs)
    \<and> al_repr N (arr_list_insert_tail N e s) (zs @ [e])
    \<and> (\<forall>xs l ys. zs = xs @ l # ys \<longrightarrow>
         al_repr N (arr_list_insert_before N l e s) (xs @ e # l # ys)
       \<and> al_repr N (arr_list_insert_after N l e s) (xs @ l # e # ys))"
  using assms insert_head_repr insert_tail_repr insert_before_repr insert_after_repr by blast

text \<open>A two-element list in a three-element array, used by the witnesses.\<close>

definition ex_head :: arr_list where
  "ex_head = \<lparr>al_first = 1, al_last = 2\<rparr>"

definition ex_arr :: al_arr where
  "ex_arr = (\<lambda>_. \<lparr>al_next = 0, al_prev = 0\<rparr>)
     (1 := \<lparr>al_next = 2, al_prev = 0\<rparr>, 2 := \<lparr>al_next = 0, al_prev = 1\<rparr>)"

lemma ex_repr: "al_repr 3 (ex_head, ex_arr) [1, 2]"
  by (simp add: al_repr_def ex_head_def ex_arr_def al_valid_def)

theorem arr_list_insert_refines_witness:
  "al_repr 3 (arr_list_insert_before 3 2 3 (ex_head, ex_arr)) [1, 3, 2]"
proof -
  have "al_valid 3 3" by (simp add: al_valid_def)
  from arr_list_insert_refines [OF ex_repr this]
  have "\<forall>xs l ys. [1, 2] = xs @ l # ys \<longrightarrow>
      al_repr 3 (arr_list_insert_before 3 l 3 (ex_head, ex_arr)) (xs @ 3 # l # ys)"
    by simp
  from this [rule_format, of "[1]" 2 "[]"] show ?thesis by simp
qed

text \<open>
  C22. Removal: \<open>pop_first\<close> returns NULL and changes nothing on an empty list, and otherwise
  returns the first element and leaves the rest; \<open>remove\<close> unlinks the given member
  wherever it is, keeps the order of the others and clears the member's own links.
\<close>

theorem arr_list_remove_refines:
  assumes "al_repr N s zs"
  shows "(case zs of [] \<Rightarrow> arr_list_pop_first N s = (0, s)
          | x # xs \<Rightarrow> fst (arr_list_pop_first N s) = x
                   \<and> al_repr N (snd (arr_list_pop_first N s)) xs)
    \<and> (\<forall>xs e ys. zs = xs @ e # ys \<longrightarrow>
         al_repr N (arr_list_remove N e s) (xs @ ys)
       \<and> snd (arr_list_remove N e s) e = \<lparr>al_next = 0, al_prev = 0\<rparr>)"
proof -
  have "case zs of [] \<Rightarrow> arr_list_pop_first N s = (0, s)
      | x # xs \<Rightarrow> fst (arr_list_pop_first N s) = x \<and> al_repr N (snd (arr_list_pop_first N s)) xs"
    using assms by (cases zs) (simp_all add: pop_first_Nil pop_first_Cons)
  moreover have "al_repr N (arr_list_remove N e s) (xs @ ys)
      \<and> snd (arr_list_remove N e s) e = \<lparr>al_next = 0, al_prev = 0\<rparr>" if "zs = xs @ e # ys" for xs e ys
    using assms that remove_repr remove_clears by blast
  ultimately show ?thesis by blast
qed

theorem arr_list_remove_refines_witness:
  "fst (arr_list_pop_first 3 (ex_head, ex_arr)) = 1
    \<and> al_repr 3 (snd (arr_list_pop_first 3 (ex_head, ex_arr))) [2]
    \<and> al_repr 3 (arr_list_remove 3 2 (ex_head, ex_arr)) [1]"
proof -
  note t = arr_list_remove_refines [OF ex_repr]
  from t have "\<forall>xs e ys. [1, 2] = xs @ e # ys \<longrightarrow> al_repr 3 (arr_list_remove 3 e (ex_head, ex_arr)) (xs @ ys)"
    by simp
  from this [rule_format, of "[1]" 2 "[]"] t show ?thesis by simp
qed

text \<open>
  C23. The bounded iterators visit the list in order (in reverse order for the reverse
  variants), once per element, up to \<open>max\<close> elements, and leave the loop variable NULL
  exactly when they were not stopped short; the \<open>_safe\<close> variants do so even when the body
  unlinks the current element, that is when it may change any link but the forward
  (backward) links of the other members.
\<close>

theorem arr_list_foreach_visits:
  fixes ent :: "'s \<Rightarrow> al_arr" and s :: 's
  assumes "al_repr N (head, ent s) xs"
  shows "((\<forall>x y s. x \<in> set xs \<and> y \<in> set xs \<longrightarrow> ent (body x s) y = ent s y) \<longrightarrow>
       arr_list_foreach N head ent body mx s
         = (if mx < length xs then xs ! mx else 0, fold body (take mx xs) s)
     \<and> arr_list_foreach_reverse N head ent body mx s
         = (if mx < length xs then rev xs ! mx else 0, fold body (take mx (rev xs)) s))
    \<and> ((\<forall>x y s. x \<in> set xs \<and> y \<in> set xs \<and> y \<noteq> x \<longrightarrow> al_next (ent (body x s) y) = al_next (ent s y)) \<longrightarrow>
       arr_list_foreach_safe N head ent body mx s
         = (if mx < length xs then xs ! mx else 0, fold body (take mx xs) s))
    \<and> ((\<forall>x y s. x \<in> set xs \<and> y \<in> set xs \<and> y \<noteq> x \<longrightarrow> al_prev (ent (body x s) y) = al_prev (ent s y)) \<longrightarrow>
       arr_list_foreach_reverse_safe N head ent body mx s
         = (if mx < length xs then rev xs ! mx else 0, fold body (take mx (rev xs)) s))"
proof (intro conjI impI)
  assume "\<forall>x y s. x \<in> set xs \<and> y \<in> set xs \<longrightarrow> ent (body x s) y = ent s y"
  then show "arr_list_foreach N head ent body mx s
         = (if mx < length xs then xs ! mx else 0, fold body (take mx xs) s)"
    and "arr_list_foreach_reverse N head ent body mx s
         = (if mx < length xs then rev xs ! mx else 0, fold body (take mx (rev xs)) s)"
    using foreach_visits [of N head ent s xs body mx] assms by auto
next
  assume "\<forall>x y s. x \<in> set xs \<and> y \<in> set xs \<and> y \<noteq> x \<longrightarrow> al_next (ent (body x s) y) = al_next (ent s y)"
  then show "arr_list_foreach_safe N head ent body mx s
         = (if mx < length xs then xs ! mx else 0, fold body (take mx xs) s)"
    by (intro foreach_safe_visits [where ent = ent, OF assms]) auto
next
  assume "\<forall>x y s. x \<in> set xs \<and> y \<in> set xs \<and> y \<noteq> x \<longrightarrow> al_prev (ent (body x s) y) = al_prev (ent s y)"
  then show "arr_list_foreach_reverse_safe N head ent body mx s
         = (if mx < length xs then rev xs ! mx else 0, fold body (take mx (rev xs)) s)"
    by (intro foreach_reverse_safe_visits [where ent = ent, OF assms]) auto
qed

theorem arr_list_foreach_visits_witness:
  "arr_list_foreach 3 ex_head fst (\<lambda>x (arr, seen). (arr, seen @ [x])) 5 (ex_arr, []) = (0, (ex_arr, [1, 2]))"
proof -
  have "al_repr 3 (ex_head, fst (ex_arr, [] :: u32 list)) [1, 2]" using ex_repr by simp
  from arr_list_foreach_visits [where ent = fst, OF this, of "\<lambda>x (arr, seen). (arr, seen @ [x])" 5]
  show ?thesis by (auto simp: split_def)
qed

text \<open>
  C24. Concatenation of two disjoint lists, the second of them non-empty, gives one
  well-formed list with the elements of the first followed by those of the second, and
  empties the second head.
\<close>

theorem arr_list_concat_refines:
  assumes "al_repr N (head1, arr) xs" and "al_repr N (head2, arr) ys"
    and "set xs \<inter> set ys = {}" and "ys \<noteq> []"
    and "arr_list_concat N (head1, head2, arr) = (head1', head2', arr')"
  shows "al_repr N (head1', arr') (xs @ ys) \<and> al_repr N (head2', arr') []"
  using concat_repr [OF assms] by blast

theorem arr_list_concat_refines_witness:
  "al_repr 3 (\<lparr>al_first = 3, al_last = 2\<rparr>,
     ex_arr(3 := \<lparr>al_next = 1, al_prev = 0\<rparr>, 1 := \<lparr>al_next = 2, al_prev = 3\<rparr>)) [3, 1, 2]"
proof -
  have "al_repr 3 (\<lparr>al_first = 3, al_last = 3\<rparr>, ex_arr) [3]"
    by (simp add: al_repr_def ex_arr_def al_valid_def)
  from arr_list_concat_refines [OF this ex_repr, of "\<lparr>al_first = 3, al_last = 2\<rparr>"
      "\<lparr>al_first = 0, al_last = 0\<rparr>"]
  show ?thesis
    by (simp add: arr_list_concat_def Let_def when_ptr_def arr_list_last_def arr_list_first_def
        al_elem_def ex_head_def arr_list_empty_def arr_list_init_def set_next_def set_prev_def ex_arr_def)
qed

text \<open>
  C25. Concatenating an empty list onto a non-empty one corrupts the list: the tail of the
  result is 0, so the result represents no sequence at all, and an element inserted at
  the tail afterwards is not linked: a forward traversal of any length still visits only
  the old elements.  (A TAILQ concatenation skips an empty second list; this one does not.)
\<close>

theorem arr_list_concat_empty_right_corrupts:
  assumes "al_repr N (head1, arr) xs" and "xs \<noteq> []" and "al_repr N (head2, arr) []"
    and "arr_list_concat N (head1, head2, arr) = (head1', head2', arr')"
    and "e \<notin> set xs" and "arr_list_insert_tail N e (head1', arr') = (head3, arr3)"
  shows "al_last head1' = 0 \<and> (\<nexists>zs. al_repr N (head1', arr') zs)
    \<and> snd (arr_list_foreach N head3 (\<lambda>_. arr3) (\<lambda>x seen. seen @ [x]) mx []) = take mx xs"
proof -
  have z: "al_first head2 = 0" "al_last head2 = 0" using assms(3) by simp_all
  have seg: "dlseg N arr 0 (al_first head1) xs 0 (al_last head1)" "distinct xs"
    using assms(1) by (auto simp: al_repr_def)
  have ne: "\<not> arr_list_empty head1" using al_repr_empty_iff [OF assms(1)] assms(2) by simp
  let ?arr1 = "when_ptr (al_last head1) (set_next (al_last head1) 0) arr"
  have r: "head1' = head1\<lparr>al_last := 0\<rparr>" "arr' = ?arr1"
    using assms(4) z ne dlseg_elem_end [OF seg(1)]
    by (auto simp: arr_list_concat_def Let_def arr_list_first_def arr_list_last_def when_ptr_def)
  have s1: "dlseg N arr' 0 (al_first head1) xs 0 (al_last head1)"
    using relink_next [OF seg, of 0] assms(2) r by simp
  have no: "\<nexists>zs. al_repr N (head1', arr') zs"
  proof
    assume "\<exists>zs. al_repr N (head1', arr') zs"
    then obtain zs where zs: "dlseg N arr' 0 (al_first head1) zs 0 0"
      using r by (auto simp: al_repr_def)
    then have "zs = []"
      using dlseg_end [OF zs] dlseg_valid [OF zs, of 0] last_in_set [of zs]
      by (metis not_al_valid_0)
    then show False using zs ne by (simp add: arr_list_empty_def)
  qed
  have t: "head3 = head1'\<lparr>al_last := e\<rparr>" "arr3 = set_next e 0 (set_prev e 0 arr')"
    using assms(6) ne r by (auto simp: arr_list_insert_tail_def Let_def arr_list_empty_def
        arr_list_last_def when_ptr_def)
  have "dlseg N arr3 0 (al_first head1) xs 0 (al_last head1)"
    using s1 assms(5) t by simp
  from dlseg_chain_next [OF this] dlseg_elem_start [OF this]
  have c: "chain N (\<lambda>x. al_next (arr3 x)) (al_elem N (al_first head3)) xs" using t r by simp
  have "snd (arr_list_foreach N head3 (\<lambda>_. arr3) (\<lambda>x seen. seen @ [x]) mx []) =
      fold (\<lambda>x seen. seen @ [x]) (take mx xs) []"
    unfolding arr_list_foreach_def arr_list_first_def
    by (subst foreach_loop_visits [where ent = "\<lambda>_. arr3", OF c]) auto
  also have "\<dots> = take mx xs"
    using fold_append_snoc [of "take mx xs" "[]"] by simp
  finally show ?thesis using no r by simp
qed

theorem arr_list_concat_empty_right_corrupts_witness:
  "snd (arr_list_foreach 3 \<lparr>al_first = 1, al_last = 3\<rparr>
     (\<lambda>_. ex_arr(2 := \<lparr>al_next = 0, al_prev = 1\<rparr>, 3 := \<lparr>al_next = 0, al_prev = 0\<rparr>))
     (\<lambda>x seen. seen @ [x]) 5 []) = [1, 2]"
proof -
  let ?h = "\<lparr>al_first = 0, al_last = 0\<rparr>" and ?h1 = "\<lparr>al_first = 1, al_last = 0\<rparr>"
  have "arr_list_concat 3 (ex_head, ?h, ex_arr) = (?h1, ?h, ex_arr(2 := \<lparr>al_next = 0, al_prev = 1\<rparr>))"
    by (simp add: arr_list_concat_def Let_def when_ptr_def arr_list_last_def arr_list_first_def
        al_elem_def ex_head_def arr_list_empty_def arr_list_init_def set_next_def set_prev_def ex_arr_def)
  from arr_list_concat_empty_right_corrupts [OF ex_repr _ _ this, of 3 _ _ 5]
  show ?thesis
    by (simp add: arr_list_insert_tail_def Let_def arr_list_empty_def arr_list_last_def when_ptr_def
        set_next_def set_prev_def ex_arr_def)
qed

end
