(* ===== verification/Avl_Tree.thy ===== *)
theory Avl_Tree
  imports Arr_Structs
begin

text \<open>
  The array-backed AVL tree of \<open>lib/avl.bpf.h\<close>.  Nodes live in one array and are linked
  by ids; node pointers are represented by ids with 0 for NULL (the bijection is proved in
  \<open>Arr_Structs\<close>), and a dereference \<open>x->f\<close> reads the record of node \<open>x\<close>.  Every function
  of the header is a definition here; the two retrace loops, the two walks down and the
  two walks up are bounded by \<open>MAX_AVL_HEIGHT\<close> as in the code.  The model is the build
  with \<open>AVL_CACHING\<close>, which is the default.
\<close>

section \<open>Data\<close>

record avl_tree =
  root :: u32
  min_id :: u32
  min_key :: u64
  max_id :: u32
  max_key :: u64
  first_orphan_id :: u32

record avl_node =
  key :: u64
  left_id :: u32
  right_id :: u32
  parent_id :: u32
  balance :: int
  is_orphan :: bool
  prev_orphan_id :: u32
  next_orphan_id :: u32

type_synonym avl_nodes = "u32 \<Rightarrow> avl_node"
type_synonym avl_state = "avl_tree \<times> avl_nodes"

definition MAX_AVL_HEIGHT :: nat where
  "MAX_AVL_HEIGHT = 23"

definition avl_tree_init :: "avl_tree \<Rightarrow> avl_tree" where
  "avl_tree_init t = t\<lparr>root := 0, first_orphan_id := 0,
     min_id := 0, min_key := 0, max_id := 0, max_key := 0\<rparr>"

text \<open>\<open>__avl_id_to_node\<close> on ids: NULL for 0 and for an id that fails the bound check.\<close>

definition avl_id_to_node :: "nat \<Rightarrow> u32 \<Rightarrow> u32" where
  "avl_id_to_node N i = (if i = 0 then 0 else if N - 1 \<le> unat (i - 1) then 0 else i)"

lemma avl_id_to_node_bytes:
  assumes "arr_layout arr e arr_sz" and "e < 2 ^ 32" and "f < e" and "arr_sz \<noteq> 0"
  shows "avl_id_to_node (unat arr_sz) i =
    avl_node_ptr_to_id arr (el_off e f) (avl_id_to_node_ptr arr arr_sz (el_off e f) i)"
proof (cases "i \<noteq> 0 \<and> unat i < unat arr_sz")
  case True
  then have "unat (i - 1) < unat arr_sz - 1"
    using unat_minus_one [of i] unat_gt_0 [of i] by linarith
  then show ?thesis
    using True avl_node_ptr_to_id_ptr [OF assms(1-3), of i] by (simp add: avl_id_to_node_def)
next
  case False
  then have "avl_id_to_node (unat arr_sz) i = 0"
    using unat_minus_one [of i] by (auto simp: avl_id_to_node_def)
  with False show ?thesis
    by (auto simp: avl_id_to_node_ptr_eq [OF assms] avl_node_ptr_to_id_def)
qed

section \<open>Field stores\<close>

definition set_left :: "u32 \<Rightarrow> u32 \<Rightarrow> avl_nodes \<Rightarrow> avl_nodes" where
  "set_left x v h = h(x := (h x)\<lparr>left_id := v\<rparr>)"

definition set_right :: "u32 \<Rightarrow> u32 \<Rightarrow> avl_nodes \<Rightarrow> avl_nodes" where
  "set_right x v h = h(x := (h x)\<lparr>right_id := v\<rparr>)"

definition set_parent :: "u32 \<Rightarrow> u32 \<Rightarrow> avl_nodes \<Rightarrow> avl_nodes" where
  "set_parent x v h = h(x := (h x)\<lparr>parent_id := v\<rparr>)"

definition set_balance :: "u32 \<Rightarrow> int \<Rightarrow> avl_nodes \<Rightarrow> avl_nodes" where
  "set_balance x v h = h(x := (h x)\<lparr>balance := v\<rparr>)"

definition set_is_orphan :: "u32 \<Rightarrow> bool \<Rightarrow> avl_nodes \<Rightarrow> avl_nodes" where
  "set_is_orphan x v h = h(x := (h x)\<lparr>is_orphan := v\<rparr>)"

definition set_prev_orphan :: "u32 \<Rightarrow> u32 \<Rightarrow> avl_nodes \<Rightarrow> avl_nodes" where
  "set_prev_orphan x v h = h(x := (h x)\<lparr>prev_orphan_id := v\<rparr>)"

definition set_next_orphan :: "u32 \<Rightarrow> u32 \<Rightarrow> avl_nodes \<Rightarrow> avl_nodes" where
  "set_next_orphan x v h = h(x := (h x)\<lparr>next_orphan_id := v\<rparr>)"

section \<open>The orphan list\<close>

definition insert_orphan :: "nat \<Rightarrow> u32 \<Rightarrow> avl_state \<Rightarrow> avl_state" where
  "insert_orphan N node = (\<lambda>(t, h).
     let next_id = first_orphan_id t;
         nxt = avl_id_to_node N next_id;
         t = t\<lparr>first_orphan_id := node\<rparr>;
         h = (if nxt \<noteq> 0 then set_prev_orphan nxt node h else h);
         h = set_next_orphan node next_id h;
         h = set_prev_orphan node 0 h
     in (t, h))"

definition remove_orphan :: "nat \<Rightarrow> u32 \<Rightarrow> avl_state \<Rightarrow> avl_state" where
  "remove_orphan N node = (\<lambda>(t, h).
     let prev_id = prev_orphan_id (h node);
         prev = avl_id_to_node N prev_id;
         next_id = next_orphan_id (h node);
         nxt = avl_id_to_node N next_id;
         t = (if first_orphan_id t = node then t\<lparr>first_orphan_id := next_id\<rparr> else t);
         h = (if prev \<noteq> 0 then set_next_orphan prev next_id h else h);
         h = (if nxt \<noteq> 0 then set_prev_orphan nxt prev_id h else h);
         h = set_next_orphan node 0 h;
         h = set_prev_orphan node 0 h
     in (t, h))"

definition pop_first_orphan :: "nat \<Rightarrow> avl_state \<Rightarrow> u32 \<times> avl_state" where
  "pop_first_orphan N = (\<lambda>(t, h).
     let first = avl_id_to_node N (first_orphan_id t)
     in if first = 0 then (0, (t, h))
        else let next_id = next_orphan_id (h first);
                 nxt = avl_id_to_node N next_id;
                 t = t\<lparr>first_orphan_id := next_id\<rparr>;
                 h = (if nxt \<noteq> 0 then set_prev_orphan nxt 0 h else h);
                 h = set_next_orphan first 0 h;
                 h = set_prev_orphan first 0 h
             in (first, (t, h)))"

section \<open>Searching and walking\<close>

fun avl_lookup_loop :: "nat \<Rightarrow> avl_nodes \<Rightarrow> u64 \<Rightarrow> nat \<Rightarrow> u32 \<Rightarrow> u32" where
  "avl_lookup_loop N h k 0 x = 0"
| "avl_lookup_loop N h k (Suc n) x =
     (if x = 0 then 0
      else if key (h x) = k then x
      else if k < key (h x) then avl_lookup_loop N h k n (avl_id_to_node N (left_id (h x)))
      else avl_lookup_loop N h k n (avl_id_to_node N (right_id (h x))))"

definition avl_tree_lookup :: "nat \<Rightarrow> avl_state \<Rightarrow> u64 \<Rightarrow> u32" where
  "avl_tree_lookup N = (\<lambda>(t, h) k. avl_lookup_loop N h k MAX_AVL_HEIGHT (avl_id_to_node N (root t)))"

fun avl_min_loop :: "nat \<Rightarrow> avl_nodes \<Rightarrow> nat \<Rightarrow> u32 \<Rightarrow> u32" where
  "avl_min_loop N h 0 x = 0"
| "avl_min_loop N h (Suc n) x =
     (if x = 0 then 0
      else if left_id (h x) = 0 then x
      else avl_min_loop N h n (avl_id_to_node N (left_id (h x))))"

definition avl_min_node :: "nat \<Rightarrow> avl_nodes \<Rightarrow> u32 \<Rightarrow> u32" where
  "avl_min_node N h x = avl_min_loop N h MAX_AVL_HEIGHT x"

definition avl_min_node_id :: "nat \<Rightarrow> avl_nodes \<Rightarrow> u32 \<Rightarrow> u32" where
  "avl_min_node_id N h i = avl_min_node N h (avl_id_to_node N i)"

definition avl_tree_min :: "nat \<Rightarrow> avl_state \<Rightarrow> u32" where
  "avl_tree_min N = (\<lambda>(t, h). avl_id_to_node N (min_id t))"

fun avl_max_loop :: "nat \<Rightarrow> avl_nodes \<Rightarrow> nat \<Rightarrow> u32 \<Rightarrow> u32" where
  "avl_max_loop N h 0 x = 0"
| "avl_max_loop N h (Suc n) x =
     (if x = 0 then 0
      else if right_id (h x) = 0 then x
      else avl_max_loop N h n (avl_id_to_node N (right_id (h x))))"

definition avl_max_node :: "nat \<Rightarrow> avl_nodes \<Rightarrow> u32 \<Rightarrow> u32" where
  "avl_max_node N h x = avl_max_loop N h MAX_AVL_HEIGHT x"

definition avl_max_node_id :: "nat \<Rightarrow> avl_nodes \<Rightarrow> u32 \<Rightarrow> u32" where
  "avl_max_node_id N h i = avl_max_node N h (avl_id_to_node N i)"

definition avl_tree_max :: "nat \<Rightarrow> avl_state \<Rightarrow> u32" where
  "avl_tree_max N = (\<lambda>(t, h). avl_id_to_node N (max_id t))"

fun avl_next_up :: "nat \<Rightarrow> avl_nodes \<Rightarrow> nat \<Rightarrow> u32 \<Rightarrow> u32 \<Rightarrow> u32" where
  "avl_next_up N h 0 x x_id = 0"
| "avl_next_up N h (Suc n) x x_id =
     (let parent = avl_id_to_node N (parent_id (h x))
      in if parent = 0 then 0
         else if x_id = left_id (h parent) then parent
         else avl_next_up N h n parent (parent_id (h x)))"

definition avl_next_node :: "nat \<Rightarrow> avl_nodes \<Rightarrow> u32 \<Rightarrow> u32" where
  "avl_next_node N h x =
     (if x = 0 then 0
      else if right_id (h x) \<noteq> 0 then avl_min_node_id N h (right_id (h x))
      else avl_next_up N h MAX_AVL_HEIGHT x x)"

fun avl_prev_up :: "nat \<Rightarrow> avl_nodes \<Rightarrow> nat \<Rightarrow> u32 \<Rightarrow> u32 \<Rightarrow> u32" where
  "avl_prev_up N h 0 x x_id = 0"
| "avl_prev_up N h (Suc n) x x_id =
     (let parent = avl_id_to_node N (parent_id (h x))
      in if parent = 0 then 0
         else if x_id = right_id (h parent) then parent
         else avl_prev_up N h n parent (parent_id (h x)))"

definition avl_prev_node :: "nat \<Rightarrow> avl_nodes \<Rightarrow> u32 \<Rightarrow> u32" where
  "avl_prev_node N h x =
     (if x = 0 then 0
      else if left_id (h x) \<noteq> 0 then avl_max_node_id N h (left_id (h x))
      else avl_prev_up N h MAX_AVL_HEIGHT x x)"

section \<open>Rotations\<close>

text \<open>Each returns the new subtree root; the caller links it to the parent of \<open>x\<close>.\<close>

definition avl_rotate_left :: "nat \<Rightarrow> u32 \<Rightarrow> u32 \<Rightarrow> avl_nodes \<Rightarrow> u32 \<times> avl_nodes" where
  "avl_rotate_left N x z h =
     (let t23_id = left_id (h z);
          t23 = avl_id_to_node N t23_id;
          h = set_right x t23_id h;
          h = (if t23 \<noteq> 0 then set_parent t23 x h else h);
          h = set_left z x h;
          h = set_parent x z h
      in if balance (h z) = 0
         then (z, set_balance z (-1) (set_balance x 1 h))
         else (z, set_balance z 0 (set_balance x 0 h)))"

definition avl_rotate_right :: "nat \<Rightarrow> u32 \<Rightarrow> u32 \<Rightarrow> avl_nodes \<Rightarrow> u32 \<times> avl_nodes" where
  "avl_rotate_right N x z h =
     (let t23_id = right_id (h z);
          t23 = avl_id_to_node N t23_id;
          h = set_left x t23_id h;
          h = (if t23 \<noteq> 0 then set_parent t23 x h else h);
          h = set_right z x h;
          h = set_parent x z h
      in if balance (h z) = 0
         then (z, set_balance z 1 (set_balance x (-1) h))
         else (z, set_balance z 0 (set_balance x 0 h)))"

definition avl_rotate_right_left :: "nat \<Rightarrow> u32 \<Rightarrow> u32 \<Rightarrow> avl_nodes \<Rightarrow> u32 \<times> avl_nodes" where
  "avl_rotate_right_left N x z h =
     (let y_id = left_id (h z); y = avl_id_to_node N y_id
      in if y = 0 then (x, h)
      else let t2_id = left_id (h y);
          t3_id = right_id (h y);
          t2 = avl_id_to_node N t2_id;
          t3 = avl_id_to_node N t3_id;
          h = set_left y x h;
          h = set_parent x y_id h;
          h = set_right x t2_id h;
          h = (if t2 \<noteq> 0 then set_parent t2 x h else h);
          h = set_right y z h;
          h = set_parent z y_id h;
          h = set_left z t3_id h;
          h = (if t3 \<noteq> 0 then set_parent t3 z h else h)
      in if balance (h y) = 0
         then (y, set_balance z 0 (set_balance y 0 (set_balance x 0 h)))
         else if balance (h y) > 0
         then (y, set_balance z 0 (set_balance y 0 (set_balance x (-1) h)))
         else (y, set_balance z 1 (set_balance y 0 (set_balance x 0 h))))"

definition avl_rotate_left_right :: "nat \<Rightarrow> u32 \<Rightarrow> u32 \<Rightarrow> avl_nodes \<Rightarrow> u32 \<times> avl_nodes" where
  "avl_rotate_left_right N x z h =
     (let y_id = right_id (h z); y = avl_id_to_node N y_id
      in if y = 0 then (x, h)
      else let t2_id = left_id (h y);
          t3_id = right_id (h y);
          t2 = avl_id_to_node N t2_id;
          t3 = avl_id_to_node N t3_id;
          h = set_left y z h;
          h = set_parent z y_id h;
          h = set_right z t2_id h;
          h = (if t2 \<noteq> 0 then set_parent t2 z h else h);
          h = set_right y x h;
          h = set_parent x y_id h;
          h = set_left x t3_id h;
          h = (if t3 \<noteq> 0 then set_parent t3 x h else h)
      in if balance (h y) = 0
         then (y, set_balance z 0 (set_balance y 0 (set_balance x 0 h)))
         else if balance (h y) > 0
         then (y, set_balance z (-1) (set_balance y 0 (set_balance x 0 h)))
         else (y, set_balance z 0 (set_balance y 0 (set_balance x 1 h))))"

text \<open>
  Linking a rotated subtree \<open>str\<close> below \<open>x_parent\<close>, where \<open>x\<close> was its root before: the
  common tail of the two retrace loops.  The flag tells whether \<open>x\<close> was a left child.
\<close>

definition avl_link_str :: "u32 \<Rightarrow> u32 \<Rightarrow> u32 \<Rightarrow> u32 \<Rightarrow> avl_state \<Rightarrow> avl_state \<times> bool" where
  "avl_link_str x_parent_id x_parent x_id str = (\<lambda>(t, h).
     let h = set_parent str x_parent_id h
     in if x_parent = 0 then ((t\<lparr>root := str\<rparr>, h), False)
        else if left_id (h x_parent) = x_id then ((t, set_left x_parent str h), True)
        else ((t, set_right x_parent str h), False))"

section \<open>Insertion\<close>

text \<open>The walk down to the future parent; the result is \<open>(next_id, x, x_id, left)\<close>.\<close>

fun avl_insert_descend ::
  "nat \<Rightarrow> avl_nodes \<Rightarrow> u64 \<Rightarrow> nat \<Rightarrow> u32 \<times> u32 \<times> u32 \<times> bool \<Rightarrow> u32 \<times> u32 \<times> u32 \<times> bool" where
  "avl_insert_descend N h k 0 s = s"
| "avl_insert_descend N h k (Suc n) (next_id, x, x_id, left) =
     (if next_id = 0 then (next_id, x, x_id, left)
      else let x_id = next_id; x = avl_id_to_node N x_id
      in if x = 0 then (next_id, x, x_id, left)
         else if k < key (h x)
         then avl_insert_descend N h k n (left_id (h x), x, x_id, True)
         else avl_insert_descend N h k n (right_id (h x), x, x_id, False))"

fun avl_insert_retrace :: "nat \<Rightarrow> nat \<Rightarrow> u32 \<Rightarrow> u32 \<Rightarrow> u32 \<Rightarrow> u32 \<Rightarrow> avl_state \<Rightarrow> avl_state" where
  "avl_insert_retrace N 0 x x_id z z_id s = s"
| "avl_insert_retrace N (Suc n) x x_id z z_id (t, h) =
     (if x = 0 then (t, h)
      else let left = (left_id (h x) = z_id)
      in if balance (h x) = 0
         then let h = set_balance x (if left then -1 else 1) h
              in avl_insert_retrace N n (avl_id_to_node N (parent_id (h x))) (parent_id (h x)) x x_id (t, h)
         else if (left \<and> balance (h x) > 0) \<or> (\<not> left \<and> balance (h x) < 0)
         then (t, set_balance x 0 h)
         else let x_parent_id = parent_id (h x);
                  x_parent = avl_id_to_node N x_parent_id;
                  (str, h) =
                    (if left
                     then (if balance (h z) \<le> 0 then avl_rotate_right N x z h
                           else avl_rotate_left_right N x z h)
                     else (if balance (h z) \<ge> 0 then avl_rotate_left N x z h
                           else avl_rotate_right_left N x z h))
              in fst (avl_link_str x_parent_id x_parent x_id str (t, h)))"

definition avl_insert_cache :: "u32 \<Rightarrow> avl_state \<Rightarrow> avl_state" where
  "avl_insert_cache node = (\<lambda>(t, h).
     let t = (if min_id t = 0 \<or> key (h node) < min_key t
              then t\<lparr>min_id := node, min_key := key (h node)\<rparr> else t);
         t = (if max_id t = 0 \<or> key (h node) \<ge> max_key t
              then t\<lparr>max_id := node, max_key := key (h node)\<rparr> else t)
     in (t, h))"

definition avl_tree_insert :: "nat \<Rightarrow> u32 \<Rightarrow> avl_state \<Rightarrow> avl_state" where
  "avl_tree_insert N node = (\<lambda>(t, h).
     let h = set_balance node 0 (set_right node 0 (set_left node 0 h));
         h = set_is_orphan node False h;
         (next_id, x, x_id, left) =
           avl_insert_descend N h (key (h node)) (MAX_AVL_HEIGHT - 1) (root t, 0, 0, False)
     in if next_id \<noteq> 0
        then insert_orphan N node (t, set_is_orphan node True h)
        else let h = set_parent node x_id h
        in if x = 0
           then (t\<lparr>root := node, min_id := node, min_key := key (h node),
                   max_id := node, max_key := key (h node)\<rparr>, h)
           else let h = (if left then set_left x node h else set_right x node h)
                in avl_insert_cache node
                     (avl_insert_retrace N MAX_AVL_HEIGHT x x_id node node (t, h)))"

section \<open>Deletion\<close>

definition avl_replace_node :: "nat \<Rightarrow> u32 \<Rightarrow> u32 \<Rightarrow> avl_state \<Rightarrow> avl_state" where
  "avl_replace_node N x with_id = (\<lambda>(t, h).
     let x_was_root = (parent_id (h x) = 0);
         x_parent = avl_id_to_node N (parent_id (h x));
         h = (if x_parent \<noteq> 0
              then (if left_id (h x_parent) = x then set_left x_parent with_id h
                    else set_right x_parent with_id h)
              else h);
         wth = avl_id_to_node N with_id;
         h = (if wth \<noteq> 0 then set_parent wth (parent_id (h x)) h else h)
     in (if x_was_root then t\<lparr>root := with_id\<rparr> else t, h))"

definition avl_delete_cache :: "nat \<Rightarrow> u32 \<Rightarrow> avl_state \<Rightarrow> avl_tree" where
  "avl_delete_cache N node = (\<lambda>(t, h).
     let t = (if node = min_id t
              then let nxt = avl_next_node N h node; t = t\<lparr>min_id := nxt\<rparr>
                   in (if nxt \<noteq> 0 then t\<lparr>min_key := key (h nxt)\<rparr> else t)
              else t)
     in if node = max_id t
        then let prev = avl_prev_node N h node; t = t\<lparr>max_id := prev\<rparr>
             in (if prev \<noteq> 0 then t\<lparr>max_key := key (h prev)\<rparr> else t)
        else t)"

text \<open>
  The part of \<open>avl_tree_delete\<close> that takes \<open>node\<close> out of the tree.  The result is
  \<open>None\<close> with the state at that point where the code returns early, and otherwise the
  node \<open>x\<close> (with its id) where the retrace starts and the side the height was lost on.
\<close>

definition avl_delete_splice ::
  "nat \<Rightarrow> u32 \<Rightarrow> avl_state \<Rightarrow> (u32 \<times> u32 \<times> bool) option \<times> avl_state" where
  "avl_delete_splice N node = (\<lambda>(t, h).
     let x_id = parent_id (h node);
         x = avl_id_to_node N x_id;
         from_the_left = (x \<noteq> 0 \<and> left_id (h x) = node)
     in if left_id (h node) = 0
        then (Some (x, x_id, from_the_left), avl_replace_node N node (right_id (h node)) (t, h))
        else if right_id (h node) = 0
        then (Some (x, x_id, from_the_left), avl_replace_node N node (left_id (h node)) (t, h))
        else let nxt = avl_next_node N h node
        in if nxt = 0 then (None, (t, h))
        else let h = set_balance nxt (balance (h node)) h;
                 finish = (\<lambda>r (t, h).
                   let (t, h) = avl_replace_node N node nxt (t, h);
                       h = set_left nxt (left_id (h node)) h;
                       node_left = avl_id_to_node N (left_id (h node))
                   in if node_left = 0 then (None, (t, h))
                      else (Some r, (t, set_parent node_left nxt h)))
        in if parent_id (h nxt) \<noteq> node
           then let x_id = parent_id (h nxt);
                    x = avl_id_to_node N x_id
                in if x = 0 then (None, (t, h))
                else let from_the_left = (left_id (h x) = nxt);
                         (t, h) = avl_replace_node N nxt (right_id (h nxt)) (t, h);
                         h = set_right nxt (right_id (h node)) h;
                         node_right = avl_id_to_node N (right_id (h node))
                in if node_right = 0 then (None, (t, h))
                else finish (x, x_id, from_the_left) (t, set_parent node_right nxt h)
           else finish (nxt, nxt, False) (t, h))"

text \<open>The flag is False where the code returns because a child it needs is missing.\<close>

fun avl_delete_retrace :: "nat \<Rightarrow> nat \<Rightarrow> u32 \<Rightarrow> u32 \<Rightarrow> bool \<Rightarrow> avl_state \<Rightarrow> avl_state \<times> bool" where
  "avl_delete_retrace N 0 x x_id from_the_left s = (s, True)"
| "avl_delete_retrace N (Suc n) x x_id from_the_left (t, h) =
     (if x = 0 then ((t, h), True)
      else if balance (h x) = 0
      then ((t, set_balance x (if from_the_left then 1 else -1) h), True)
      else let x_parent_id = parent_id (h x);
               x_parent = avl_id_to_node N x_parent_id
      in if (from_the_left \<and> balance (h x) < 0) \<or> (\<not> from_the_left \<and> balance (h x) > 0)
         then let h = set_balance x 0 h
              in if x_parent = 0 then ((t, h), True)
                 else avl_delete_retrace N n x_parent x_parent_id
                        (left_id (h x_parent) = x_id) (t, h)
         else let z = avl_id_to_node N (if from_the_left then right_id (h x) else left_id (h x))
         in if z = 0 then ((t, h), False)
         else let absorbed = (balance (h z) = 0);
                  (str, h) =
                    (if from_the_left
                     then (if balance (h z) \<ge> 0 then avl_rotate_left N x z h
                           else avl_rotate_right_left N x z h)
                     else (if balance (h z) \<le> 0 then avl_rotate_right N x z h
                           else avl_rotate_left_right N x z h));
                  ((t, h), from_the_left) = avl_link_str x_parent_id x_parent x_id str (t, h)
         in if x_parent = 0 then ((t, h), True)
            else if absorbed then ((t, h), True)
            else avl_delete_retrace N n x_parent x_parent_id from_the_left (t, h))"

definition avl_tree_delete :: "nat \<Rightarrow> u32 \<Rightarrow> avl_state \<Rightarrow> avl_state" where
  "avl_tree_delete N node = (\<lambda>(t, h).
     if is_orphan (h node)
     then let (t, h) = remove_orphan N node (t, h) in (t, set_is_orphan node False h)
     else let t = avl_delete_cache N node (t, h)
     in case avl_delete_splice N node (t, h) of
          (None, s) \<Rightarrow> s
        | (Some (x, x_id, from_the_left), s) \<Rightarrow>
            (case avl_delete_retrace N MAX_AVL_HEIGHT x x_id from_the_left s of
               (s, ok) \<Rightarrow>
                 if \<not> ok then s
                 else let (o', s) = pop_first_orphan N s
                      in if o' \<noteq> 0 then avl_tree_insert N o' s else s))"

definition avl_tree_pop_min :: "nat \<Rightarrow> avl_state \<Rightarrow> u32 \<times> avl_state" where
  "avl_tree_pop_min N s =
     (let mn = avl_tree_min N s in (mn, if mn \<noteq> 0 then avl_tree_delete N mn s else s))"

definition avl_tree_pop_max :: "nat \<Rightarrow> avl_state \<Rightarrow> u32 \<times> avl_state" where
  "avl_tree_pop_max N s =
     (let mx = avl_tree_max N s in (mx, if mx \<noteq> 0 then avl_tree_delete N mx s else s))"

end
