(* ===== verification/Avl_Repr.thy ===== *)
theory Avl_Repr
  imports Avl_Tree "HOL-Library.Tree"
begin

text \<open>
  The abstraction of a node array to binary trees of node ids.  \<open>tree_at\<close> relates the links
  below an id to a tree, \<open>ctx_at\<close> relates the links above a position to a path of frames
  (a zipper), \<open>bal_ok\<close> and \<open>ctx_bal\<close> say that the stored balance factors are the height
  differences.  The rotations and the relinking step that both retrace loops share are
  characterised here.
\<close>

section \<open>Field reads after field stores\<close>

lemma set_left_fields [simp]:
  "key (set_left x v h y) = key (h y)"
  "left_id (set_left x v h y) = (if y = x then v else left_id (h y))"
  "right_id (set_left x v h y) = right_id (h y)"
  "parent_id (set_left x v h y) = parent_id (h y)"
  "balance (set_left x v h y) = balance (h y)"
  "is_orphan (set_left x v h y) = is_orphan (h y)"
  "prev_orphan_id (set_left x v h y) = prev_orphan_id (h y)"
  "next_orphan_id (set_left x v h y) = next_orphan_id (h y)"
  by (simp_all add: set_left_def)

lemma set_left_other: "y \<noteq> x \<Longrightarrow> set_left x v h y = h y"
  by (simp add: set_left_def)

lemma set_right_fields [simp]:
  "key (set_right x v h y) = key (h y)"
  "left_id (set_right x v h y) = left_id (h y)"
  "right_id (set_right x v h y) = (if y = x then v else right_id (h y))"
  "parent_id (set_right x v h y) = parent_id (h y)"
  "balance (set_right x v h y) = balance (h y)"
  "is_orphan (set_right x v h y) = is_orphan (h y)"
  "prev_orphan_id (set_right x v h y) = prev_orphan_id (h y)"
  "next_orphan_id (set_right x v h y) = next_orphan_id (h y)"
  by (simp_all add: set_right_def)

lemma set_right_other: "y \<noteq> x \<Longrightarrow> set_right x v h y = h y"
  by (simp add: set_right_def)

lemma set_parent_fields [simp]:
  "key (set_parent x v h y) = key (h y)"
  "left_id (set_parent x v h y) = left_id (h y)"
  "right_id (set_parent x v h y) = right_id (h y)"
  "parent_id (set_parent x v h y) = (if y = x then v else parent_id (h y))"
  "balance (set_parent x v h y) = balance (h y)"
  "is_orphan (set_parent x v h y) = is_orphan (h y)"
  "prev_orphan_id (set_parent x v h y) = prev_orphan_id (h y)"
  "next_orphan_id (set_parent x v h y) = next_orphan_id (h y)"
  by (simp_all add: set_parent_def)

lemma set_parent_other: "y \<noteq> x \<Longrightarrow> set_parent x v h y = h y"
  by (simp add: set_parent_def)

lemma set_balance_fields [simp]:
  "key (set_balance x v h y) = key (h y)"
  "left_id (set_balance x v h y) = left_id (h y)"
  "right_id (set_balance x v h y) = right_id (h y)"
  "parent_id (set_balance x v h y) = parent_id (h y)"
  "balance (set_balance x v h y) = (if y = x then v else balance (h y))"
  "is_orphan (set_balance x v h y) = is_orphan (h y)"
  "prev_orphan_id (set_balance x v h y) = prev_orphan_id (h y)"
  "next_orphan_id (set_balance x v h y) = next_orphan_id (h y)"
  by (simp_all add: set_balance_def)

lemma set_balance_other: "y \<noteq> x \<Longrightarrow> set_balance x v h y = h y"
  by (simp add: set_balance_def)

lemma set_is_orphan_fields [simp]:
  "key (set_is_orphan x v h y) = key (h y)"
  "left_id (set_is_orphan x v h y) = left_id (h y)"
  "right_id (set_is_orphan x v h y) = right_id (h y)"
  "parent_id (set_is_orphan x v h y) = parent_id (h y)"
  "balance (set_is_orphan x v h y) = balance (h y)"
  "is_orphan (set_is_orphan x v h y) = (if y = x then v else is_orphan (h y))"
  "prev_orphan_id (set_is_orphan x v h y) = prev_orphan_id (h y)"
  "next_orphan_id (set_is_orphan x v h y) = next_orphan_id (h y)"
  by (simp_all add: set_is_orphan_def)

lemma set_is_orphan_other: "y \<noteq> x \<Longrightarrow> set_is_orphan x v h y = h y"
  by (simp add: set_is_orphan_def)

lemma set_prev_orphan_fields [simp]:
  "key (set_prev_orphan x v h y) = key (h y)"
  "left_id (set_prev_orphan x v h y) = left_id (h y)"
  "right_id (set_prev_orphan x v h y) = right_id (h y)"
  "parent_id (set_prev_orphan x v h y) = parent_id (h y)"
  "balance (set_prev_orphan x v h y) = balance (h y)"
  "is_orphan (set_prev_orphan x v h y) = is_orphan (h y)"
  "prev_orphan_id (set_prev_orphan x v h y) = (if y = x then v else prev_orphan_id (h y))"
  "next_orphan_id (set_prev_orphan x v h y) = next_orphan_id (h y)"
  by (simp_all add: set_prev_orphan_def)

lemma set_prev_orphan_other: "y \<noteq> x \<Longrightarrow> set_prev_orphan x v h y = h y"
  by (simp add: set_prev_orphan_def)

lemma set_next_orphan_fields [simp]:
  "key (set_next_orphan x v h y) = key (h y)"
  "left_id (set_next_orphan x v h y) = left_id (h y)"
  "right_id (set_next_orphan x v h y) = right_id (h y)"
  "parent_id (set_next_orphan x v h y) = parent_id (h y)"
  "balance (set_next_orphan x v h y) = balance (h y)"
  "is_orphan (set_next_orphan x v h y) = is_orphan (h y)"
  "prev_orphan_id (set_next_orphan x v h y) = prev_orphan_id (h y)"
  "next_orphan_id (set_next_orphan x v h y) = (if y = x then v else next_orphan_id (h y))"
  by (simp_all add: set_next_orphan_def)

lemma set_next_orphan_other: "y \<noteq> x \<Longrightarrow> set_next_orphan x v h y = h y"
  by (simp add: set_next_orphan_def)

section \<open>Trees and contexts in the node array\<close>

definition node_ok :: "nat \<Rightarrow> u32 \<Rightarrow> bool" where
  "node_ok N i \<longleftrightarrow> i \<noteq> 0 \<and> unat (i - 1) < N - 1"

lemma id_to_node_ok [simp]: "node_ok N i \<Longrightarrow> avl_id_to_node N i = i"
  by (simp add: node_ok_def avl_id_to_node_def)

lemma id_to_node_0 [simp]: "avl_id_to_node N 0 = 0"
  by (simp add: avl_id_to_node_def)

lemma not_node_ok_0 [simp]: "\<not> node_ok N 0"
  by (simp add: node_ok_def)

lemma node_ok_nz: "node_ok N i \<Longrightarrow> i \<noteq> 0"
  by auto

fun tree_at :: "nat \<Rightarrow> avl_nodes \<Rightarrow> u32 \<Rightarrow> u32 tree \<Rightarrow> u32 \<Rightarrow> bool" where
  "tree_at N h p Leaf i \<longleftrightarrow> i = 0"
| "tree_at N h p (Node l n r) i \<longleftrightarrow>
     i = n \<and> node_ok N n \<and> parent_id (h n) = p
     \<and> tree_at N h n l (left_id (h n)) \<and> tree_at N h n r (right_id (h n))"

datatype frame = LFr u32 "u32 tree" | RFr "u32 tree" u32

fun frame_node :: "frame \<Rightarrow> u32" where
  "frame_node (LFr n r) = n"
| "frame_node (RFr l n) = n"

fun plug :: "frame list \<Rightarrow> u32 tree \<Rightarrow> u32 tree" where
  "plug [] t = t"
| "plug (LFr n r # c) t = plug c (Node t n r)"
| "plug (RFr l n # c) t = plug c (Node l n t)"

fun ctx_set :: "frame list \<Rightarrow> u32 set" where
  "ctx_set [] = {}"
| "ctx_set (LFr n r # c) = insert n (set_tree r \<union> ctx_set c)"
| "ctx_set (RFr l n # c) = insert n (set_tree l \<union> ctx_set c)"

fun ctx_at :: "nat \<Rightarrow> avl_nodes \<Rightarrow> u32 \<Rightarrow> frame list \<Rightarrow> u32 \<Rightarrow> u32 \<Rightarrow> bool" where
  "ctx_at N h rt [] p i \<longleftrightarrow> p = 0 \<and> rt = i"
| "ctx_at N h rt (LFr n r # c) p i \<longleftrightarrow>
     p = n \<and> node_ok N n \<and> left_id (h n) = i \<and> tree_at N h n r (right_id (h n))
     \<and> ctx_at N h rt c (parent_id (h n)) n"
| "ctx_at N h rt (RFr l n # c) p i \<longleftrightarrow>
     p = n \<and> node_ok N n \<and> right_id (h n) = i \<and> tree_at N h n l (left_id (h n))
     \<and> ctx_at N h rt c (parent_id (h n)) n"

fun bal_ok :: "avl_nodes \<Rightarrow> u32 tree \<Rightarrow> bool" where
  "bal_ok h Leaf \<longleftrightarrow> True"
| "bal_ok h (Node l n r) \<longleftrightarrow>
     balance (h n) = int (height r) - int (height l) \<and> \<bar>balance (h n)\<bar> \<le> 1
     \<and> bal_ok h l \<and> bal_ok h r"

fun ctx_bal :: "avl_nodes \<Rightarrow> frame list \<Rightarrow> nat \<Rightarrow> bool" where
  "ctx_bal h [] k \<longleftrightarrow> True"
| "ctx_bal h (LFr n r # c) k \<longleftrightarrow>
     balance (h n) = int (height r) - int k \<and> \<bar>balance (h n)\<bar> \<le> 1 \<and> bal_ok h r
     \<and> ctx_bal h c (Suc (max k (height r)))"
| "ctx_bal h (RFr l n # c) k \<longleftrightarrow>
     balance (h n) = int k - int (height l) \<and> \<bar>balance (h n)\<bar> \<le> 1 \<and> bal_ok h l
     \<and> ctx_bal h c (Suc (max (height l) k))"

lemma set_tree_plug: "set_tree (plug c t) = ctx_set c \<union> set_tree t"
  by (induction c t rule: plug.induct) auto

lemma tree_at_plug:
  "tree_at N h 0 (plug c t) rt \<longleftrightarrow> (\<exists>p i. ctx_at N h rt c p i \<and> tree_at N h p t i)"
  by (induction c t rule: plug.induct) auto

lemma bal_ok_plug: "bal_ok h (plug c t) \<longleftrightarrow> ctx_bal h c (height t) \<and> bal_ok h t"
  by (induction c t rule: plug.induct) auto

lemma tree_at_cong:
  assumes "\<And>n. n \<in> set_tree t \<Longrightarrow> left_id (h' n) = left_id (h n) \<and> right_id (h' n) = right_id (h n)
    \<and> parent_id (h' n) = parent_id (h n)"
  shows "tree_at N h' p t i = tree_at N h p t i"
  using assms by (induction t arbitrary: p i) auto

lemma ctx_at_cong:
  assumes "\<And>n. n \<in> ctx_set c \<Longrightarrow> left_id (h' n) = left_id (h n) \<and> right_id (h' n) = right_id (h n)
    \<and> parent_id (h' n) = parent_id (h n)"
  shows "ctx_at N h' rt c p i = ctx_at N h rt c p i"
  using assms
proof (induction c arbitrary: p i rule: ctx_set.induct)
  case (2 n r c)
  have "tree_at N h' q r j = tree_at N h q r j" for q j
    by (rule tree_at_cong) (use "2.prems" in auto)
  with 2 show ?case by simp
next
  case (3 l n c)
  have "tree_at N h' q l j = tree_at N h q l j" for q j
    by (rule tree_at_cong) (use "3.prems" in auto)
  with 3 show ?case by simp
qed simp

lemma bal_ok_cong: "(\<And>n. n \<in> set_tree t \<Longrightarrow> balance (h' n) = balance (h n)) \<Longrightarrow> bal_ok h' t = bal_ok h t"
  by (induction t) auto

lemma ctx_bal_cong:
  "(\<And>n. n \<in> ctx_set c \<Longrightarrow> balance (h' n) = balance (h n)) \<Longrightarrow> ctx_bal h' c k = ctx_bal h c k"
proof (induction c arbitrary: k rule: ctx_set.induct)
  case (2 n r c)
  have "bal_ok h' r = bal_ok h r" by (rule bal_ok_cong) (use "2.prems" in auto)
  with 2 show ?case by simp
next
  case (3 l n c)
  have "bal_ok h' l = bal_ok h l" by (rule bal_ok_cong) (use "3.prems" in auto)
  with 3 show ?case by simp
qed simp

section \<open>Stores that do not touch a tree or a context\<close>

lemma tree_at_frame [simp]:
  assumes "x \<notin> set_tree t"
  shows "tree_at N (set_left x v h) p t i = tree_at N h p t i"
    and "tree_at N (set_right x v h) p t i = tree_at N h p t i"
    and "tree_at N (set_parent x v h) p t i = tree_at N h p t i"
  using assms by (auto intro!: tree_at_cong)

lemma tree_at_frame_data [simp]:
  "tree_at N (set_balance x b h) p t i = tree_at N h p t i"
  "tree_at N (set_is_orphan x o' h) p t i = tree_at N h p t i"
  "tree_at N (set_prev_orphan x v h) p t i = tree_at N h p t i"
  "tree_at N (set_next_orphan x v h) p t i = tree_at N h p t i"
  by (auto intro!: tree_at_cong)

lemma ctx_at_frame [simp]:
  assumes "x \<notin> ctx_set c"
  shows "ctx_at N (set_left x v h) rt c p i = ctx_at N h rt c p i"
    and "ctx_at N (set_right x v h) rt c p i = ctx_at N h rt c p i"
    and "ctx_at N (set_parent x v h) rt c p i = ctx_at N h rt c p i"
  using assms by (auto intro!: ctx_at_cong)

lemma ctx_at_frame_data [simp]:
  "ctx_at N (set_balance x b h) rt c p i = ctx_at N h rt c p i"
  "ctx_at N (set_is_orphan x o' h) rt c p i = ctx_at N h rt c p i"
  "ctx_at N (set_prev_orphan x v h) rt c p i = ctx_at N h rt c p i"
  "ctx_at N (set_next_orphan x v h) rt c p i = ctx_at N h rt c p i"
  by (auto intro!: ctx_at_cong)

lemma bal_ok_frame [simp]:
  "bal_ok (set_left x v h) t = bal_ok h t" "bal_ok (set_right x v h) t = bal_ok h t"
  "bal_ok (set_parent x v h) t = bal_ok h t" "bal_ok (set_is_orphan x o' h) t = bal_ok h t"
  "bal_ok (set_prev_orphan x v h) t = bal_ok h t" "bal_ok (set_next_orphan x v h) t = bal_ok h t"
  "x \<notin> set_tree t \<Longrightarrow> bal_ok (set_balance x b h) t = bal_ok h t"
  by (auto intro!: bal_ok_cong)

lemma ctx_bal_frame [simp]:
  "ctx_bal (set_left x v h) c k = ctx_bal h c k" "ctx_bal (set_right x v h) c k = ctx_bal h c k"
  "ctx_bal (set_parent x v h) c k = ctx_bal h c k" "ctx_bal (set_is_orphan x o' h) c k = ctx_bal h c k"
  "ctx_bal (set_prev_orphan x v h) c k = ctx_bal h c k" "ctx_bal (set_next_orphan x v h) c k = ctx_bal h c k"
  "x \<notin> ctx_set c \<Longrightarrow> ctx_bal (set_balance x b h) c k = ctx_bal h c k"
  by (auto intro!: ctx_bal_cong)

lemma tree_at_id_to_node: "tree_at N h p t i \<Longrightarrow> avl_id_to_node N i = i"
  by (cases t) auto

lemma tree_at_nodes: "tree_at N h p t i \<Longrightarrow> n \<in> set_tree t \<Longrightarrow> node_ok N n"
  by (induction t arbitrary: p i) auto

lemma tree_at_0: "tree_at N h p t i \<Longrightarrow> 0 \<notin> set_tree t"
  using tree_at_nodes [of N h p t i 0] by auto

lemma tree_at_root: "tree_at N h p t i \<Longrightarrow> i = 0 \<or> i \<in> set_tree t"
  by (cases t) auto

text \<open>The conditional store that gives a subtree a new parent.\<close>

definition reparent :: "u32 \<Rightarrow> u32 \<Rightarrow> avl_nodes \<Rightarrow> avl_nodes" where
  "reparent i q h = (if i \<noteq> 0 then set_parent i q h else h)"

lemma reparent_fields [simp]:
  "key (reparent i q h n) = key (h n)" "left_id (reparent i q h n) = left_id (h n)"
  "right_id (reparent i q h n) = right_id (h n)" "balance (reparent i q h n) = balance (h n)"
  "is_orphan (reparent i q h n) = is_orphan (h n)"
  "prev_orphan_id (reparent i q h n) = prev_orphan_id (h n)"
  "next_orphan_id (reparent i q h n) = next_orphan_id (h n)"
  "parent_id (reparent i q h n) = (if i \<noteq> 0 \<and> n = i then q else parent_id (h n))"
  by (auto simp: reparent_def)

lemma reparent_frame [simp]:
  "i \<notin> set_tree t \<Longrightarrow> tree_at N (reparent i q h) p t j = tree_at N h p t j"
  "i \<notin> ctx_set c \<Longrightarrow> ctx_at N (reparent i q h) rt c p j = ctx_at N h rt c p j"
  "bal_ok (reparent i q h) t = bal_ok h t"
  "ctx_bal (reparent i q h) c k = ctx_bal h c k"
  by (auto simp: reparent_def)

lemma reparent_other: "n \<noteq> i \<Longrightarrow> reparent i q h n = h n"
  by (simp add: reparent_def set_parent_other)

lemma tree_at_reparent:
  "tree_at N h p t i \<Longrightarrow> distinct (inorder t) \<Longrightarrow> tree_at N (reparent i q h) q t i"
  by (cases t) (auto simp: reparent_def)

lemma tree_at_move:
  assumes "tree_at N h p t i" and "distinct (inorder t)"
    and "\<And>n. n \<in> set_tree t \<Longrightarrow> left_id (h' n) = left_id (h n) \<and> right_id (h' n) = right_id (h n)
      \<and> parent_id (h' n) = (if n = i then q else parent_id (h n))"
  shows "tree_at N h' q t i"
proof (cases t)
  case Leaf
  with assms(1) show ?thesis by simp
next
  case (Node l m r)
  have "tree_at N h' m l (left_id (h m)) = tree_at N h m l (left_id (h m))"
    by (rule tree_at_cong) (use assms Node in auto)
  moreover have "tree_at N h' m r (right_id (h m)) = tree_at N h m r (right_id (h m))"
    by (rule tree_at_cong) (use assms Node in auto)
  ultimately show ?thesis using assms Node by auto
qed

lemma tree_at_same:
  assumes "tree_at N h p t i"
    and "\<And>n. n \<in> set_tree t \<Longrightarrow> left_id (h' n) = left_id (h n) \<and> right_id (h' n) = right_id (h n)
      \<and> parent_id (h' n) = parent_id (h n)"
  shows "tree_at N h' p t i"
  using assms tree_at_cong [of t h' h] by blast

lemmas other_simps = set_left_other set_right_other set_parent_other set_balance_other reparent_other

section \<open>The four rotations\<close>

lemma rotate_right_eq:
  assumes "tree_at N h p (Node (Node a z b) x r) x" and "x \<noteq> z"
  shows "avl_rotate_right N x z h =
    (z, set_balance z (if balance (h z) = 0 then 1 else 0)
         (set_balance x (if balance (h z) = 0 then -1 else 0)
           (set_parent x z (set_right z x
             (reparent (right_id (h z)) x (set_left x (right_id (h z)) h))))))"
proof -
  have "avl_id_to_node N (right_id (h z)) = right_id (h z)"
    by (rule tree_at_id_to_node) (use assms(1) in auto)
  then show ?thesis using assms(2) by (simp add: avl_rotate_right_def Let_def reparent_def)
qed

lemma rotate_left_eq:
  assumes "tree_at N h p (Node r x (Node b z a)) x" and "x \<noteq> z"
  shows "avl_rotate_left N x z h =
    (z, set_balance z (if balance (h z) = 0 then -1 else 0)
         (set_balance x (if balance (h z) = 0 then 1 else 0)
           (set_parent x z (set_left z x
             (reparent (left_id (h z)) x (set_right x (left_id (h z)) h))))))"
proof -
  have "avl_id_to_node N (left_id (h z)) = left_id (h z)"
    by (rule tree_at_id_to_node) (use assms(1) in auto)
  then show ?thesis using assms(2) by (simp add: avl_rotate_left_def Let_def reparent_def)
qed

lemma rotate_left_right_eq:
  assumes "tree_at N h p (Node (Node a z (Node b y c)) x r) x"
    and "distinct (inorder (Node (Node a z (Node b y c)) x r))"
  shows "avl_rotate_left_right N x z h =
    (y, set_balance z (if balance (h y) > 0 then -1 else 0) (set_balance y 0
         (set_balance x (if balance (h y) < 0 then 1 else 0)
      (reparent (right_id (h y)) x (set_left x (right_id (h y)) (set_parent x y (set_right y x
        (reparent (left_id (h y)) z (set_right z (left_id (h y)) (set_parent z y (set_left y z h)))))))))))"
proof -
  have y: "right_id (h z) = y" "node_ok N y" and d: "x \<noteq> y" "y \<noteq> z" "x \<noteq> z" using assms by auto
  have "avl_id_to_node N (left_id (h y)) = left_id (h y)"
    "avl_id_to_node N (right_id (h y)) = right_id (h y)"
    by (rule tree_at_id_to_node; use assms(1) in auto)+
  then show ?thesis using y d by (auto simp: avl_rotate_left_right_def Let_def reparent_def)
qed

lemma rotate_right_left_eq:
  assumes "tree_at N h p (Node r x (Node (Node c y b) z a)) x"
    and "distinct (inorder (Node r x (Node (Node c y b) z a)))"
  shows "avl_rotate_right_left N x z h =
    (y, set_balance z (if balance (h y) < 0 then 1 else 0) (set_balance y 0
         (set_balance x (if balance (h y) > 0 then -1 else 0)
      (reparent (right_id (h y)) z (set_left z (right_id (h y)) (set_parent z y (set_right y z
        (reparent (left_id (h y)) x (set_right x (left_id (h y)) (set_parent x y (set_left y x h)))))))))))"
proof -
  have y: "left_id (h z) = y" "node_ok N y" and d: "x \<noteq> y" "y \<noteq> z" "x \<noteq> z" using assms by auto
  have "avl_id_to_node N (left_id (h y)) = left_id (h y)"
    "avl_id_to_node N (right_id (h y)) = right_id (h y)"
    by (rule tree_at_id_to_node; use assms(1) in auto)+
  then show ?thesis using y d by (auto simp: avl_rotate_right_left_def Let_def reparent_def)
qed

lemma rotate_right_at:
  assumes "tree_at N h p (Node (Node a z b) x r) x" and "distinct (inorder (Node (Node a z b) x r))"
    and "avl_rotate_right N x z h = (str, h')"
  shows "tree_at N (set_parent z q h') q (Node a z (Node b x r)) z"
    and "\<And>n. n \<notin> set_tree (Node (Node a z b) x r) \<Longrightarrow> h' n = h n"
proof -
  let ?i = "right_id (h z)"
  define hh where "hh = set_parent z q h'"
  have xz: "x \<noteq> z" and t: "tree_at N h z a (left_id (h z))" "tree_at N h z b ?i"
    "tree_at N h x r (right_id (h x))" and ok: "node_ok N x" "node_ok N z"
    using assms(1,2) by auto
  note e = assms(3) [unfolded rotate_right_eq [OF assms(1) xz], simplified, THEN conjunct2, symmetric]
  have f: "left_id (hh n) = (if n = x then ?i else left_id (h n))"
    "right_id (hh n) = (if n = z then x else right_id (h n))"
    "parent_id (hh n) = (if n = z then q else if n = x then z
       else if ?i \<noteq> 0 \<and> n = ?i then x else parent_id (h n))" for n
    unfolding hh_def e by simp_all
  have nb: "?i = 0 \<or> ?i \<in> set_tree b" by (rule tree_at_root [OF t(2)])
  have "tree_at N hh z a (left_id (h z))"
    by (rule tree_at_same [OF t(1)]) (use assms(2) nb in \<open>auto simp: f\<close>)
  moreover have "tree_at N hh x r (right_id (h x))"
    by (rule tree_at_same [OF t(3)]) (use assms(2) nb in \<open>auto simp: f\<close>)
  moreover have "tree_at N hh x b ?i"
    by (rule tree_at_move [OF t(2)]) (use assms(2) tree_at_0 [OF t(2)] in \<open>auto simp: f\<close>)
  ultimately show "tree_at N (set_parent z q h') q (Node a z (Node b x r)) z"
    using xz ok unfolding hh_def [symmetric] by (simp add: f)
  show "h' n = h n" if "n \<notin> set_tree (Node (Node a z b) x r)" for n
  proof -
    have "?i = 0 \<or> n \<noteq> ?i" "n \<noteq> x" "n \<noteq> z" using that nb by auto
    then show ?thesis unfolding e by (auto simp: other_simps reparent_def)
  qed
qed

lemma rotate_left_at:
  assumes "tree_at N h p (Node r x (Node b z a)) x" and "distinct (inorder (Node r x (Node b z a)))"
    and "avl_rotate_left N x z h = (str, h')"
  shows "tree_at N (set_parent z q h') q (Node (Node r x b) z a) z"
    and "\<And>n. n \<notin> set_tree (Node r x (Node b z a)) \<Longrightarrow> h' n = h n"
proof -
  let ?i = "left_id (h z)"
  define hh where "hh = set_parent z q h'"
  have xz: "x \<noteq> z" and t: "tree_at N h z a (right_id (h z))" "tree_at N h z b ?i"
    "tree_at N h x r (left_id (h x))" and ok: "node_ok N x" "node_ok N z"
    using assms(1,2) by auto
  note e = assms(3) [unfolded rotate_left_eq [OF assms(1) xz], simplified, THEN conjunct2, symmetric]
  have f: "right_id (hh n) = (if n = x then ?i else right_id (h n))"
    "left_id (hh n) = (if n = z then x else left_id (h n))"
    "parent_id (hh n) = (if n = z then q else if n = x then z
       else if ?i \<noteq> 0 \<and> n = ?i then x else parent_id (h n))" for n
    unfolding hh_def e by simp_all
  have nb: "?i = 0 \<or> ?i \<in> set_tree b" by (rule tree_at_root [OF t(2)])
  have "tree_at N hh z a (right_id (h z))"
    by (rule tree_at_same [OF t(1)]) (use assms(2) nb in \<open>auto simp: f\<close>)
  moreover have "tree_at N hh x r (left_id (h x))"
    by (rule tree_at_same [OF t(3)]) (use assms(2) nb in \<open>auto simp: f\<close>)
  moreover have "tree_at N hh x b ?i"
    by (rule tree_at_move [OF t(2)]) (use assms(2) tree_at_0 [OF t(2)] in \<open>auto simp: f\<close>)
  ultimately show "tree_at N (set_parent z q h') q (Node (Node r x b) z a) z"
    using xz ok unfolding hh_def [symmetric] by (simp add: f)
  show "h' n = h n" if "n \<notin> set_tree (Node r x (Node b z a))" for n
  proof -
    have "?i = 0 \<or> n \<noteq> ?i" "n \<noteq> x" "n \<noteq> z" using that nb by auto
    then show ?thesis unfolding e by (auto simp: other_simps reparent_def)
  qed
qed

lemma rotate_left_right_at:
  assumes "tree_at N h p (Node (Node a z (Node b y c)) x r) x" and "distinct (inorder (Node (Node a z (Node b y c)) x r))"
    and "avl_rotate_left_right N x z h = (str, h')"
  shows "tree_at N (set_parent y q h') q (Node (Node a z b) y (Node c x r)) y"
    and "\<And>n. n \<notin> set_tree (Node (Node a z (Node b y c)) x r) \<Longrightarrow> h' n = h n"
proof -
  let ?i = "left_id (h y)" and ?j = "right_id (h y)"
  define hh where "hh = set_parent y q h'"
  have d: "x \<noteq> y" "y \<noteq> z" "x \<noteq> z"
    and t: "tree_at N h z a (left_id (h z))" "tree_at N h y b ?i" "tree_at N h y c ?j"
      "tree_at N h x r (right_id (h x))" and ok: "node_ok N x" "node_ok N z" "node_ok N y"
    using assms(1,2) by auto
  note e = assms(3) [unfolded rotate_left_right_eq [OF assms(1,2)], simplified, THEN conjunct2, symmetric]
  have nb: "?i = 0 \<or> ?i \<in> set_tree b" "?j = 0 \<or> ?j \<in> set_tree c"
    using tree_at_root t by blast+
  have ij: "?i \<noteq> x" "?i \<noteq> y" "?i \<noteq> z" "?j \<noteq> x" "?j \<noteq> y" "?j \<noteq> z" "?i = ?j \<longrightarrow> ?j = 0"
    using nb assms(2) ok by auto
  have f: "left_id (hh n) = (if n = x then ?j else if n = y then z else left_id (h n))"
    "right_id (hh n) = (if n = y then x else if n = z then ?i else right_id (h n))"
    "parent_id (hh n) = (if n = y then q else if n = x \<or> n = z then y
       else if ?i \<noteq> 0 \<and> n = ?i then z else if ?j \<noteq> 0 \<and> n = ?j then x else parent_id (h n))" for n
    using d ij unfolding hh_def e by auto
  have "tree_at N hh z a (left_id (h z))"
    by (rule tree_at_same [OF t(1)]) (use assms(2) nb in \<open>auto simp: f\<close>)
  moreover have "tree_at N hh x r (right_id (h x))"
    by (rule tree_at_same [OF t(4)]) (use assms(2) nb in \<open>auto simp: f\<close>)
  moreover have "tree_at N hh z b ?i"
  proof (rule tree_at_move [OF t(2)])
    fix n assume "n \<in> set_tree b"
    then have "n \<noteq> x \<and> n \<noteq> y \<and> n \<noteq> z \<and> n \<noteq> 0 \<and> (n = ?j \<longrightarrow> ?j = 0)"
      using assms(2) nb tree_at_0 [OF t(2)] by auto
    then show "left_id (hh n) = left_id (h n) \<and> right_id (hh n) = right_id (h n)
        \<and> parent_id (hh n) = (if n = ?i then z else parent_id (h n))"
      by (auto simp: f)
  qed (use assms(2) in auto)
  moreover have "tree_at N hh x c ?j"
  proof (rule tree_at_move [OF t(3)])
    fix n assume "n \<in> set_tree c"
    then have "n \<noteq> x \<and> n \<noteq> y \<and> n \<noteq> z \<and> n \<noteq> 0 \<and> (n = ?i \<longrightarrow> ?i = 0)"
      using assms(2) nb tree_at_0 [OF t(3)] by auto
    then show "left_id (hh n) = left_id (h n) \<and> right_id (hh n) = right_id (h n)
        \<and> parent_id (hh n) = (if n = ?j then x else parent_id (h n))"
      by (auto simp: f)
  qed (use assms(2) in auto)
  ultimately show "tree_at N (set_parent y q h') q (Node (Node a z b) y (Node c x r)) y"
    using d ok unfolding hh_def [symmetric] by (simp add: f)
  show "h' n = h n" if "n \<notin> set_tree (Node (Node a z (Node b y c)) x r)" for n
  proof -
    have "?i = 0 \<or> n \<noteq> ?i" "?j = 0 \<or> n \<noteq> ?j" "n \<noteq> x" "n \<noteq> y" "n \<noteq> z" using that nb by auto
    then show ?thesis unfolding e by (auto simp: other_simps reparent_def)
  qed
qed

lemma rotate_right_left_at:
  assumes "tree_at N h p (Node r x (Node (Node c y b) z a)) x" and "distinct (inorder (Node r x (Node (Node c y b) z a)))"
    and "avl_rotate_right_left N x z h = (str, h')"
  shows "tree_at N (set_parent y q h') q (Node (Node r x c) y (Node b z a)) y"
    and "\<And>n. n \<notin> set_tree (Node r x (Node (Node c y b) z a)) \<Longrightarrow> h' n = h n"
proof -
  let ?i = "right_id (h y)" and ?j = "left_id (h y)"
  define hh where "hh = set_parent y q h'"
  have d: "x \<noteq> y" "y \<noteq> z" "x \<noteq> z"
    and t: "tree_at N h z a (right_id (h z))" "tree_at N h y b ?i" "tree_at N h y c ?j"
      "tree_at N h x r (left_id (h x))" and ok: "node_ok N x" "node_ok N z" "node_ok N y"
    using assms(1,2) by auto
  note e = assms(3) [unfolded rotate_right_left_eq [OF assms(1,2)], simplified, THEN conjunct2, symmetric]
  have nb: "?i = 0 \<or> ?i \<in> set_tree b" "?j = 0 \<or> ?j \<in> set_tree c"
    using tree_at_root t by blast+
  have ij: "?i \<noteq> x" "?i \<noteq> y" "?i \<noteq> z" "?j \<noteq> x" "?j \<noteq> y" "?j \<noteq> z" "?i = ?j \<longrightarrow> ?j = 0"
    using nb assms(2) ok by auto
  have f: "right_id (hh n) = (if n = x then ?j else if n = y then z else right_id (h n))"
    "left_id (hh n) = (if n = y then x else if n = z then ?i else left_id (h n))"
    "parent_id (hh n) = (if n = y then q else if n = x \<or> n = z then y
       else if ?i \<noteq> 0 \<and> n = ?i then z else if ?j \<noteq> 0 \<and> n = ?j then x else parent_id (h n))" for n
    using d ij unfolding hh_def e by auto
  have "tree_at N hh z a (right_id (h z))"
    by (rule tree_at_same [OF t(1)]) (use assms(2) nb in \<open>auto simp: f\<close>)
  moreover have "tree_at N hh x r (left_id (h x))"
    by (rule tree_at_same [OF t(4)]) (use assms(2) nb in \<open>auto simp: f\<close>)
  moreover have "tree_at N hh z b ?i"
  proof (rule tree_at_move [OF t(2)])
    fix n assume "n \<in> set_tree b"
    then have "n \<noteq> x \<and> n \<noteq> y \<and> n \<noteq> z \<and> n \<noteq> 0 \<and> (n = ?j \<longrightarrow> ?j = 0)"
      using assms(2) nb tree_at_0 [OF t(2)] by auto
    then show "left_id (hh n) = left_id (h n) \<and> right_id (hh n) = right_id (h n)
        \<and> parent_id (hh n) = (if n = ?i then z else parent_id (h n))"
      by (auto simp: f)
  qed (use assms(2) in auto)
  moreover have "tree_at N hh x c ?j"
  proof (rule tree_at_move [OF t(3)])
    fix n assume "n \<in> set_tree c"
    then have "n \<noteq> x \<and> n \<noteq> y \<and> n \<noteq> z \<and> n \<noteq> 0 \<and> (n = ?i \<longrightarrow> ?i = 0)"
      using assms(2) nb tree_at_0 [OF t(3)] by auto
    then show "left_id (hh n) = left_id (h n) \<and> right_id (hh n) = right_id (h n)
        \<and> parent_id (hh n) = (if n = ?j then x else parent_id (h n))"
      by (auto simp: f)
  qed (use assms(2) in auto)
  ultimately show "tree_at N (set_parent y q h') q (Node (Node r x c) y (Node b z a)) y"
    using d ok unfolding hh_def [symmetric] by (simp add: f)
  show "h' n = h n" if "n \<notin> set_tree (Node r x (Node (Node c y b) z a))" for n
  proof -
    have "?i = 0 \<or> n \<noteq> ?i" "?j = 0 \<or> n \<noteq> ?j" "n \<noteq> x" "n \<noteq> y" "n \<noteq> z" using that nb by auto
    then show ?thesis unfolding e by (auto simp: other_simps reparent_def)
  qed
qed

text \<open>Rebalancing a node whose left subtree is two levels higher than its right one.\<close>

lemma bal_ok_updated:
  assumes "bal_ok h t" and "\<And>n. n \<in> set_tree t \<Longrightarrow> balance (h' n) = balance (h n)"
  shows "bal_ok h' t"
  using assms bal_ok_cong [of t h' h] by blast

lemma rotate_left_heavy:
  assumes t: "tree_at N h p (Node l x r) x" and d: "distinct (inorder (Node l x r))"
    and b: "bal_ok h l" "bal_ok h r" and ht: "height l = height r + 2" and z: "z = left_id (h x)"
    and rot: "(if balance (h z) \<le> 0 then avl_rotate_right N x z h else avl_rotate_left_right N x z h) = (str, h')"
  shows "\<exists>t'. tree_at N (set_parent str q h') q t' str \<and> t' \<noteq> Leaf \<and> inorder t' = inorder (Node l x r)
    \<and> bal_ok h' t' \<and> height t' = (if balance (h z) = 0 then height l + 1 else height l)
    \<and> (\<forall>n. n \<notin> set_tree (Node l x r) \<longrightarrow> h' n = h n)"
proof -
  obtain a c where l: "l = Node a z c" using ht t z by (cases l) auto
  have bz: "balance (h z) = int (height c) - int (height a)" "\<bar>balance (h z)\<bar> \<le> 1"
    "bal_ok h a" "bal_ok h c" using b l by auto
  show ?thesis
  proof (cases "balance (h z) \<le> 0")
    case True
    have e: "avl_rotate_right N x z h = (str, h')" using rot True by simp
    have xz: "x \<noteq> z" using d l by auto
    note eq = e [unfolded rotate_right_eq [OF t [unfolded l] xz]]
    have str: "str = z" and bal: "balance (h' n) = (if n = z then (if balance (h z) = 0 then 1 else 0)
        else if n = x then (if balance (h z) = 0 then -1 else 0) else balance (h n))" for n
      using eq by auto
    have "bal_ok h' a" by (rule bal_ok_updated [OF bz(3)]) (use d l in \<open>auto simp: bal\<close>)
    moreover have "bal_ok h' c" by (rule bal_ok_updated [OF bz(4)]) (use d l in \<open>auto simp: bal\<close>)
    moreover have "bal_ok h' r" by (rule bal_ok_updated [OF b(2)]) (use d l in \<open>auto simp: bal\<close>)
    ultimately have "bal_ok h' (Node a z (Node c x r))"
      using bz ht l xz True by (auto simp: bal)
    moreover have "height (Node a z (Node c x r)) = (if balance (h z) = 0 then height l + 1 else height l)"
      using bz ht l True by (auto simp: max_def)
    ultimately show ?thesis
      using rotate_right_at [OF t [unfolded l] d [unfolded l] e] l str
      by (intro exI [of _ "Node a z (Node c x r)"]) auto
  next
    case False
    have e: "avl_rotate_left_right N x z h = (str, h')" using rot False by simp
    obtain c1 y c2 where c: "c = Node c1 y c2" using bz False by (cases c) auto
    have l': "l = Node a z (Node c1 y c2)" using l c by simp
    have xz: "x \<noteq> z" "x \<noteq> y" "y \<noteq> z" using d l' by auto
    note eq = e [unfolded rotate_left_right_eq [OF t [unfolded l'] d [unfolded l']]]
    have str: "str = y" and bal: "balance (h' n) = (if n = z then (if balance (h y) > 0 then -1 else 0)
        else if n = y then 0 else if n = x then (if balance (h y) < 0 then 1 else 0) else balance (h n))" for n
      using eq by auto
    have by': "balance (h y) = int (height c2) - int (height c1)" "\<bar>balance (h y)\<bar> \<le> 1"
      "bal_ok h c1" "bal_ok h c2" using bz(4) c by auto
    have "bal_ok h' a" by (rule bal_ok_updated [OF bz(3)]) (use d l' in \<open>auto simp: bal\<close>)
    moreover have "bal_ok h' c1" by (rule bal_ok_updated [OF by'(3)]) (use d l' in \<open>auto simp: bal\<close>)
    moreover have "bal_ok h' c2" by (rule bal_ok_updated [OF by'(4)]) (use d l' in \<open>auto simp: bal\<close>)
    moreover have "bal_ok h' r" by (rule bal_ok_updated [OF b(2)]) (use d l' in \<open>auto simp: bal\<close>)
    ultimately have "bal_ok h' (Node (Node a z c1) y (Node c2 x r))"
      using bz by' ht l c xz False by (auto simp: bal)
    moreover have "height (Node (Node a z c1) y (Node c2 x r)) = height l"
      using bz by' ht l c False by (auto simp: max_def split: if_splits)
    moreover have "tree_at N (set_parent str q h') q (Node (Node a z c1) y (Node c2 x r)) str"
        "\<forall>n. n \<notin> set_tree (Node l x r) \<longrightarrow> h' n = h n"
      using rotate_left_right_at [OF t [unfolded l'] d [unfolded l'] e] str unfolding l' by simp_all
    moreover have "inorder (Node (Node a z c1) y (Node c2 x r)) = inorder (Node l x r)" "balance (h z) \<noteq> 0"
      using l' False by simp_all
    ultimately show ?thesis
      by (intro exI [of _ "Node (Node a z c1) y (Node c2 x r)"] conjI) (assumption | simp only: if_False tree.distinct simp_thms)+
  qed
qed

lemma rotate_right_heavy:
  assumes t: "tree_at N h p (Node l x r) x" and d: "distinct (inorder (Node l x r))"
    and b: "bal_ok h l" "bal_ok h r" and ht: "height r = height l + 2" and z: "z = right_id (h x)"
    and rot: "(if balance (h z) \<ge> 0 then avl_rotate_left N x z h else avl_rotate_right_left N x z h) = (str, h')"
  shows "\<exists>t'. tree_at N (set_parent str q h') q t' str \<and> t' \<noteq> Leaf \<and> inorder t' = inorder (Node l x r)
    \<and> bal_ok h' t' \<and> height t' = (if balance (h z) = 0 then height r + 1 else height r)
    \<and> (\<forall>n. n \<notin> set_tree (Node l x r) \<longrightarrow> h' n = h n)"
proof -
  obtain a c where r: "r = Node c z a" using ht t z by (cases r) auto
  have bz: "balance (h z) = int (height a) - int (height c)" "\<bar>balance (h z)\<bar> \<le> 1"
    "bal_ok h a" "bal_ok h c" using b r by auto
  show ?thesis
  proof (cases "balance (h z) \<ge> 0")
    case True
    have e: "avl_rotate_left N x z h = (str, h')" using rot True by simp
    have xz: "x \<noteq> z" using d r by auto
    note eq = e [unfolded rotate_left_eq [OF t [unfolded r] xz]]
    have str: "str = z" and bal: "balance (h' n) = (if n = z then (if balance (h z) = 0 then -1 else 0)
        else if n = x then (if balance (h z) = 0 then 1 else 0) else balance (h n))" for n
      using eq by auto
    have "bal_ok h' a" by (rule bal_ok_updated [OF bz(3)]) (use d r in \<open>auto simp: bal\<close>)
    moreover have "bal_ok h' c" by (rule bal_ok_updated [OF bz(4)]) (use d r in \<open>auto simp: bal\<close>)
    moreover have "bal_ok h' l" by (rule bal_ok_updated [OF b(1)]) (use d r in \<open>auto simp: bal\<close>)
    ultimately have "bal_ok h' (Node (Node l x c) z a)"
      using bz ht r xz True by (auto simp: bal)
    moreover have "height (Node (Node l x c) z a) = (if balance (h z) = 0 then height r + 1 else height r)"
      using bz ht r True by (auto simp: max_def)
    ultimately show ?thesis
      using rotate_left_at [OF t [unfolded r] d [unfolded r] e] r str
      by (intro exI [of _ "Node (Node l x c) z a"]) auto
  next
    case False
    have e: "avl_rotate_right_left N x z h = (str, h')" using rot False by simp
    obtain c1 y c2 where c: "c = Node c2 y c1" using bz False by (cases c) auto
    have r': "r = Node (Node c2 y c1) z a" using r c by simp
    have xz: "x \<noteq> z" "x \<noteq> y" "y \<noteq> z" using d r' by auto
    note eq = e [unfolded rotate_right_left_eq [OF t [unfolded r'] d [unfolded r']]]
    have str: "str = y" and bal: "balance (h' n) = (if n = z then (if balance (h y) < 0 then 1 else 0)
        else if n = y then 0 else if n = x then (if balance (h y) > 0 then -1 else 0) else balance (h n))" for n
      using eq by auto
    have by': "balance (h y) = int (height c1) - int (height c2)" "\<bar>balance (h y)\<bar> \<le> 1"
      "bal_ok h c1" "bal_ok h c2" using bz(4) c by auto
    have "bal_ok h' a" by (rule bal_ok_updated [OF bz(3)]) (use d r' in \<open>auto simp: bal\<close>)
    moreover have "bal_ok h' c1" by (rule bal_ok_updated [OF by'(3)]) (use d r' in \<open>auto simp: bal\<close>)
    moreover have "bal_ok h' c2" by (rule bal_ok_updated [OF by'(4)]) (use d r' in \<open>auto simp: bal\<close>)
    moreover have "bal_ok h' l" by (rule bal_ok_updated [OF b(1)]) (use d r' in \<open>auto simp: bal\<close>)
    ultimately have "bal_ok h' (Node (Node l x c2) y (Node c1 z a))"
      using bz by' ht r c xz False by (auto simp: bal)
    moreover have "height (Node (Node l x c2) y (Node c1 z a)) = height r"
      using bz by' ht r c False by (auto simp: max_def split: if_splits)
    moreover have "tree_at N (set_parent str q h') q (Node (Node l x c2) y (Node c1 z a)) str"
        "\<forall>n. n \<notin> set_tree (Node l x r) \<longrightarrow> h' n = h n"
      using rotate_right_left_at [OF t [unfolded r'] d [unfolded r'] e] str unfolding r' by simp_all
    moreover have "inorder (Node (Node l x c2) y (Node c1 z a)) = inorder (Node l x r)" "balance (h z) \<noteq> 0"
      using r' False by simp_all
    ultimately show ?thesis
      by (intro exI [of _ "Node (Node l x c2) y (Node c1 z a)"] conjI) (assumption | simp only: if_False tree.distinct simp_thms)+
  qed
qed

section \<open>Relinking a subtree to the node above it\<close>

lemma distinct_plug:
  "distinct (inorder (plug c t)) \<Longrightarrow> distinct (inorder t) \<and> set_tree t \<inter> ctx_set c = {}"
  by (induction c t rule: plug.induct) auto

lemma inorder_plug_cong: "inorder t' = inorder t \<Longrightarrow> inorder (plug c t') = inorder (plug c t)"
proof (induction c arbitrary: t t')
  case (Cons f c)
  then show ?case by (cases f) auto
qed simp

lemma set_inorder_cong: "inorder t' = inorder t \<Longrightarrow> set_tree t' = set_tree t"
  by (metis set_inorder)

lemma ctx_at_parent: "ctx_at N h rt c p i \<Longrightarrow> avl_id_to_node N p = p \<and> (p = 0 \<longleftrightarrow> c = [])"
  by (cases "(N, h, rt, c, p, i)" rule: ctx_at.cases) auto

lemma ctx_at_same:
  assumes "ctx_at N h rt c p i"
    and "\<And>n. n \<in> ctx_set c \<Longrightarrow> left_id (h' n) = left_id (h n) \<and> right_id (h' n) = right_id (h n)
      \<and> parent_id (h' n) = parent_id (h n)"
  shows "ctx_at N h' rt c p i"
  using assms ctx_at_cong [of c h' h] by blast

lemma link_str_at:
  assumes c: "ctx_at N h (root t) c p x" and x: "x \<noteq> 0" "x \<notin> ctx_set c"
    and d: "distinct (inorder (plug c s))" and s: "tree_at N (set_parent str p h) p s str" "s \<noteq> Leaf"
    and l: "avl_link_str p (avl_id_to_node N p) x str (t, h) = ((t', h'), b)"
  shows "tree_at N h' p s str" and "ctx_at N h' (root t') c p str"
    and "b \<longleftrightarrow> (\<exists>n r c'. c = LFr n r # c')" and "t' = t\<lparr>root := root t'\<rparr>"
    and "\<And>n. balance (h' n) = balance (h n)"
    and "\<And>n. n \<notin> ctx_set c \<Longrightarrow> n \<notin> set_tree s \<Longrightarrow> h' n = h n"
proof -
  have str: "str \<in> set_tree s" using s by (cases s) auto
  have dd: "str \<notin> ctx_set c" using distinct_plug [OF d] str by auto
  consider (top) "c = []" | (l) n r c' where "c = LFr n r # c'" | (r) n u c' where "c = RFr u n # c'"
    by (metis list.exhaust frame.exhaust)
  then have "tree_at N h' p s str \<and> ctx_at N h' (root t') c p str
    \<and> (b \<longleftrightarrow> (\<exists>n r c'. c = LFr n r # c')) \<and> t' = t\<lparr>root := root t'\<rparr>
    \<and> (\<forall>n. balance (h' n) = balance (h n))
    \<and> (\<forall>n. n \<notin> ctx_set c \<longrightarrow> n \<notin> set_tree s \<longrightarrow> h' n = h n)"
  proof cases
    case top
    then show ?thesis using c x s l str
      by (auto simp: avl_link_str_def Let_def intro!: set_parent_other)
  next
    case (l n r c')
    have n: "n \<notin> set_tree s" "n \<notin> set_tree r" "n \<notin> ctx_set c'"
      using distinct_plug [of c' "Node s n r"] d l by auto
    have "n \<noteq> 0" "left_id (h n) = x" "p = n" using c l by auto
    then have "t' = t" "h' = set_left n str (set_parent str n h)" "b"
      using assms(7) c l by (simp_all add: avl_link_str_def Let_def)
    with n show ?thesis using c s l dd str
      by (auto simp: set_left_other intro!: set_parent_other)
  next
    case (r n u c')
    have n: "n \<notin> set_tree s" "n \<notin> set_tree u" "n \<notin> ctx_set c'"
      using distinct_plug [of c' "Node u n s"] d r by auto
    have "left_id (h n) \<noteq> x" using c r x tree_at_root [of N h n u "left_id (h n)"] by auto
    moreover have "n \<noteq> 0" "p = n" using c r by auto
    ultimately have "t' = t" "h' = set_right n str (set_parent str n h)" "\<not> b"
      using assms(7) c r by (simp_all add: avl_link_str_def Let_def)
    with n show ?thesis using c s r dd str
      by (auto simp: set_right_other intro!: set_parent_other)
  qed
  then show "tree_at N h' p s str" "ctx_at N h' (root t') c p str"
    "b \<longleftrightarrow> (\<exists>n r c'. c = LFr n r # c')" "t' = t\<lparr>root := root t'\<rparr>"
    "\<And>n. balance (h' n) = balance (h n)"
    "\<And>n. n \<notin> ctx_set c \<Longrightarrow> n \<notin> set_tree s \<Longrightarrow> h' n = h n" by blast+
qed

text \<open>
  A rebalancing rotation at \<open>x\<close> followed by the relinking: the hole that held the tree
  \<open>Node l x r\<close> holds a balanced tree over the same nodes in the same order.
\<close>

lemma relink_rotated:
  assumes c: "ctx_at N h (root t) c p x" and tr: "tree_at N h p u x"
    and d: "distinct (inorder (plug c u))"
    and rot: "tree_at N (set_parent str p h1) p s str" "s \<noteq> Leaf" "inorder s = inorder u" "bal_ok h1 s"
      "\<forall>n. n \<notin> set_tree u \<longrightarrow> h1 n = h n"
    and l: "avl_link_str p (avl_id_to_node N p) x str (t, h1) = ((t', h'), b)"
  shows "tree_at N h' p s str" and "ctx_at N h' (root t') c p str"
    and "b \<longleftrightarrow> (\<exists>n r c'. c = LFr n r # c')" and "t' = t\<lparr>root := root t'\<rparr>"
    and "bal_ok h' s" and "\<And>k. ctx_bal h' c k = ctx_bal h c k"
    and "\<And>n. n \<notin> set_tree (plug c u) \<Longrightarrow> h' n = h n"
proof -
  have su: "set_tree s = set_tree u" using rot(3) by (rule set_inorder_cong)
  have un: "u \<noteq> Leaf" using su rot(2) by (cases u) auto
  have x: "x \<in> set_tree u" "x \<noteq> 0" using tr un by (cases u; auto)+
  have dj: "set_tree u \<inter> ctx_set c = {}" using distinct_plug [OF d] by simp
  have c1: "ctx_at N h1 (root t) c p x"
    by (rule ctx_at_same [OF c]) (use dj rot(5) in auto)
  have "distinct (inorder (plug c s))" using d inorder_plug_cong [OF rot(3)] by metis
  moreover have "x \<notin> ctx_set c" using x dj by auto
  ultimately have L: "tree_at N h' p s str" "ctx_at N h' (root t') c p str"
    "b \<longleftrightarrow> (\<exists>n r c'. c = LFr n r # c')" "t' = t\<lparr>root := root t'\<rparr>" "\<And>n. balance (h' n) = balance (h1 n)"
    "\<And>n. n \<notin> ctx_set c \<Longrightarrow> n \<notin> set_tree s \<Longrightarrow> h' n = h1 n"
    using link_str_at [OF c1 x(2) _ _ rot(1,2) l] by blast+
  show "tree_at N h' p s str" "ctx_at N h' (root t') c p str"
    "b \<longleftrightarrow> (\<exists>n r c'. c = LFr n r # c')" "t' = t\<lparr>root := root t'\<rparr>" by (fact L)+
  show "bal_ok h' s" using rot(4) L(5) bal_ok_cong [of s h' h1] by blast
  show "ctx_bal h' c k = ctx_bal h c k" for k
    by (rule ctx_bal_cong) (use L(5) rot(5) dj in auto)
  show "h' n = h n" if "n \<notin> set_tree (plug c u)" for n
    using that L(6) [of n] rot(5) su by (simp add: set_tree_plug)
qed

end
