(* ===== verification/Prio_Queue.thy ===== *)
theory Prio_Queue
  imports Main "HOL-Library.Multiset"
begin

text \<open>
  The contract of a run queue ordered by a key with ties served in order of arrival, as a
  locale over a list view: an insertion puts the element behind all elements with a key that
  is not larger, and a pop takes the first one.  The lemmas of the locale follow from the two
  laws alone; the array-backed tree provides them.
\<close>

section \<open>The specification of an insertion\<close>

text \<open>A new element goes behind all elements whose key is not larger.\<close>

fun ins_after :: "('a \<Rightarrow> 'k::linorder) \<Rightarrow> 'a \<Rightarrow> 'a list \<Rightarrow> 'a list" where
  "ins_after f x [] = [x]"
| "ins_after f x (y # ys) = (if f x < f y then x # y # ys else y # ins_after f x ys)"

lemma ins_after_split:
  assumes "\<forall>y \<in> set xs. f y \<le> f x" and "\<forall>y \<in> set ys. f x < f y"
  shows "ins_after f x (xs @ ys) = xs @ x # ys"
proof -
  have "ins_after f x ys = x # ys" using assms(2) by (cases ys) auto
  then show ?thesis using assms(1) by (induction xs) (auto simp: not_less)
qed

lemma set_ins_after [simp]: "set (ins_after f x xs) = insert x (set xs)"
  by (induction xs) auto

lemma length_ins_after [simp]: "length (ins_after f x xs) = Suc (length xs)"
  by (induction xs) auto

lemma distinct_ins_after [simp]: "distinct (ins_after f x xs) = (x \<notin> set xs \<and> distinct xs)"
  by (induction xs) auto

lemma sorted_ins_after: "sorted (map f xs) \<Longrightarrow> sorted (map f (ins_after f x xs))"
proof (induction xs)
  case (Cons y ys)
  then show ?case by (auto simp: not_less)
qed simp

lemma ins_after_cong: "(\<And>y. y \<in> insert x (set xs) \<Longrightarrow> f y = g y) \<Longrightarrow> ins_after f x xs = ins_after g x xs"
  by (induction xs) auto

lemma filter_ins_after:
  "sorted (map f xs) \<Longrightarrow> filter (\<lambda>y. f y = k) (ins_after f x xs)
    = filter (\<lambda>y. f y = k) xs @ (if f x = k then [x] else [])"
proof (induction xs)
  case (Cons y ys)
  have "filter (\<lambda>y. f y = f x) (y # ys) = []" if "f x < f y"
    using that Cons.prems by (auto simp: filter_empty_conv)
  with Cons show ?case by auto
qed simp

lemma mset_ins_after [simp]: "mset (ins_after f x xs) = add_mset x (mset xs)"
  by (induction xs) auto

lemma fold_ins_after_sorted: "sorted (map f xs) \<Longrightarrow> sorted (map f (fold (ins_after f) ys xs))"
  by (induction ys arbitrary: xs) (auto intro: sorted_ins_after)

lemma fold_ins_after_filter:
  "sorted (map f xs) \<Longrightarrow> filter (\<lambda>y. f y = k) (fold (ins_after f) ys xs)
    = filter (\<lambda>y. f y = k) xs @ filter (\<lambda>y. f y = k) ys"
  by (induction ys arbitrary: xs) (auto simp: filter_ins_after sorted_ins_after)

lemma fold_ins_after_mset: "mset (fold (ins_after f) ys xs) = mset xs + mset ys"
  by (induction ys arbitrary: xs) auto

text \<open>Inserting one after the other into an empty queue is a stable sort.\<close>

lemma fold_ins_after_sort: "fold (ins_after f) ys [] = sort_key f ys"
proof -
  have "sort_key f ys = fold (ins_after f) ys []"
  proof (rule properties_for_sort_key)
    show "mset (fold (ins_after f) ys []) = mset ys" by (simp add: fold_ins_after_mset)
    show "filter (\<lambda>x. f k = f x) (fold (ins_after f) ys []) = filter (\<lambda>x. f k = f x) ys" for k
      using fold_ins_after_filter [of f "[]" "f k" ys] by (simp add: eq_commute [of "f k"])
    show "sorted (map f (fold (ins_after f) ys []))" by (rule fold_ins_after_sorted) simp
  qed
  then show ?thesis by simp
qed

section \<open>The interface\<close>

fun pop_n :: "('s \<Rightarrow> 'a \<times> 's) \<Rightarrow> nat \<Rightarrow> 's \<Rightarrow> 'a list \<times> 's" where
  "pop_n pop 0 s = ([], s)"
| "pop_n pop (Suc n) s = (case pop s of (x, s') \<Rightarrow> case pop_n pop n s' of (xs, s'') \<Rightarrow> (x # xs, s''))"

locale stable_pq =
  fixes inv :: "'s \<Rightarrow> 'a list \<Rightarrow> bool" and ok :: "'a \<Rightarrow> bool" and keyf :: "'s \<Rightarrow> 'a \<Rightarrow> 'k::linorder"
    and ins :: "'a \<Rightarrow> 's \<Rightarrow> 's" and pop :: "'s \<Rightarrow> 'a \<times> 's"
  assumes ins_law: "inv s xs \<Longrightarrow> ok x \<Longrightarrow> x \<notin> set xs \<Longrightarrow> inv (ins x s) (ins_after (keyf s) x xs)"
    and ins_key: "inv s xs \<Longrightarrow> ok x \<Longrightarrow> x \<notin> set xs \<Longrightarrow> keyf (ins x s) = keyf s"
    and pop_law: "inv s (x # xs) \<Longrightarrow> fst (pop s) = x \<and> inv (snd (pop s)) xs"
begin

lemma ins_all:
  assumes "inv s xs" and "distinct (xs @ ys)" and "\<forall>y \<in> set ys. ok y"
  shows "inv (fold ins ys s) (fold (ins_after (keyf s)) ys xs)"
  using assms
proof (induction ys arbitrary: s xs)
  case (Cons y ys)
  have "inv (fold ins ys (ins y s)) (fold (ins_after (keyf (ins y s))) ys (ins_after (keyf s) y xs))"
    by (rule Cons.IH) (use Cons.prems in \<open>auto intro: ins_law\<close>)
  moreover have "keyf (ins y s) = keyf s" using Cons.prems by (intro ins_key) auto
  ultimately show ?case by simp
qed simp

lemma pop_all:
  "inv s xs \<Longrightarrow> fst (pop_n pop (length xs) s) = xs \<and> inv (snd (pop_n pop (length xs) s)) []"
proof (induction xs arbitrary: s)
  case (Cons x xs)
  obtain s' where s': "pop s = (x, s')" "inv s' xs" using pop_law [OF Cons.prems] by (cases "pop s") auto
  with Cons.IH [OF s'(2)] show ?case by (auto split: prod.splits)
qed simp

lemma drain_sorted:
  assumes "inv s []" and "distinct ys" and "\<forall>y \<in> set ys. ok y"
  shows "fst (pop_n pop (length ys) (fold ins ys s)) = sort_key (keyf s) ys"
  using pop_all [OF ins_all [OF assms(1), of ys]] assms(2,3) by (simp add: fold_ins_after_sort)

end

end
