(* ===== verification/Avl_Insert.thy ===== *)
theory Avl_Insert
  imports Avl_Repr Prio_Queue
begin

text \<open>
  Insertion into the array-backed AVL tree.  The retrace loop of \<open>avl_tree_insert\<close> restores
  the balance whatever rotation it ends with, the descent stops at the slot behind all keys
  that are not larger, and the two together insert into the in-order sequence of the tree
  at that position.
\<close>

section \<open>The retrace after an insertion\<close>

definition retraced :: "nat \<Rightarrow> avl_state \<Rightarrow> u32 tree \<Rightarrow> avl_state \<Rightarrow> bool" where
  "retraced N s u s' \<longleftrightarrow> (\<exists>v. tree_at N (snd s') 0 v (root (fst s')) \<and> inorder v = inorder u
     \<and> bal_ok (snd s') v \<and> height v \<le> height u) \<and> fst s' = (fst s)\<lparr>root := root (fst s')\<rparr>
     \<and> (\<forall>n. n \<notin> set_tree u \<longrightarrow> snd s' n = snd s n)"

lemma height_plug_mono: "height s \<le> height u \<Longrightarrow> height (plug c s) \<le> height (plug c u)"
proof (induction c arbitrary: s u)
  case (Cons f c)
  then show ?case by (cases f) (auto intro!: Cons.IH simp: max_def)
qed simp

lemma retracedI:
  assumes "ctx_at N h' (root t') c p i" "tree_at N h' p v i" "inorder (plug c v) = inorder u"
    "ctx_bal h' c (height v)" "bal_ok h' v" "height (plug c v) \<le> height u" "t' = t\<lparr>root := root t'\<rparr>" "\<And>n. n \<notin> set_tree u \<Longrightarrow> h' n = h n"
  shows "retraced N (t, h) u (t', h')"
  using assms tree_at_plug [of N h' c v "root t'"] bal_ok_plug [of h' c v]
  by (auto simp: retraced_def)


lemma retraced_balance:
  "retraced N (t, set_balance m b h) u s' \<Longrightarrow> m \<in> set_tree u \<Longrightarrow> retraced N (t, h) u s'"
  unfolding retraced_def by (auto simp: set_balance_def split: if_splits)

text \<open>The final step of the loop: the rotation and the relinking.\<close>

lemma insert_rotate_at:
  assumes c: "ctx_at N h (root t) c p m" and tr: "tree_at N h p u m"
    and d: "distinct (inorder (plug c u))"
    and rot: "\<exists>s. tree_at N (set_parent str p h1) p s str \<and> s \<noteq> Leaf \<and> inorder s = inorder u \<and> bal_ok h1 s
      \<and> height s = k \<and> (\<forall>n. n \<notin> set_tree u \<longrightarrow> h1 n = h n)"
    and k: "ctx_bal h c k" and hk: "k \<le> height u"
  shows "retraced N (t, h) (plug c u) (fst (avl_link_str p (avl_id_to_node N p) m str (t, h1)))"
proof -
  obtain t' h' b where l: "avl_link_str p (avl_id_to_node N p) m str (t, h1) = ((t', h'), b)"
    by (metis surj_pair)
  obtain s where s: "tree_at N (set_parent str p h1) p s str" "s \<noteq> Leaf" "inorder s = inorder u"
    "bal_ok h1 s" "height s = k" "\<forall>n. n \<notin> set_tree u \<longrightarrow> h1 n = h n" using rot by blast
  note r = relink_rotated [OF c tr d s(1-4,6) l]
  show ?thesis unfolding l fst_conv
    by (rule retracedI [OF r(2,1) _ _ r(5) _ r(4,7)])
      (use s k hk r(6) in \<open>auto intro: inorder_plug_cong height_plug_mono\<close>)
qed

lemma insert_retrace_at:
  assumes "ctx_at N h (root t) c x z" and "tree_at N h x v z" and "v \<noteq> Leaf"
    and "distinct (inorder (plug c v))" and "bal_ok h v" and "ctx_bal h c (height v - 1)"
    and "height v = 1 \<or> balance (h z) \<noteq> 0" and "length c \<le> fuel"
  shows "retraced N (t, h) (plug c v) (avl_insert_retrace N fuel (avl_id_to_node N x) x z z (t, h))"
  using assms
proof (induction c arbitrary: h x z v fuel)
  case Nil
  then have "avl_insert_retrace N fuel (avl_id_to_node N x) x z z (t, h) = (t, h)"
    by (cases fuel) auto
  with Nil show ?case by (auto simp: retraced_def)
next
  case (Cons f c)
  obtain n where fuel: "fuel = Suc n" using Cons.prems by (cases fuel) auto
  have z: "z \<in> set_tree v" "z \<noteq> 0" using Cons.prems(2,3) by (cases v; auto)+
  have hv: "height v \<ge> 1" using Cons.prems(3) by (cases v) auto
  show ?case
  proof (cases f)
    case (LFr m r)
    let ?u = "Node v m r" and ?p = "parent_id (h m)"
    have m: "x = m" "node_ok N m" "left_id (h m) = z" "ctx_at N h (root t) c ?p m"
      "tree_at N h ?p ?u m" "m \<noteq> 0" using Cons.prems LFr by auto
    have d: "distinct (inorder (plug c ?u))" using Cons.prems LFr by simp
    have du: "distinct (inorder ?u)" "m \<notin> ctx_set c" "m \<notin> set_tree v" "m \<notin> set_tree r"
      using distinct_plug [OF d] by auto
    have b: "balance (h m) = int (height r) - int (height v - 1)" "\<bar>balance (h m)\<bar> \<le> 1"
      "bal_ok h v" "bal_ok h r" "ctx_bal h c (Suc (max (height v - 1) (height r)))"
      using Cons.prems LFr by auto
    consider "balance (h m) = 0" | "balance (h m) = 1" | "balance (h m) = -1" using b(2) by linarith
    then show ?thesis
    proof cases
      case 1
      let ?h = "set_balance m (-1) h"
      have hr: "height r = height v - 1" using b(1) 1 by linarith
      have k: "ctx_bal h c (height v)" using b(5) hr hv by simp
      have "retraced N (t, ?h) (plug c ?u) (avl_insert_retrace N n (avl_id_to_node N ?p) ?p m m (t, ?h))"
        by (rule Cons.IH) (use m d du b(3,4) hr k hv Cons.prems(8) fuel LFr in \<open>auto simp: max_def\<close>)
      then have "retraced N (t, h) (plug c ?u) (avl_insert_retrace N n (avl_id_to_node N ?p) ?p m m (t, ?h))"
        by (rule retraced_balance) (simp add: set_tree_plug)
      then show ?thesis using m 1 fuel LFr by (simp add: Let_def)
    next
      case 2
      have "retraced N (t, h) (plug c ?u) (t, set_balance m 0 h)"
        by (rule retracedI [of _ _ _ c ?p m ?u])
          (use m du b 2 hv in \<open>auto simp: max_def set_tree_plug set_balance_other\<close>)
      then show ?thesis using m 2 fuel LFr by (simp add: Let_def)
    next
      case 3
      have ht: "height v = height r + 2" using b(1) 3 hv by linarith
      obtain str h1 where rot: "(if balance (h z) \<le> 0 then avl_rotate_right N m z h
        else avl_rotate_left_right N m z h) = (str, h1)" by (metis surj_pair)
      have bz: "balance (h z) \<noteq> 0" using Cons.prems(7) ht by auto
      have "ctx_bal h c (height v)" using b(5) ht by (simp add: max_def)
      then have "retraced N (t, h) (plug c ?u) (fst (avl_link_str ?p (avl_id_to_node N ?p) m str (t, h1)))"
        using rotate_left_heavy [OF m(5) du(1) b(3,4) ht m(3) [symmetric] rot, of ?p] bz
        by (intro insert_rotate_at [OF m(4,5) d]) auto
      then show ?thesis using m 3 fuel LFr rot by (simp add: Let_def)
    qed
  next
    case (RFr l m)
    let ?u = "Node l m v" and ?p = "parent_id (h m)"
    have m: "x = m" "node_ok N m" "right_id (h m) = z" "ctx_at N h (root t) c ?p m"
      "tree_at N h ?p ?u m" "m \<noteq> 0" using Cons.prems RFr by auto
    have d: "distinct (inorder (plug c ?u))" using Cons.prems RFr by simp
    have du: "distinct (inorder ?u)" "m \<notin> ctx_set c" "m \<notin> set_tree v" "m \<notin> set_tree l"
      using distinct_plug [OF d] by auto
    have lz: "left_id (h m) \<noteq> z" using m(5) du(1) z tree_at_root [of N h m l "left_id (h m)"] by auto
    have b: "balance (h m) = int (height v - 1) - int (height l)" "\<bar>balance (h m)\<bar> \<le> 1"
      "bal_ok h v" "bal_ok h l" "ctx_bal h c (Suc (max (height l) (height v - 1)))"
      using Cons.prems RFr by auto
    consider "balance (h m) = 0" | "balance (h m) = -1" | "balance (h m) = 1" using b(2) by linarith
    then show ?thesis
    proof cases
      case 1
      let ?h = "set_balance m 1 h"
      have hl: "height l = height v - 1" using b(1) 1 by linarith
      have k: "ctx_bal h c (height v)" using b(5) hl hv by simp
      have "retraced N (t, ?h) (plug c ?u) (avl_insert_retrace N n (avl_id_to_node N ?p) ?p m m (t, ?h))"
        by (rule Cons.IH) (use m d du b(3,4) hl k hv Cons.prems(8) fuel RFr in \<open>auto simp: max_def\<close>)
      then have "retraced N (t, h) (plug c ?u) (avl_insert_retrace N n (avl_id_to_node N ?p) ?p m m (t, ?h))"
        by (rule retraced_balance) (simp add: set_tree_plug)
      then show ?thesis using m lz 1 fuel RFr by (simp add: Let_def)
    next
      case 2
      have hl: "height l = height v" using b(1) 2 hv by linarith
      have k: "ctx_bal h c (Suc (height v))" using b(5) hl by simp
      have "retraced N (t, h) (plug c ?u) (t, set_balance m 0 h)"
        by (rule retracedI [of _ _ _ c ?p m ?u])
          (use m du b(3,4) hl k in \<open>auto simp: max_def set_tree_plug set_balance_other\<close>)
      then show ?thesis using m lz 2 fuel RFr by (simp add: Let_def)
    next
      case 3
      have ht: "height v = height l + 2" using b(1) 3 hv by linarith
      obtain str h1 where rot: "(if balance (h z) \<ge> 0 then avl_rotate_left N m z h
        else avl_rotate_right_left N m z h) = (str, h1)" by (metis surj_pair)
      have bz: "balance (h z) \<noteq> 0" using Cons.prems(7) ht by auto
      have "ctx_bal h c (height v)" using b(5) ht by (simp add: max_def)
      then have "retraced N (t, h) (plug c ?u) (fst (avl_link_str ?p (avl_id_to_node N ?p) m str (t, h1)))"
        using rotate_right_heavy [OF m(5) du(1) b(4,3) ht m(3) [symmetric] rot, of ?p] bz
        by (intro insert_rotate_at [OF m(4,5) d]) auto
      then show ?thesis using m lz 3 fuel RFr rot by (simp add: Let_def)
    qed
  qed
qed

section \<open>What the structural updates leave alone\<close>

definition same_data :: "avl_nodes \<Rightarrow> avl_nodes \<Rightarrow> bool" where
  "same_data h h' \<longleftrightarrow> (\<forall>n. key (h' n) = key (h n) \<and> is_orphan (h' n) = is_orphan (h n)
     \<and> prev_orphan_id (h' n) = prev_orphan_id (h n) \<and> next_orphan_id (h' n) = next_orphan_id (h n))"

lemma same_data_refl [simp]: "same_data h h"
  by (simp add: same_data_def)

lemma same_data_trans: "same_data h h' \<Longrightarrow> same_data h' h'' \<Longrightarrow> same_data h h''"
  by (simp add: same_data_def)

lemma same_data_setters [simp]:
  "same_data h (set_left x v h') = same_data h h'" "same_data h (set_right x v h') = same_data h h'"
  "same_data h (set_parent x v h') = same_data h h'" "same_data h (set_balance x b h') = same_data h h'"
  by (simp_all add: same_data_def)

lemma same_data_rotate:
  "same_data h (snd (avl_rotate_left N x z h))" "same_data h (snd (avl_rotate_right N x z h))"
  "same_data h (snd (avl_rotate_right_left N x z h))" "same_data h (snd (avl_rotate_left_right N x z h))"
  by (simp_all add: avl_rotate_left_def avl_rotate_right_def avl_rotate_right_left_def
      avl_rotate_left_right_def Let_def)

lemma same_data_link: "same_data h (snd (fst (avl_link_str p xp x str (t, h))))"
  by (simp add: avl_link_str_def Let_def)

lemma same_data_rebalance:
  "(str, h') = (if b then (if c then avl_rotate_right N x z h else avl_rotate_left_right N x z h)
     else (if d then avl_rotate_left N x z h else avl_rotate_right_left N x z h)) \<Longrightarrow> same_data h h'"
  using same_data_rotate [of h N x z] by (metis snd_conv)

lemma same_data_insert_retrace: "same_data h (snd (avl_insert_retrace N n x x_id z z_id (t, h)))"
proof (induction n arbitrary: x x_id z z_id h)
  case (Suc n)
  obtain str h' where rot: "(str, h') = (if left_id (h x) = z_id
      then (if balance (h z) \<le> 0 then avl_rotate_right N x z h else avl_rotate_left_right N x z h)
      else (if balance (h z) \<ge> 0 then avl_rotate_left N x z h else avl_rotate_right_left N x z h))"
    by (metis surj_pair)
  have "same_data h (snd (fst (avl_link_str p xp x_id str (t, h'))))" for p xp
    using same_data_rebalance [OF rot] same_data_link by (rule same_data_trans)
  moreover have "same_data h (snd (avl_insert_retrace N n x2 x2_id z2 z2_id (t, set_balance x b h)))"
    for x2 x2_id z2 z2_id b
    by (rule same_data_trans [OF _ Suc.IH]) simp
  ultimately show ?case by (simp add: Let_def rot [symmetric])
qed simp

section \<open>The descent to the insertion point\<close>

fun ctx_left :: "frame list \<Rightarrow> u32 list" where
  "ctx_left [] = []"
| "ctx_left (LFr n r # c) = ctx_left c"
| "ctx_left (RFr l n # c) = ctx_left c @ inorder l @ [n]"

fun ctx_right :: "frame list \<Rightarrow> u32 list" where
  "ctx_right [] = []"
| "ctx_right (LFr n r # c) = n # inorder r @ ctx_right c"
| "ctx_right (RFr l n # c) = ctx_right c"

lemma inorder_plug: "inorder (plug c t) = ctx_left c @ inorder t @ ctx_right c"
  by (induction c t rule: plug.induct) auto

lemma ctx_set_lists: "ctx_set c = set (ctx_left c) \<union> set (ctx_right c)"
  by (induction c rule: ctx_set.induct) auto

fun head_left :: "frame list \<Rightarrow> bool" where
  "head_left (LFr n r # c) = True"
| "head_left _ = False"

lemma insert_descend_at:
  assumes "ctx_at N h rt c x i" and "tree_at N h x v i"
    and "sorted (map (\<lambda>n. key (h n)) (inorder v))"
    and "\<forall>n \<in> set (ctx_left c). key (h n) \<le> k" and "\<forall>n \<in> set (ctx_right c). k < key (h n)"
    and "avl_insert_descend N h k fuel (i, x, x, head_left c) = (i', x', x_id', lf)"
  shows "\<exists>c' v'. plug c' v' = plug c v \<and> ctx_at N h rt c' x' i' \<and> tree_at N h x' v' i' \<and> x_id' = x'
     \<and> lf = head_left c' \<and> length c' \<le> length c + fuel \<and> (v' \<noteq> Leaf \<longrightarrow> length c' = length c + fuel)
     \<and> (\<forall>n \<in> set (ctx_left c'). key (h n) \<le> k) \<and> (\<forall>n \<in> set (ctx_right c'). k < key (h n))"
  using assms
proof (induction fuel arbitrary: c x i v)
  case 0
  then show ?case by auto
next
  case (Suc fuel)
  show ?case
  proof (cases v)
    case Leaf
    then have "avl_insert_descend N h k (Suc fuel) (i, x, x, head_left c) = (i, x, x, head_left c)"
      using Suc.prems(2) by simp
    then have "(i', x', x_id', lf) = (i, x, x, head_left c)" using Suc.prems(6) by metis
    then have "i' = i" "x' = x" "x_id' = x" "lf = head_left c" by (simp_all only: prod.inject)
    with Suc.prems(1-5) Leaf show ?thesis by (intro exI [of _ c] exI [of _ v]) simp
  next
    case (Node l m r)
    have m: "i = m" "m \<noteq> 0" "avl_id_to_node N m = m" "tree_at N h m l (left_id (h m))"
      "tree_at N h m r (right_id (h m))" "parent_id (h m) = x" "node_ok N m"
      using Suc.prems(2) Node by auto
    have s: "sorted (map (\<lambda>n. key (h n)) (inorder l))" "sorted (map (\<lambda>n. key (h n)) (inorder r))"
      "\<forall>n \<in> set_tree l. key (h n) \<le> key (h m)" "\<forall>n \<in> set_tree r. key (h m) \<le> key (h n)"
      using Suc.prems(3) Node by (auto simp: sorted_append)
    show ?thesis
    proof (cases "k < key (h m)")
      case True
      have "ctx_at N h rt (LFr m r # c) m (left_id (h m))" using Suc.prems(1) m by simp
      moreover have "avl_insert_descend N h k fuel (left_id (h m), m, m, head_left (LFr m r # c))
          = (i', x', x_id', lf)" using Suc.prems(6) True m by (simp add: Let_def)
      moreover have "\<forall>n \<in> set (ctx_right (LFr m r # c)). k < key (h n)"
        using Suc.prems(5) True s(4) by auto
      moreover have "\<forall>n \<in> set (ctx_left (LFr m r # c)). key (h n) \<le> k" using Suc.prems(4) by simp
      ultimately show ?thesis using Suc.IH [OF _ m(4) s(1), of "LFr m r # c"] Node by simp
    next
      case False
      have "ctx_at N h rt (RFr l m # c) m (right_id (h m))" using Suc.prems(1) m by simp
      moreover have "avl_insert_descend N h k fuel (right_id (h m), m, m, head_left (RFr l m # c))
          = (i', x', x_id', lf)" using Suc.prems(6) False m by (simp add: Let_def)
      moreover have "\<forall>n \<in> set (ctx_left (RFr l m # c)). key (h n) \<le> k"
        using Suc.prems(4) False s(3) by auto
      moreover have "\<forall>n \<in> set (ctx_right (RFr l m # c)). k < key (h n)" using Suc.prems(5) by simp
      ultimately show ?thesis using Suc.IH [OF _ m(5) s(2), of "RFr l m # c"] Node by simp
    qed
  qed
qed


lemma fill_hole:
  assumes "ctx_at N h rt c x i" and "c \<noteq> []" and "distinct (inorder (plug c Leaf))" and "n \<notin> ctx_set c"
  shows "ctx_at N (if head_left c then set_left x n h else set_right x n h) rt c x n"
proof -
  consider (l) m r c' where "c = LFr m r # c'" | (r) m l c' where "c = RFr l m # c'"
    using assms(2) by (metis list.exhaust frame.exhaust)
  then show ?thesis
  proof cases
    case l
    have "distinct (inorder (plug c' (Node Leaf m r)))" using assms(3) l by simp
    then have "m \<notin> set_tree r" "m \<notin> ctx_set c'" using distinct_plug [of c' "Node Leaf m r"] by auto
    then show ?thesis using l assms(1,4) by simp
  next
    case r
    have "distinct (inorder (plug c' (Node l m Leaf)))" using assms(3) r by simp
    then have "m \<notin> set_tree l" "m \<notin> ctx_set c'" using distinct_plug [of c' "Node l m Leaf"] by auto
    then show ?thesis using r assms(1,4) by simp
  qed
qed


section \<open>The state of a tree\<close>

definition tree_ok :: "nat \<Rightarrow> avl_state \<Rightarrow> u32 tree \<Rightarrow> bool" where
  "tree_ok N s v \<longleftrightarrow> tree_at N (snd s) 0 v (root (fst s)) \<and> bal_ok (snd s) v \<and> distinct (inorder v)
     \<and> sorted (map (\<lambda>n. key (snd s n)) (inorder v)) \<and> height v \<le> MAX_AVL_HEIGHT"

definition cache_ok :: "avl_state \<Rightarrow> u32 list \<Rightarrow> bool" where
  "cache_ok s xs \<longleftrightarrow> (if xs = [] then min_id (fst s) = 0 \<and> max_id (fst s) = 0
     else min_id (fst s) = hd xs \<and> min_key (fst s) = key (snd s (hd xs))
        \<and> max_id (fst s) = last xs \<and> max_key (fst s) = key (snd s (last xs)))"

fun ctx_height :: "frame list \<Rightarrow> nat" where
  "ctx_height [] = 0"
| "ctx_height (LFr n r # c) = max (Suc (length c + height r)) (ctx_height c)"
| "ctx_height (RFr l n # c) = max (Suc (length c + height l)) (ctx_height c)"

lemma height_plug: "height (plug c v) = max (length c + height v) (ctx_height c)"
  by (induction c v rule: plug.induct) (simp_all add: nat_add_max_right max.assoc del: max_Suc_Suc)

section \<open>The whole insertion\<close>

lemma insert_cache_ok:
  assumes "cache_ok (t, h) xs" and "sorted (map (\<lambda>n. key (h n)) xs)" and "xs \<noteq> []" and "0 \<notin> set xs"
  shows "cache_ok (avl_insert_cache n (t, h)) (ins_after (\<lambda>n. key (h n)) n xs)"
proof -
  let ?f = "\<lambda>n. key (h n)"
  have "hd (ins_after ?f n xs) = (if ?f n < ?f (hd xs) then n else hd xs)"
    using assms(3) by (cases xs) auto
  moreover have "last (ins_after ?f n xs) = (if ?f (last xs) \<le> ?f n then n else last xs)"
    using assms(2,3)
  proof (induction xs)
    case (Cons y ys)
    have ne: "ins_after ?f n ys \<noteq> []" by (cases ys) auto
    have "?f y \<le> ?f (last ys)" if "ys \<noteq> []" using Cons.prems that by simp
    then have "\<not> (?f n < ?f y \<and> ?f (last ys) \<le> ?f n)" if "ys \<noteq> []"
      using that by (meson leD order.trans)
    with Cons ne show ?case by (cases "ys = []") auto
  qed simp
  moreover have "min_id t \<noteq> 0" "max_id t \<noteq> 0"
    using assms hd_in_set [OF assms(3)] last_in_set [OF assms(3)] unfolding cache_ok_def by (metis fst_conv)+
  moreover have "ins_after ?f n xs \<noteq> []" by (cases xs) auto
  ultimately show ?thesis using assms(1,3) by (simp add: cache_ok_def avl_insert_cache_def Let_def)
qed

abbreviation fresh :: "u32 \<Rightarrow> avl_nodes \<Rightarrow> avl_nodes" where
  "fresh n h \<equiv> set_is_orphan n False (set_balance n 0 (set_right n 0 (set_left n 0 h)))"

definition inserted :: "nat \<Rightarrow> avl_state \<Rightarrow> u32 \<Rightarrow> u32 list \<Rightarrow> avl_state \<Rightarrow> bool" where
  "inserted N s n xs s' \<longleftrightarrow>
     (\<exists>v. tree_ok N s' v \<and> inorder v = ins_after (\<lambda>n. key (snd s n)) n xs) \<and>
     cache_ok s' (ins_after (\<lambda>n. key (snd s n)) n xs) \<and>
     first_orphan_id (fst s') = first_orphan_id (fst s) \<and> same_data (fresh n (snd s)) (snd s') \<and>
     (\<forall>m. m \<noteq> n \<and> m \<notin> set xs \<longrightarrow> snd s' m = snd s m)"

lemma insert_linked:
  assumes ok: "tree_ok N (t, h) v" and ca: "cache_ok (t, h) (inorder v)"
    and n: "node_ok N n" "n \<notin> set_tree v"
    and c: "plug c Leaf = v" "ctx_at N h (root t) c x 0" "c \<noteq> []" "length c < MAX_AVL_HEIGHT"
    and k: "\<forall>m \<in> set (ctx_left c). key (h m) \<le> key (h n)" "\<forall>m \<in> set (ctx_right c). key (h n) < key (h m)"
    and f: "left_id (h n) = 0" "right_id (h n) = 0" "balance (h n) = 0"
    and h2: "h2 = (if head_left c then set_left x n (set_parent n x h) else set_right x n (set_parent n x h))"
    and s': "s' = avl_insert_retrace N MAX_AVL_HEIGHT x x n n (t, h2)"
  shows "\<exists>w. tree_ok N s' w \<and> inorder w = ins_after (\<lambda>n. key (h n)) n (inorder v)"
    and "fst s' = t\<lparr>root := root (fst s')\<rparr>" and "same_data h (snd s')"
    and "\<And>m. m \<noteq> n \<Longrightarrow> m \<notin> set_tree v \<Longrightarrow> snd s' m = h m"
proof -
  let ?f = "\<lambda>n. key (h n)" and ?w = "Node Leaf n Leaf"
  have v: "tree_at N h 0 v (root t)" "bal_ok h v" "distinct (inorder v)" "sorted (map ?f (inorder v))"
    "height v \<le> MAX_AVL_HEIGHT" using ok by (auto simp: tree_ok_def)
  have nc: "n \<notin> ctx_set c" using n(2) c(1) set_tree_plug [of c Leaf] by auto
  have x: "x \<in> ctx_set c" "x \<noteq> n" using c(2,3) nc by (cases "(N, h, root t, c, x, 0::u32)" rule: ctx_at.cases; auto)+
  have c2: "ctx_at N h2 (root t) c x n"
    unfolding h2 by (rule fill_hole) (use c v nc in auto)
  have w2: "tree_at N h2 x ?w n" using n f x h2 by auto
  have io: "inorder (plug c ?w) = ins_after ?f n (inorder v)"
    using ins_after_split [OF k] c(1) by (auto simp: inorder_plug)
  have d: "distinct (inorder (plug c ?w))" unfolding io using v(3) n(2) by simp
  have b: "ctx_bal h c 0" using v(2) c(1) bal_ok_plug [of h c Leaf] by simp
  have "retraced N (t, h2) (plug c ?w) (avl_insert_retrace N MAX_AVL_HEIGHT (avl_id_to_node N x) x n n (t, h2))"
    by (rule insert_retrace_at [OF c2 w2 _ d]) (use b f c(4) h2 in auto)
  moreover have "avl_id_to_node N x = x" using ctx_at_parent [OF c(2)] by simp
  ultimately have R: "retraced N (t, h2) (plug c ?w) s'" using s' by simp
  have "same_data h h2" using h2 by simp
  then show sd: "same_data h (snd s')"
    unfolding s' using same_data_insert_retrace by (rule same_data_trans)
  then have kk: "(\<lambda>n. key (snd s' n)) = ?f" by (auto simp: same_data_def)
  have hp: "height (plug c ?w) \<le> MAX_AVL_HEIGHT"
    using v(5) c(1,4) height_plug [of c Leaf] height_plug [of c ?w] by simp
  show "\<exists>w. tree_ok N s' w \<and> inorder w = ins_after ?f n (inorder v)"
    using R hp io d sorted_ins_after [OF v(4)] by (auto simp: retraced_def tree_ok_def kk)
  show "fst s' = t\<lparr>root := root (fst s')\<rparr>" using R by (simp add: retraced_def)
  show "snd s' m = h m" if "m \<noteq> n" "m \<notin> set_tree v" for m
  proof -
    have "m \<notin> set_tree (plug c ?w)" "m \<noteq> x" using that c(1) x(1) by (auto simp: set_tree_plug)
    then show ?thesis using R that(1) h2
      by (auto simp: retraced_def set_left_other set_right_other set_parent_other)
  qed
qed


lemma tree_ok_fresh:
  assumes "n \<notin> set_tree v"
  shows "tree_ok N (t, fresh n h) v = tree_ok N (t, h) v"
    and "cache_ok (t, fresh n h) xs = cache_ok (t, h) xs"
  using assms by (simp_all add: tree_ok_def cache_ok_def)

lemma insert_cache_frame [simp]:
  "snd (avl_insert_cache n s) = snd s" "root (fst (avl_insert_cache n s)) = root (fst s)"
  "first_orphan_id (fst (avl_insert_cache n s)) = first_orphan_id (fst s)"
  "tree_ok N (avl_insert_cache n s) w = tree_ok N s w"
  by (cases s; simp add: avl_insert_cache_def tree_ok_def Let_def)+

lemma inserted_cache:
  assumes "cache_ok (t, h) xs" and "sorted (map (\<lambda>n. key (h n)) xs)" and "xs \<noteq> []" and "0 \<notin> set xs"
    and "\<exists>w. tree_ok N s' w \<and> inorder w = ins_after (\<lambda>n. key (h n)) n xs"
    and s': "fst s' = t\<lparr>root := root (fst s')\<rparr>" "same_data (fresh n h) (snd s')"
    and "\<And>m. m \<noteq> n \<Longrightarrow> m \<notin> set xs \<Longrightarrow> snd s' m = h m"
  shows "inserted N (t, h) n xs (avl_insert_cache n s')"
proof -
  have k: "key (snd s' m) = key (h m)" for m using s'(2) by (simp add: same_data_def)
  have "min_id (fst s') = min_id t" "min_key (fst s') = min_key t" "max_id (fst s') = max_id t"
    "max_key (fst s') = max_key t" "first_orphan_id (fst s') = first_orphan_id t"
    by (subst s'(1); simp)+
  note f = this
  have "cache_ok (fst s', snd s') xs" using assms(1) f by (auto simp: cache_ok_def k split: if_splits)
  from insert_cache_ok [OF this] assms(2-4) have "cache_ok (avl_insert_cache n s') (ins_after (\<lambda>n. key (h n)) n xs)"
    by (simp add: k)
  then show ?thesis using assms(5,7,8) f by (simp add: inserted_def)
qed

lemma tree_insert_at:
  assumes ok: "tree_ok N (t, h) v" and ca: "cache_ok (t, h) (inorder v)"
    and n: "node_ok N n" "n \<notin> set_tree v"
  shows "inserted N (t, h) n (inorder v) (avl_tree_insert N n (t, h))
    \<or> (MAX_AVL_HEIGHT \<le> height v \<and> avl_tree_insert N n (t, h) = insert_orphan N n (t, set_is_orphan n True (fresh n h)))"
proof -
  let ?h = "fresh n h" and ?f = "\<lambda>n. key (h n)"
  have ok1: "tree_ok N (t, ?h) v" "cache_ok (t, ?h) (inorder v)" 
    using ok ca tree_ok_fresh [OF n(2)] by blast+
  obtain i x x_id lf where D: "avl_insert_descend N ?h (key (?h n)) (MAX_AVL_HEIGHT - 1) (root t, 0, 0, head_left [])
    = (i, x, x_id, lf)" by (metis prod_cases4)
  have "tree_at N ?h 0 v (root t)" "sorted (map (\<lambda>n. key (?h n)) (inorder v))" "ctx_at N ?h (root t) [] 0 (root t)"
    using ok1 by (auto simp: tree_ok_def)
  from insert_descend_at [OF this(3,1,2) _ _ D]
  obtain c w where c: "plug c w = v" "ctx_at N ?h (root t) c x i" "tree_at N ?h x w i" "x_id = x"
    "lf = head_left c" "length c \<le> MAX_AVL_HEIGHT - 1" "w \<noteq> Leaf \<longrightarrow> length c = MAX_AVL_HEIGHT - 1"
    "\<forall>m \<in> set (ctx_left c). key (?h m) \<le> key (?h n)" "\<forall>m \<in> set (ctx_right c). key (?h n) < key (?h m)"
    by auto
  note ins = avl_tree_insert_def Let_def D [simplified]
  show ?thesis
  proof (cases "i = 0")
    case False
    then have "w \<noteq> Leaf" using c(3) by auto
    then have "MAX_AVL_HEIGHT \<le> height v"
      using c(1,7) height_plug [of c w] by (cases w) (auto simp: MAX_AVL_HEIGHT_def)
    then show ?thesis using False by (simp add: ins)
  next
    case True
    then have w: "w = Leaf" using c(3) by (cases w) auto
    show ?thesis
    proof (cases "x = 0")
      case x: True
      then have v: "v = Leaf" using ctx_at_parent [OF c(2)] c(1) w by simp
      let ?t = "t\<lparr>root := n, min_id := n, min_key := key (h n), max_id := n, max_key := key (h n)\<rparr>"
      have "avl_tree_insert N n (t, h) = (?t, set_parent n 0 ?h)" using True x c(4) by (simp add: ins)
      moreover have "tree_ok N (?t, set_parent n 0 ?h) (Node Leaf n Leaf)"
        using n(1) by (auto simp: tree_ok_def MAX_AVL_HEIGHT_def)
      ultimately show ?thesis using v
        by (auto simp: inserted_def cache_ok_def set_parent_other set_left_other set_right_other
            set_balance_other set_is_orphan_other intro!: exI [of _ "Node Leaf n Leaf"])
    next
      case x: False
      define s' where "s' = avl_insert_retrace N MAX_AVL_HEIGHT x x n n (t, if head_left c then set_left x n (set_parent n x ?h)
        else set_right x n (set_parent n x ?h))"
      have c0: "c \<noteq> []" using ctx_at_parent [OF c(2)] x by simp
      moreover have "length c < MAX_AVL_HEIGHT" using c(6) by (simp add: MAX_AVL_HEIGHT_def)
      ultimately have L: "\<exists>w. tree_ok N s' w \<and> inorder w = ins_after ?f n (inorder v)"
        "fst s' = t\<lparr>root := root (fst s')\<rparr>" "same_data ?h (snd s')"
        "\<And>m. m \<noteq> n \<Longrightarrow> m \<notin> set_tree v \<Longrightarrow> snd s' m = ?h m"
        using insert_linked [OF ok1 n c(1) [unfolded w] c(2) [unfolded True] _ _ c(8,9) _ _ _ refl s'_def] by auto
      have e: "avl_tree_insert N n (t, h) = avl_insert_cache n s'"
        using True x c(4,5) by (simp add: ins s'_def)
      have "v \<noteq> Leaf" using c(1) c0 w set_tree_plug [of c Leaf] x by (cases c rule: ctx_set.cases) auto
      then have "inserted N (t, h) n (inorder v) (avl_insert_cache n s')"
        using ok tree_at_0 [of N h 0 v] L
        by (intro inserted_cache [OF ca]) (auto simp: tree_ok_def set_left_other set_right_other
            set_balance_other set_is_orphan_other)
      then show ?thesis using e by simp
    qed
  qed
qed

end
