(* ===== verification/Avl_Walk.thy ===== *)
theory Avl_Walk
  imports Avl_Insert
begin

text \<open>
  The walks over the tree: the smallest and the largest node of a subtree, the in-order
  successor and predecessor of a node, and the lookup of a key.
\<close>

definition hd_id :: "u32 list \<Rightarrow> u32" where
  "hd_id xs = (case xs of [] \<Rightarrow> 0 | x # _ \<Rightarrow> x)"

lemma hd_id_simps [simp]: "hd_id [] = 0" "hd_id (x # xs) = x"
  by (simp_all add: hd_id_def)

lemma hd_id_append: "hd_id (xs @ ys) = (if xs = [] then hd_id ys else hd_id xs)"
  by (cases xs) auto

lemma min_loop_at:
  "tree_at N h p v i \<Longrightarrow> height v \<le> n \<Longrightarrow> avl_min_loop N h n i = hd_id (inorder v)"
proof (induction n arbitrary: p v i)
  case (Suc n)
  show ?case
  proof (cases v)
    case (Node l m r)
    have l: "tree_at N h m l (left_id (h m))" "height l \<le> n" using Suc.prems Node by auto
    then have "avl_min_loop N h n (left_id (h m)) = hd_id (inorder l)" by (rule Suc.IH)
    moreover have "left_id (h m) = 0 \<longleftrightarrow> inorder l = []" using l(1) by (cases l) auto
    ultimately show ?thesis using Suc.prems Node tree_at_id_to_node [OF l(1)] by (auto simp: hd_id_append)
  qed (use Suc.prems in simp)
qed (cases "inorder v"; auto)

lemma max_loop_at:
  "tree_at N h p v i \<Longrightarrow> height v \<le> n \<Longrightarrow> avl_max_loop N h n i = hd_id (rev (inorder v))"
proof (induction n arbitrary: p v i)
  case (Suc n)
  show ?case
  proof (cases v)
    case (Node l m r)
    have r: "tree_at N h m r (right_id (h m))" "height r \<le> n" using Suc.prems Node by auto
    then have "avl_max_loop N h n (right_id (h m)) = hd_id (rev (inorder r))" by (rule Suc.IH)
    moreover have "right_id (h m) = 0 \<longleftrightarrow> inorder r = []" using r(1) by (cases r) auto
    ultimately show ?thesis using Suc.prems Node tree_at_id_to_node [OF r(1)] by (auto simp: hd_id_append)
  qed (use Suc.prems in simp)
qed (cases "inorder v"; auto)

text \<open>Walking up from a node whose subtree has no successor in it.\<close>

lemma next_up_at:
  assumes "ctx_at N h rt c (parent_id (h x)) x" and "x \<noteq> 0" and "x \<notin> ctx_set c"
    and "distinct (inorder (plug c Leaf))" and "length c \<le> n"
  shows "avl_next_up N h n x x = hd_id (ctx_right c)"
  using assms
proof (induction c arbitrary: x n)
  case Nil
  then show ?case by (cases n) (auto simp: Let_def)
next
  case (Cons f c)
  obtain k where n: "n = Suc k" using Cons.prems by (cases n) auto
  show ?case
  proof (cases f)
    case (LFr m r)
    then show ?thesis using Cons.prems n by (auto simp: Let_def)
  next
    case (RFr l m)
    have m: "parent_id (h x) = m" "node_ok N m" "right_id (h m) = x" "ctx_at N h rt c (parent_id (h m)) m"
      "tree_at N h m l (left_id (h m))" using Cons.prems RFr by auto
    have d: "m \<notin> ctx_set c" "distinct (inorder (plug c Leaf))"
      using distinct_plug [of c "Node l m Leaf"] Cons.prems(4) RFr by (auto simp: inorder_plug)
    have "left_id (h m) \<noteq> x" using tree_at_root [OF m(5)] Cons.prems(2,3) RFr by auto
    then show ?thesis using m d Cons.IH [OF m(4) _ d, of k] Cons.prems(5) n RFr by (auto simp: Let_def)
  qed
qed

lemma prev_up_at:
  assumes "ctx_at N h rt c (parent_id (h x)) x" and "x \<noteq> 0" and "x \<notin> ctx_set c"
    and "distinct (inorder (plug c Leaf))" and "length c \<le> n"
  shows "avl_prev_up N h n x x = hd_id (rev (ctx_left c))"
  using assms
proof (induction c arbitrary: x n)
  case Nil
  then show ?case by (cases n) (auto simp: Let_def)
next
  case (Cons f c)
  obtain k where n: "n = Suc k" using Cons.prems by (cases n) auto
  show ?case
  proof (cases f)
    case (RFr l m)
    then show ?thesis using Cons.prems n by (auto simp: Let_def)
  next
    case (LFr m r)
    have m: "parent_id (h x) = m" "node_ok N m" "left_id (h m) = x" "ctx_at N h rt c (parent_id (h m)) m"
      "tree_at N h m r (right_id (h m))" using Cons.prems LFr by auto
    have d: "m \<notin> ctx_set c" "distinct (inorder (plug c Leaf))"
      using distinct_plug [of c "Node Leaf m r"] Cons.prems(4) LFr by (auto simp: inorder_plug)
    have "right_id (h m) \<noteq> x" using tree_at_root [OF m(5)] Cons.prems(2,3) LFr by auto
    then show ?thesis using m d Cons.IH [OF m(4) _ d, of k] Cons.prems(5) n LFr by (auto simp: Let_def)
  qed
qed

lemma plug_append: "plug (c @ d) u = plug d (plug c u)"
  by (induction c u rule: plug.induct) auto

lemma tree_member_plug: "m \<in> set_tree v \<Longrightarrow> \<exists>c l r. v = plug c (Node l m r)"
proof (induction v)
  case (Node a x b)
  then consider "m = x" | (l) c l r where "a = plug c (Node l m r)" | (r) c l r where "b = plug c (Node l m r)"
    by auto
  then show ?case
  proof cases
    case 1
    then have "Node a x b = plug [] (Node a m b)" by simp
    then show ?thesis by blast
  next
    case l
    then have "Node a x b = plug (c @ [LFr x b]) (Node l m r)" by (simp add: plug_append)
    then show ?thesis by blast
  next
    case r
    then have "Node a x b = plug (c @ [RFr a x]) (Node l m r)" by (simp add: plug_append)
    then show ?thesis by blast
  qed
qed simp

lemma tree_node_at:
  assumes "tree_ok N (t, h) (plug c (Node l m r))"
  shows "ctx_at N h (root t) c (parent_id (h m)) m" and "tree_at N h (parent_id (h m)) (Node l m r) m"
    and "m \<notin> ctx_set c" and "distinct (inorder (plug c Leaf))" and "m \<noteq> 0"
    and "length c < MAX_AVL_HEIGHT" and "height l < MAX_AVL_HEIGHT" and "height r < MAX_AVL_HEIGHT"
proof -
  let ?v = "plug c (Node l m r)"
  have ok: "tree_at N h 0 ?v (root t)" "distinct (inorder ?v)" "height ?v \<le> MAX_AVL_HEIGHT"
    using assms by (simp_all add: tree_ok_def)
  show at: "ctx_at N h (root t) c (parent_id (h m)) m" "tree_at N h (parent_id (h m)) (Node l m r) m"
    using ok(1) unfolding tree_at_plug by auto
  show "m \<notin> ctx_set c" using distinct_plug [OF ok(2)] by auto
  show "distinct (inorder (plug c Leaf))" using ok(2) by (auto simp: inorder_plug)
  show "m \<noteq> 0" using at(2) by auto
  show "length c < MAX_AVL_HEIGHT" "height l < MAX_AVL_HEIGHT" "height r < MAX_AVL_HEIGHT"
    using ok(3) by (auto simp: height_plug)
qed

lemma inorder_split:
  assumes "distinct (inorder v)" and "inorder v = xs @ m # ys" and "v = plug c (Node l m r)"
  shows "xs = ctx_left c @ inorder l" and "ys = inorder r @ ctx_right c"
proof -
  have e: "xs @ m # ys = (ctx_left c @ inorder l) @ m # (inorder r @ ctx_right c)"
    using assms(2,3) by (simp add: inorder_plug)
  have "distinct (xs @ m # ys)" using assms(1,2) by simp
  then have "m \<notin> set xs" "m \<notin> set ys" by auto
  from append_Cons_eq_iff [OF this, of "ctx_left c @ inorder l"] e
  show "xs = ctx_left c @ inorder l" "ys = inorder r @ ctx_right c" by auto
qed

lemma next_node_at:
  assumes "tree_ok N (t, h) v" and "inorder v = xs @ m # ys"
  shows "avl_next_node N h m = hd_id ys"
proof -
  have "m \<in> set_tree v" using assms(2) by (metis in_set_conv_decomp set_inorder)
  then obtain c l r where v: "v = plug c (Node l m r)" using tree_member_plug by blast
  note n = tree_node_at [OF assms(1) [unfolded v]]
  have "distinct (inorder v)" using assms(1) by (simp add: tree_ok_def)
  then have "ys = inorder r @ ctx_right c" using assms(2) v by (rule inorder_split)
  moreover have "tree_at N h m r (right_id (h m))" using n(2) by simp
  moreover from this have "right_id (h m) = 0 \<longleftrightarrow> inorder r = []" by (cases r) auto
  ultimately show ?thesis
    using next_up_at [OF n(1,5,3,4), of MAX_AVL_HEIGHT] n(5,6,8) min_loop_at [of N h m r "right_id (h m)" MAX_AVL_HEIGHT]
    by (auto simp: avl_next_node_def avl_min_node_id_def avl_min_node_def hd_id_append tree_at_id_to_node)
qed

lemma prev_node_at:
  assumes "tree_ok N (t, h) v" and "inorder v = xs @ m # ys"
  shows "avl_prev_node N h m = hd_id (rev xs)"
proof -
  have "m \<in> set_tree v" using assms(2) by (metis in_set_conv_decomp set_inorder)
  then obtain c l r where v: "v = plug c (Node l m r)" using tree_member_plug by blast
  note n = tree_node_at [OF assms(1) [unfolded v]]
  have "distinct (inorder v)" using assms(1) by (simp add: tree_ok_def)
  then have "xs = ctx_left c @ inorder l" using assms(2) v by (rule inorder_split)
  moreover have "tree_at N h m l (left_id (h m))" using n(2) by simp
  moreover from this have "left_id (h m) = 0 \<longleftrightarrow> inorder l = []" by (cases l) auto
  ultimately show ?thesis
    using prev_up_at [OF n(1,5,3,4), of MAX_AVL_HEIGHT] n(5,6,7) max_loop_at [of N h m l "left_id (h m)" MAX_AVL_HEIGHT]
    by (auto simp: avl_prev_node_def avl_max_node_id_def avl_max_node_def hd_id_append tree_at_id_to_node)
qed

lemma lookup_loop_at:
  assumes "tree_at N h p v i" and "height v \<le> n" and "sorted (map (\<lambda>n. key (h n)) (inorder v))"
  shows "if \<exists>m \<in> set_tree v. key (h m) = k
    then avl_lookup_loop N h k n i \<in> set_tree v \<and> key (h (avl_lookup_loop N h k n i)) = k
    else avl_lookup_loop N h k n i = 0"
  using assms
proof (induction n arbitrary: p v i)
  case (Suc n)
  show ?case
  proof (cases v)
    case (Node l m r)
    have at: "i = m" "m \<noteq> 0" "tree_at N h m l (left_id (h m))" "tree_at N h m r (right_id (h m))"
      "height l \<le> n" "height r \<le> n" using Suc.prems Node by auto
    have s: "sorted (map (\<lambda>n. key (h n)) (inorder l))" "sorted (map (\<lambda>n. key (h n)) (inorder r))"
      "\<forall>n \<in> set_tree l. key (h n) \<le> key (h m)" "\<forall>n \<in> set_tree r. key (h m) \<le> key (h n)"
      using Suc.prems(3) Node by (auto simp: sorted_append)
    note ids = tree_at_id_to_node [OF at(3)] tree_at_id_to_node [OF at(4)]
    note IH = Suc.IH [OF at(3,5) s(1)] Suc.IH [OF at(4,6) s(2)]
    consider "key (h m) = k" | "k < key (h m)" | "key (h m) < k" by (metis linorder_cases)
    then show ?thesis
    proof cases
      case 1
      then show ?thesis using at Node by simp
    next
      case 2
      then have "(\<exists>q \<in> set_tree v. key (h q) = k) \<longleftrightarrow> (\<exists>q \<in> set_tree l. key (h q) = k)"
        using s(4) Node by (auto simp: leD)
      then show ?thesis using IH(1) 2 at ids Node by (auto split: if_splits)
    next
      case 3
      then have "(\<exists>q \<in> set_tree v. key (h q) = k) \<longleftrightarrow> (\<exists>q \<in> set_tree r. key (h q) = k)"
        using s(3) Node by (auto simp: leD)
      then show ?thesis using IH(2) 3 at ids Node by (auto split: if_splits)
    qed
  qed (use Suc.prems in simp)
qed (cases v; auto)

end
