(* ===== verification/Avl_Delete.thy ===== *)
theory Avl_Delete
  imports Avl_Walk
begin

text \<open>
  Deletion from the array-backed AVL tree: the retrace loop that absorbs a height loss, the
  removal of the node in its three shapes (a free child slot, the successor as right child,
  a deeper successor), and the cached minimum and maximum.
\<close>

section \<open>The retrace after a deletion\<close>

lemma retraced_trans:
  assumes "retraced N (t1, h1) u1 s'" and "inorder u1 = inorder u" and "height u1 \<le> height u"
    and "t1 = t\<lparr>root := root t1\<rparr>" and "\<And>n. n \<notin> set_tree u \<Longrightarrow> h1 n = h n"
  shows "retraced N (t, h) u s'"
proof -
  have "set_tree u1 = set_tree u" using assms(2) by (rule set_inorder_cong)
  moreover have "fst s' = t\<lparr>root := root (fst s')\<rparr>"
    using assms(1,4) by (auto simp: retraced_def) (metis avl_tree.update_convs(1) avl_tree.surjective)
  moreover obtain v where "tree_at N (snd s') 0 v (root (fst s'))" "inorder v = inorder u1" "bal_ok (snd s') v"
    "height v \<le> height u1" "\<forall>n. n \<notin> set_tree u1 \<longrightarrow> snd s' n = h1 n"
    using assms(1) by (auto simp: retraced_def)
  ultimately show ?thesis using assms(2,3,5) by (auto simp: retraced_def)
qed

lemma delete_retrace_stop:
  assumes "ctx_at N h (root t) c p i" and "tree_at N h p u i" and "m \<in> set_tree u" and "m \<notin> ctx_set c"
    and "bal_ok (set_balance m b h) u" and "ctx_bal h c (height u)"
  shows "retraced N (t, h) (plug c u) (t, set_balance m b h)"
  by (rule retracedI [of _ _ _ c p i u]) (use assms in \<open>auto simp: set_tree_plug intro!: set_balance_other\<close>)

lemma child_side:
  assumes "ctx_at N h rt c p m" and "c \<noteq> []" and "m \<noteq> 0" and "m \<notin> ctx_set c"
  shows "left_id (h p) = m \<longleftrightarrow> head_left c"
proof -
  consider n r c' where "c = LFr n r # c'" | n l c' where "c = RFr l n # c'"
    using assms(2) by (metis list.exhaust frame.exhaust)
  then show ?thesis
  proof cases
    case 1
    then show ?thesis using assms(1) by simp
  next
    case 2
    then have "tree_at N h n l (left_id (h n))" "p = n" using assms(1) by auto
    then show ?thesis using tree_at_root [of N h n l "left_id (h n)"] assms(3,4) 2 by auto
  qed
qed

lemma head_left_iff: "head_left c \<longleftrightarrow> (\<exists>n r c'. c = LFr n r # c')"
  by (cases c rule: head_left.cases) auto

text \<open>
  One rotation of the loop: the height loss is absorbed, or the loop goes on one frame
  further up, for which \<open>cont\<close> is the induction hypothesis of the loop.
\<close>

lemma delete_rotate_at:
  assumes c: "ctx_at N h (root t) c p m" and tr: "tree_at N h p u m" and d: "distinct (inorder (plug c u))"
    and rot: "\<exists>s. tree_at N (set_parent str p h1) p s str \<and> s \<noteq> Leaf \<and> inorder s = inorder u \<and> bal_ok h1 s
      \<and> height s = (if ab then k + 1 else k) \<and> (\<forall>n. n \<notin> set_tree u \<longrightarrow> h1 n = h n)"
    and k: "ctx_bal h c (Suc k)" "Suc k \<le> height u"
    and l: "avl_link_str p (avl_id_to_node N p) m str (t, h1) = ((t', h'), b)"
    and cont: "\<And>t h x i v fl. ctx_at N h (root t) c x i \<Longrightarrow> tree_at N h x v i \<Longrightarrow> distinct (inorder (plug c v))
      \<Longrightarrow> bal_ok h v \<Longrightarrow> ctx_bal h c (Suc (height v)) \<Longrightarrow> (c \<noteq> [] \<Longrightarrow> fl = head_left c)
      \<Longrightarrow> snd (avl_delete_retrace N n x x fl (t, h))
        \<and> retraced N (t, h) (plug c v) (fst (avl_delete_retrace N n x x fl (t, h)))"
    and res: "res = (if p = 0 then ((t', h'), True) else if ab then ((t', h'), True)
      else avl_delete_retrace N n p p b (t', h'))"
  shows "snd res \<and> retraced N (t, h) (plug c u) (fst res)"
proof -
  obtain s where s: "tree_at N (set_parent str p h1) p s str" "s \<noteq> Leaf" "inorder s = inorder u"
    "bal_ok h1 s" "height s = (if ab then k + 1 else k)" "\<forall>n. n \<notin> set_tree u \<longrightarrow> h1 n = h n" using rot by blast
  note r = relink_rotated [OF c tr d s(1-4,6) l]
  have io: "inorder (plug c s) = inorder (plug c u)" using s(3) by (rule inorder_plug_cong)
  have hs: "height s \<le> height u" using s(5) k(2) by (auto split: if_splits)
  show ?thesis
  proof (cases "p = 0 \<or> ab")
    case True
    then have "ctx_bal h' c (height s)"
    proof
      assume "p = 0"
      then have "c = []" using ctx_at_parent [OF c] by simp
      then show ?thesis by simp
    next
      assume ab
      then show ?thesis using s(5) k(1) r(6) by simp
    qed
    then have "retraced N (t, h) (plug c u) (t', h')"
      by (intro retracedI [OF r(2,1) io _ r(5) height_plug_mono [OF hs] r(4,7)])
    then show ?thesis using True res by auto
  next
    case False
    have "snd (avl_delete_retrace N n p p b (t', h'))
        \<and> retraced N (t', h') (plug c s) (fst (avl_delete_retrace N n p p b (t', h')))"
    proof (rule cont [OF r(2,1) _ r(5)])
      show "distinct (inorder (plug c s))" using io d by simp
      show "ctx_bal h' c (Suc (height s))" using s(5) k(1) r(6) False by simp
      show "b = head_left c" using r(3) by (simp only: head_left_iff)
    qed
    then show ?thesis using False res retraced_trans [OF _ io height_plug_mono [OF hs] r(4,7)] by auto
  qed
qed

lemma delete_retrace_at:
  assumes "ctx_at N h (root t) c x i" and "tree_at N h x v i"
    and "distinct (inorder (plug c v))" and "bal_ok h v" and "ctx_bal h c (Suc (height v))"
    and "c \<noteq> [] \<Longrightarrow> fl = head_left c" and "length c \<le> fuel"
  shows "snd (avl_delete_retrace N fuel x x fl (t, h))
    \<and> retraced N (t, h) (plug c v) (fst (avl_delete_retrace N fuel x x fl (t, h)))"
  using assms
proof (induction c arbitrary: t h x i v fl fuel)
  case Nil
  then have "avl_delete_retrace N fuel x x fl (t, h) = ((t, h), True)"
    by (cases fuel) auto
  with Nil show ?case by (auto simp: retraced_def)
next
  case (Cons f c)
  obtain n where fuel: "fuel = Suc n" using Cons.prems by (cases fuel) auto
  have len: "length c \<le> n" using Cons.prems(7) fuel by simp
  show ?case
  proof (cases f)
    case (LFr m r)
    let ?u = "Node v m r" and ?p = "parent_id (h m)"
    have m: "x = m" "node_ok N m" "ctx_at N h (root t) c ?p m" "tree_at N h ?p ?u m" "m \<noteq> 0" "fl"
      using Cons.prems LFr by auto
    have d: "distinct (inorder (plug c ?u))" using Cons.prems LFr by simp
    have du: "distinct (inorder ?u)" "m \<notin> ctx_set c" "m \<notin> set_tree v" "m \<notin> set_tree r"
      using distinct_plug [OF d] by auto
    have b: "balance (h m) = int (height r) - int (Suc (height v))" "\<bar>balance (h m)\<bar> \<le> 1"
      "bal_ok h v" "bal_ok h r" "ctx_bal h c (Suc (max (Suc (height v)) (height r)))"
      using Cons.prems LFr by auto
    have p: "avl_id_to_node N ?p = ?p" "?p = 0 \<longleftrightarrow> c = []" using ctx_at_parent [OF m(3)] by auto
    note cont = Cons.IH [OF _ _ _ _ _ _ len]
    consider "balance (h m) = 0" | "balance (h m) = -1" | "balance (h m) = 1" using b(2) by linarith
    then show ?thesis
    proof cases
      case 1
      have hr: "height r = Suc (height v)" using b(1) 1 by linarith
      have "retraced N (t, h) (plug c ?u) (t, set_balance m 1 h)"
        by (rule delete_retrace_stop [OF m(3,4)]) (use du b(3-5) hr in auto)
      then show ?thesis using m 1 fuel LFr by simp
    next
      case 2
      let ?h = "set_balance m 0 h" and ?fl = "left_id (h ?p) = m"
      have hr: "height r = height v" using b(1) 2 by linarith
      have k: "ctx_bal h c (Suc (Suc (height v)))" using b(5) hr by simp
      show ?thesis
      proof (cases "c = []")
        case True
        have "retraced N (t, h) (plug c ?u) (t, ?h)"
          by (rule delete_retrace_stop [OF m(3,4)]) (use du b(3,4) hr True in auto)
        then show ?thesis using m 2 fuel LFr p True by (simp add: Let_def)
      next
        case False
        have "snd (avl_delete_retrace N n ?p ?p ?fl (t, ?h))
            \<and> retraced N (t, ?h) (plug c ?u) (fst (avl_delete_retrace N n ?p ?p ?fl (t, ?h)))"
        proof (rule cont [OF _ _ d])
          show "ctx_at N ?h (root t) c ?p m" "tree_at N ?h ?p ?u m" using m(3,4) by simp_all
          show "bal_ok ?h ?u" using du b(3,4) hr by simp
          show "ctx_bal ?h c (Suc (height ?u))" using k hr du(2) by simp
          show "?fl = head_left c" by (rule child_side [OF m(3) False m(5) du(2)])
        qed
        moreover have "avl_delete_retrace N fuel x x fl (t, h) = avl_delete_retrace N n ?p ?p ?fl (t, ?h)"
          using m(1,2,5,6) 2 fuel p False by (simp add: Let_def)
        moreover have "m \<in> set_tree (plug c ?u)" by (simp add: set_tree_plug)
        ultimately show ?thesis using LFr retraced_balance by (metis plug.simps(2,3))
      qed
    next
      case 3
      have ht: "height r = height v + 2" using b(1) 3 by linarith
      let ?z = "right_id (h m)"
      have z: "avl_id_to_node N ?z = ?z" "?z \<noteq> 0" using m(4) ht by (cases r; auto)+
      obtain str h1 where rot: "(if balance (h ?z) \<ge> 0 then avl_rotate_left N m ?z h
        else avl_rotate_right_left N m ?z h) = (str, h1)" by (metis surj_pair)
      obtain t' h' bb where l: "avl_link_str ?p (avl_id_to_node N ?p) m str (t, h1) = ((t', h'), bb)"
        by (metis surj_pair)
      have k: "ctx_bal h c (Suc (height r))" using b(5) ht by simp
      have e: "avl_delete_retrace N fuel x x fl (t, h) = (if ?p = 0 then ((t', h'), True)
          else if balance (h ?z) = 0 then ((t', h'), True) else avl_delete_retrace N n ?p ?p bb (t', h'))"
        using m(1,2,5,6) z 3 fuel rot l p(1) by (simp add: Let_def)
      have "snd (avl_delete_retrace N fuel x x fl (t, h))
          \<and> retraced N (t, h) (plug c ?u) (fst (avl_delete_retrace N fuel x x fl (t, h)))"
        by (rule delete_rotate_at [OF m(3,4) d rotate_right_heavy [OF m(4) du(1) b(3,4) ht refl rot] k _ l cont e]) simp
      then show ?thesis using LFr by simp
    qed
  next
    case (RFr l m)
    let ?u = "Node l m v" and ?p = "parent_id (h m)"
    have m: "x = m" "node_ok N m" "ctx_at N h (root t) c ?p m" "tree_at N h ?p ?u m" "m \<noteq> 0" "\<not> fl"
      using Cons.prems RFr by auto
    have d: "distinct (inorder (plug c ?u))" using Cons.prems RFr by simp
    have du: "distinct (inorder ?u)" "m \<notin> ctx_set c" "m \<notin> set_tree v" "m \<notin> set_tree l"
      using distinct_plug [OF d] by auto
    have b: "balance (h m) = int (Suc (height v)) - int (height l)" "\<bar>balance (h m)\<bar> \<le> 1"
      "bal_ok h v" "bal_ok h l" "ctx_bal h c (Suc (max (height l) (Suc (height v))))"
      using Cons.prems RFr by auto
    have p: "avl_id_to_node N ?p = ?p" "?p = 0 \<longleftrightarrow> c = []" using ctx_at_parent [OF m(3)] by auto
    note cont = Cons.IH [OF _ _ _ _ _ _ len]
    consider "balance (h m) = 0" | "balance (h m) = 1" | "balance (h m) = -1" using b(2) by linarith
    then show ?thesis
    proof cases
      case 1
      have hr: "height l = Suc (height v)" using b(1) 1 by linarith
      have "retraced N (t, h) (plug c ?u) (t, set_balance m (-1) h)"
        by (rule delete_retrace_stop [OF m(3,4)]) (use du b(3-5) hr in auto)
      then show ?thesis using m 1 fuel RFr by simp
    next
      case 2
      let ?h = "set_balance m 0 h" and ?fl = "left_id (h ?p) = m"
      have hr: "height l = height v" using b(1) 2 by linarith
      have k: "ctx_bal h c (Suc (Suc (height v)))" using b(5) hr by simp
      show ?thesis
      proof (cases "c = []")
        case True
        have "retraced N (t, h) (plug c ?u) (t, ?h)"
          by (rule delete_retrace_stop [OF m(3,4)]) (use du b(3,4) hr True in auto)
        then show ?thesis using m 2 fuel RFr p True by (simp add: Let_def)
      next
        case False
        have "snd (avl_delete_retrace N n ?p ?p ?fl (t, ?h))
            \<and> retraced N (t, ?h) (plug c ?u) (fst (avl_delete_retrace N n ?p ?p ?fl (t, ?h)))"
        proof (rule cont [OF _ _ d])
          show "ctx_at N ?h (root t) c ?p m" "tree_at N ?h ?p ?u m" using m(3,4) by simp_all
          show "bal_ok ?h ?u" using du b(3,4) hr by simp
          show "ctx_bal ?h c (Suc (height ?u))" using k hr du(2) by simp
          show "?fl = head_left c" by (rule child_side [OF m(3) False m(5) du(2)])
        qed
        moreover have "avl_delete_retrace N fuel x x fl (t, h) = avl_delete_retrace N n ?p ?p ?fl (t, ?h)"
          using m(1,2,5,6) 2 fuel p False by (simp add: Let_def)
        moreover have "m \<in> set_tree (plug c ?u)" by (simp add: set_tree_plug)
        ultimately show ?thesis using RFr retraced_balance by (metis plug.simps(2,3))
      qed
    next
      case 3
      have ht: "height l = height v + 2" using b(1) 3 by linarith
      let ?z = "left_id (h m)"
      have z: "avl_id_to_node N ?z = ?z" "?z \<noteq> 0" using m(4) ht by (cases l; auto)+
      obtain str h1 where rot: "(if balance (h ?z) \<le> 0 then avl_rotate_right N m ?z h
        else avl_rotate_left_right N m ?z h) = (str, h1)" by (metis surj_pair)
      obtain t' h' bb where l: "avl_link_str ?p (avl_id_to_node N ?p) m str (t, h1) = ((t', h'), bb)"
        by (metis surj_pair)
      have k: "ctx_bal h c (Suc (height l))" using b(5) ht by simp
      have e: "avl_delete_retrace N fuel x x fl (t, h) = (if ?p = 0 then ((t', h'), True)
          else if balance (h ?z) = 0 then ((t', h'), True) else avl_delete_retrace N n ?p ?p bb (t', h'))"
        using m(1,2,5,6) z 3 fuel rot l p(1) by (simp add: Let_def)
      have "snd (avl_delete_retrace N fuel x x fl (t, h))
          \<and> retraced N (t, h) (plug c ?u) (fst (avl_delete_retrace N fuel x x fl (t, h)))"
        by (rule delete_rotate_at [OF m(3,4) d rotate_left_heavy [OF m(4) du(1) b(4,3) ht refl rot] k _ l cont e]) simp
      then show ?thesis using RFr by simp
    qed
  qed
qed

lemma same_data_delete_retrace: "same_data h (snd (fst (avl_delete_retrace N n x x_id fl (t, h))))"
proof (induction n arbitrary: x x_id fl t h)
  case (Suc n)
  let ?z = "avl_id_to_node N (if fl then right_id (h x) else left_id (h x))"
  let ?p = "parent_id (h x)"
  obtain str h' where rot: "(str, h') = (if fl
      then (if balance (h ?z) \<ge> 0 then avl_rotate_left N x ?z h else avl_rotate_right_left N x ?z h)
      else (if balance (h ?z) \<le> 0 then avl_rotate_right N x ?z h else avl_rotate_left_right N x ?z h))"
    by (metis surj_pair)
  obtain t1 h1 b where l: "((t1, h1), b) = avl_link_str ?p (avl_id_to_node N ?p) x_id str (t, h')"
    by (metis surj_pair)
  have "same_data h h'" using same_data_rotate [of h N x ?z] rot by (metis snd_conv)
  moreover have "same_data h' h1" using same_data_link [of h' ?p "avl_id_to_node N ?p" x_id str t]
    by (simp add: l [symmetric])
  ultimately have s1: "same_data h h1" by (rule same_data_trans)
  have "same_data h (snd (fst (avl_delete_retrace N n x2 x2_id fl2 (t, set_balance x b2 h))))" for x2 x2_id fl2 b2
    by (rule same_data_trans [OF _ Suc.IH]) simp
  moreover have "same_data h (snd (fst (avl_delete_retrace N n x2 x2_id fl2 (t1, h1))))" for x2 x2_id fl2
    using s1 Suc.IH by (rule same_data_trans)
  ultimately show ?case using s1 by (simp add: Let_def rot [symmetric] l [symmetric])
qed simp

section \<open>Taking the node out\<close>

lemma ctx_at_0: "ctx_at N h rt c p i \<Longrightarrow> 0 \<notin> ctx_set c"
  by (induction c arbitrary: p i rule: ctx_set.induct) (auto dest: tree_at_0)

lemma replace_node_at:
  assumes c: "ctx_at N h (root t) c (parent_id (h m)) m" and m: "m \<noteq> 0" "m \<notin> ctx_set c"
    and d: "distinct (inorder (plug c w))" and w: "tree_at N h q w i"
    and r: "avl_replace_node N m i (t, h) = (t', h')"
  shows "ctx_at N h' (root t') c (parent_id (h m)) i" and "tree_at N h' (parent_id (h m)) w i"
    and "t' = t\<lparr>root := root t'\<rparr>" and "same_data h h'" and "\<And>n. balance (h' n) = balance (h n)"
    and "\<And>n. n \<notin> ctx_set c \<Longrightarrow> n \<notin> set_tree w \<Longrightarrow> h' n = h n"
    and "\<And>n. n \<notin> ctx_set c \<Longrightarrow> left_id (h' n) = left_id (h n) \<and> right_id (h' n) = right_id (h n)"
    and "\<And>n. n \<noteq> i \<Longrightarrow> parent_id (h' n) = parent_id (h n)"
proof -
  let ?p = "parent_id (h m)"
  let ?h = "if c = [] then h else if head_left c then set_left ?p i h else set_right ?p i h"
  have p: "avl_id_to_node N ?p = ?p" "?p = 0 \<longleftrightarrow> c = []" using ctx_at_parent [OF c] by auto
  have i: "avl_id_to_node N i = i" using tree_at_id_to_node [OF w] .
  have side: "c \<noteq> [] \<Longrightarrow> left_id (h ?p) = m \<longleftrightarrow> head_left c" using child_side [OF c _ m] by simp
  have pm: "parent_id (?h m) = ?p" by simp
  have e: "t' = (if c = [] then t\<lparr>root := i\<rparr> else t)" "h' = reparent i ?p ?h"
    using r p i side by (auto simp: avl_replace_node_def Let_def reparent_def)
  have dw: "distinct (inorder w)" "set_tree w \<inter> ctx_set c = {}" using distinct_plug [OF d] by auto
  have pc: "c \<noteq> [] \<Longrightarrow> ?p \<in> ctx_set c" using c by (cases "(N, h, root t, c, ?p, m)" rule: ctx_at.cases) auto
  have ni: "i \<notin> ctx_set c" using tree_at_root [OF w] dw ctx_at_0 [OF c] by auto
  have "distinct (inorder (plug c Leaf))" using d by (auto simp: inorder_plug)
  then have c1: "ctx_at N ?h (root t') c ?p i"
    using c e(1) fill_hole [OF c, of i] ni by (cases "c = []") auto
  have "c \<noteq> [] \<Longrightarrow> ?p \<notin> set_tree w" using pc dw(2) by auto
  then have "tree_at N ?h q w i" using w by auto
  then show "tree_at N h' ?p w i" unfolding e(2) using dw(1) by (rule tree_at_reparent)
  show "ctx_at N h' (root t') c ?p i" unfolding e(2) using c1 ni by simp
  show "t' = t\<lparr>root := root t'\<rparr>" using e(1) by simp
  show "same_data h h'" using e(2) by (simp add: reparent_def)
  show "balance (h' n) = balance (h n)" for n using e(2) by simp
  show "h' n = h n" if "n \<notin> ctx_set c" "n \<notin> set_tree w" for n
  proof -
    have "c \<noteq> [] \<Longrightarrow> n \<noteq> ?p" "i \<noteq> 0 \<Longrightarrow> n \<noteq> i" using that pc tree_at_root [OF w] by auto
    then show ?thesis using e(2) by (auto simp: reparent_def set_left_other set_right_other set_parent_other)
  qed
  show "left_id (h' n) = left_id (h n) \<and> right_id (h' n) = right_id (h n)" if "n \<notin> ctx_set c" for n
    using e(2) that pc by auto
  show "parent_id (h' n) = parent_id (h n)" if "n \<noteq> i" for n using e(2) that by simp
qed


text \<open>
  The common end of the two cases where the successor \<open>nx\<close> takes the place of \<open>m\<close>: the
  subtree at \<open>nx\<close> moves up and gets the left subtree of \<open>m\<close>.
\<close>

lemma take_place_at:
  assumes c: "ctx_at N h (root t) c (parent_id (h m)) m" and m: "m \<noteq> 0" "m \<notin> ctx_set c"
      "m \<notin> set_tree l" "m \<noteq> nx" "m \<notin> set_tree r"
    and l: "tree_at N h m l (left_id (h m))" "l \<noteq> Leaf" and w: "tree_at N h q (Node Leaf nx r) nx"
    and d: "distinct (inorder (plug c (Node l nx r)))"
    and r: "avl_replace_node N m nx (t, h) = (t2, h2)"
    and h': "h' = set_parent (left_id (h2 m)) nx (set_left nx (left_id (h2 m)) h2)"
  shows "tree_at N h' 0 (plug c (Node l nx r)) (root t2)" and "avl_id_to_node N (left_id (h2 m)) = left_id (h2 m)"
    and "left_id (h2 m) \<noteq> 0" and "t2 = t\<lparr>root := root t2\<rparr>" and "same_data h h'"
    and "\<And>n. balance (h' n) = balance (h n)"
    and "\<And>n. n \<notin> set_tree (plug c (Node l nx r)) \<Longrightarrow> h' n = h n"
proof -
  let ?w = "Node Leaf nx r" and ?p = "parent_id (h m)"
  have "distinct (inorder (plug c ?w))" using d by (auto simp: inorder_plug)
  note R = replace_node_at [OF c m(1,2) this w r]
  have dj: "set_tree (Node l nx r) \<inter> ctx_set c = {}" "distinct (inorder (Node l nx r))"
    using distinct_plug [OF d] by auto
  have hm: "h2 m = h m" using R(6) [of m] m by auto
  let ?li = "left_id (h m)"
  have li: "?li \<in> set_tree l" "?li \<noteq> 0" using l by (cases l; auto)+
  show "avl_id_to_node N (left_id (h2 m)) = left_id (h2 m)" "left_id (h2 m) \<noteq> 0"
    using hm li tree_at_id_to_node [OF l(1)] by auto
  have l2: "tree_at N h2 m l ?li"
  proof (rule tree_at_same [OF l(1)])
    fix n assume "n \<in> set_tree l"
    then have "n \<notin> ctx_set c" "n \<notin> set_tree ?w" using dj by auto
    from R(6) [OF this] show "left_id (h2 n) = left_id (h n) \<and> right_id (h2 n) = right_id (h n)
      \<and> parent_id (h2 n) = parent_id (h n)" by simp
  qed
  have "nx \<notin> set_tree l" using dj(2) by auto
  then have "tree_at N (set_left nx ?li h2) m l ?li" using l2 by simp
  then have l3: "tree_at N h' nx l ?li"
    using tree_at_reparent [of N "set_left nx ?li h2" m l ?li nx] dj(2) li h' hm by (simp add: reparent_def)
  have "?li \<notin> set_tree r" "?li \<noteq> nx" "nx \<notin> set_tree r" "?li \<notin> ctx_set c" "nx \<notin> ctx_set c"
    using dj li by auto
  then have "tree_at N h' ?p (Node l nx r) nx" "ctx_at N h' (root t2) c ?p nx"
    using R(1,2) l3 h' hm by auto
  then show "tree_at N h' 0 (plug c (Node l nx r)) (root t2)" unfolding tree_at_plug by blast
  show "t2 = t\<lparr>root := root t2\<rparr>" by (rule R(3))
  show "same_data h h'" using R(4) h' by simp
  show "balance (h' n) = balance (h n)" for n using R(5) h' by simp
  show "h' n = h n" if "n \<notin> set_tree (plug c (Node l nx r))" for n
  proof -
    have "n \<noteq> ?li" "n \<noteq> nx" "h2 n = h n" using that R(6) [of n] li(1) by (auto simp: set_tree_plug)
    then show ?thesis using h' hm by (simp add: set_parent_other set_left_other)
  qed
qed

lemma leftmost_plug:
  assumes "v \<noteq> Leaf"
  shows "\<exists>d n r. v = plug d (Node Leaf n r) \<and> ctx_left d = [] \<and> (d \<noteq> [] \<longrightarrow> head_left d)"
  using assms
proof (induction v)
  case (Node a x b)
  show ?case
  proof (cases "a = Leaf")
    case True
    then show ?thesis by (intro exI [of _ "[]"]) auto
  next
    case False
    then obtain d n r where a: "a = plug d (Node Leaf n r)" "ctx_left d = []" "d \<noteq> [] \<longrightarrow> head_left d"
      using Node.IH(1) by blast
    have "ctx_left (d @ [LFr x b]) = ctx_left d"
      by (induction d rule: ctx_left.induct) auto
    moreover have "head_left (d @ [LFr x b])" using a(3) by (cases d rule: head_left.cases) auto
    ultimately show ?thesis using a by (intro exI [of _ "d @ [LFr x b]"]) (auto simp: plug_append)
  qed
qed simp

lemma ctx_bal_replace:
  assumes "ctx_bal h (d @ RFr l m # c) k" and "\<And>n. n \<in> ctx_set d \<union> set_tree l \<union> ctx_set c \<Longrightarrow> balance (h' n) = balance (h n)"
    and "balance (h' nx) = balance (h m)"
  shows "ctx_bal h' (d @ RFr l nx # c) k"
  using assms
proof (induction d arbitrary: k rule: ctx_set.induct)
  case 1
  have "ctx_bal h' c j = ctx_bal h c j" "bal_ok h' l = bal_ok h l" for j
    by (rule ctx_bal_cong bal_ok_cong; use 1 in auto)+
  with 1 show ?case by auto
next
  case (2 n r d)
  have "bal_ok h' r = bal_ok h r" by (rule bal_ok_cong) (use 2 in auto)
  with 2 show ?case by auto
next
  case (3 u n d)
  have "bal_ok h' u = bal_ok h u" by (rule bal_ok_cong) (use 3 in auto)
  with 3 show ?case by auto
qed


definition spliced :: "nat \<Rightarrow> avl_state \<Rightarrow> u32 tree \<Rightarrow> u32 \<Rightarrow> u32 \<times> u32 \<times> bool \<Rightarrow> avl_state \<Rightarrow> bool" where
  "spliced N s v m start s' \<longleftrightarrow> (case start of (x, x_id, fl) \<Rightarrow> x_id = x
     \<and> (\<exists>c w i. ctx_at N (snd s') (root (fst s')) c x i \<and> tree_at N (snd s') x w i
         \<and> (c \<noteq> [] \<longrightarrow> fl = head_left c) \<and> inorder (plug c w) = remove1 m (inorder v)
         \<and> bal_ok (snd s') w \<and> ctx_bal (snd s') c (Suc (height w)) \<and> height (plug c w) \<le> height v)
     \<and> fst s' = (fst s)\<lparr>root := root (fst s')\<rparr> \<and> same_data (snd s) (snd s')
     \<and> (\<forall>n. n \<notin> set_tree v \<longrightarrow> snd s' n = snd s n))"

lemma remove1_plug:
  "distinct (inorder (plug c (Node l m r))) \<Longrightarrow>
   remove1 m (inorder (plug c (Node l m r))) = ctx_left c @ inorder l @ inorder r @ ctx_right c"
  by (auto simp: inorder_plug remove1_append)

lemma splice_one_child:
  assumes ok: "tree_ok N (t, h) v" and v: "v = plug c (Node l m r)" and one: "l = Leaf \<or> r = Leaf"
    and w: "w = (if l = Leaf then r else l)" and i: "i = (if l = Leaf then right_id (h m) else left_id (h m))"
    and x: "x = parent_id (h m)" and fl: "fl = (x \<noteq> 0 \<and> left_id (h x) = m)"
  shows "spliced N (t, h) v m (x, x, fl) (avl_replace_node N m i (t, h))"
proof -
  note n = tree_node_at [OF ok [unfolded v]]
  have k: "bal_ok h v" "distinct (inorder v)" using ok by (simp_all add: tree_ok_def)
  obtain t' h' where r: "avl_replace_node N m i (t, h) = (t', h')" by (metis surj_pair)
  have hw: "height (Node l m r) = Suc (height w)" using one w by auto
  have io: "inorder (plug c w) = remove1 m (inorder v)"
    using remove1_plug k(2) v one w by (auto simp: inorder_plug)
  have d: "distinct (inorder (plug c w))" unfolding io using k(2) by simp
  have wt: "tree_at N h m w i" using n(2) w i by auto
  have sw: "insert m (set_tree w \<union> ctx_set c) = set_tree v" using v one w by (auto simp: set_tree_plug)
  note R = replace_node_at [OF n(1,5,3) d wt r]
  have "bal_ok h' w" using k(1) v one w R(5) bal_ok_cong [of w h' h] by (auto simp: bal_ok_plug)
  moreover have "ctx_bal h' c (Suc (height w))"
    using k(1) v hw R(5) ctx_bal_cong [of c h' h] by (auto simp: bal_ok_plug)
  moreover have "height (plug c w) \<le> height v" unfolding v by (rule height_plug_mono) (use hw in simp)
  moreover have "c \<noteq> [] \<longrightarrow> fl = head_left c"
    using child_side [OF n(1) _ n(5,3)] ctx_at_parent [OF n(1)] x fl by auto
  moreover have "h' q = h q" if "q \<notin> set_tree v" for q by (rule R(6)) (use that sw in auto)
  ultimately show ?thesis using R(1-4) io x unfolding spliced_def r by auto
qed

lemma ctx_at_head: "ctx_at N h rt (f # c) p i \<Longrightarrow> p = frame_node f"
  by (cases f) auto

lemma head_left_append: "d \<noteq> [] \<Longrightarrow> head_left (d @ c) = head_left d"
  by (cases d rule: head_left.cases) auto

lemma root_only_trans:
  "t1 = t\<lparr>root := root t1\<rparr> \<Longrightarrow> t2 = t1\<lparr>root := root t2\<rparr> \<Longrightarrow> t2 = t\<lparr>root := root t2\<rparr>"
  by (metis avl_tree.surjective avl_tree.update_convs(1))

lemma ctx_set_append: "ctx_set (d @ c) = ctx_set d \<union> ctx_set c"
  by (induction d rule: ctx_set.induct) auto

lemma successor_spliced:
  assumes ok: "tree_ok N (t, h) v" and v: "v = plug c (Node l m (plug d (Node Leaf nx r)))"
    and d: "ctx_left d = []" "d \<noteq> [] \<longrightarrow> head_left d"
    and at: "tree_at N h' 0 (plug c (Node l nx (plug d r))) (root t')"
    and b: "\<And>n. balance (h' n) = (if n = nx then balance (h m) else balance (h n))"
    and t': "t' = t\<lparr>root := root t'\<rparr>" and sd: "same_data h h'"
    and fr: "\<And>n. n \<notin> set_tree v \<Longrightarrow> h' n = h n"
    and x: "x = (if d = [] then nx else frame_node (hd d))" and fl: "fl = (d \<noteq> [])"
  shows "spliced N (t, h) v m (x, x, fl) (t', h')"
proof -
  let ?D = "d @ RFr l m # c" and ?E = "d @ RFr l nx # c"
  have k: "bal_ok h v" "distinct (inorder v)" using ok by (simp_all add: tree_ok_def)
  have vD: "v = plug ?D (Node Leaf nx r)" using v by (simp add: plug_append)
  have nd: "nx \<notin> ctx_set ?D" "nx \<notin> set_tree r" using distinct_plug [of ?D "Node Leaf nx r"] k(2) vD by auto
  have E: "plug c (Node l nx (plug d r)) = plug ?E r" by (simp add: plug_append)
  obtain p i where pi: "ctx_at N h' (root t') ?E p i" "tree_at N h' p r i"
    using at unfolding E tree_at_plug by blast
  have "p = x"
  proof (cases d)
    case Nil
    then show ?thesis using ctx_at_head [of N h' "root t'" "RFr l nx" c p i] pi(1) x by simp
  next
    case (Cons f d')
    then show ?thesis using ctx_at_head [of N h' "root t'" f "d' @ RFr l nx # c" p i] pi(1) x by simp
  qed
  moreover have "fl = head_left ?E" using d(2) fl head_left_append [of d] by (cases "d = []") auto
  moreover have "inorder (plug ?E r) = remove1 m (inorder v)"
    using remove1_plug [of c l m "plug d (Node Leaf nx r)"] k(2) v d(1)
    by (simp add: E [symmetric] inorder_plug)
  moreover have "bal_ok h' r"
    by (rule bal_ok_updated [of h]) (use k(1) vD nd b in \<open>auto simp: bal_ok_plug\<close>)
  moreover have "ctx_bal h' ?E (Suc (height r))"
  proof (rule ctx_bal_replace [of h d l m c])
    show "ctx_bal h ?D (Suc (height r))" using k(1) vD by (simp add: bal_ok_plug)
    show "balance (h' n) = balance (h n)" if "n \<in> ctx_set d \<union> set_tree l \<union> ctx_set c" for n
      using that nd(1) b by (auto simp: ctx_set_append)
    show "balance (h' nx) = balance (h m)" using b by simp
  qed
  moreover have "height (plug ?E r) \<le> height v"
  proof -
    have "height (plug d r) \<le> height (plug d (Node Leaf nx r))" by (rule height_plug_mono) simp
    then show ?thesis unfolding E [symmetric] v by (intro height_plug_mono) simp
  qed
  ultimately have "ctx_at N h' (root t') ?E x i \<and> tree_at N h' x r i \<and> (?E \<noteq> [] \<longrightarrow> fl = head_left ?E)
    \<and> inorder (plug ?E r) = remove1 m (inorder v) \<and> bal_ok h' r \<and> ctx_bal h' ?E (Suc (height r))
    \<and> height (plug ?E r) \<le> height v" using pi by simp
  then show ?thesis using t' sd fr unfolding spliced_def by auto
qed

lemma splice_immediate:
  assumes ok: "tree_ok N (t, h) v" and v: "v = plug c (Node l m (Node Leaf nx r))" and l: "l \<noteq> Leaf"
    and nx: "avl_next_node N h m = nx"
  shows "\<exists>start s'. avl_delete_splice N m (t, h) = (Some start, s') \<and> spliced N (t, h) v m start s'"
proof -
  note n = tree_node_at [OF ok [unfolded v]]
  have dv: "distinct (inorder v)" using ok by (simp add: tree_ok_def)
  have dj: "nx \<noteq> m" "m \<notin> set_tree l" "m \<notin> set_tree r" "nx \<noteq> 0" "left_id (h m) \<noteq> 0" "right_id (h m) = nx"
    "parent_id (h nx) = m"
    using n(2) distinct_plug [OF dv [unfolded v]] l by (cases l; auto)+
  have d: "distinct (inorder (plug c (Node l nx r)))" using dv v by (auto simp: inorder_plug)
  let ?h = "set_balance nx (balance (h m)) h"
  obtain t2 h2 where r2: "avl_replace_node N m nx (t, ?h) = (t2, h2)" by (metis surj_pair)
  let ?h' = "set_parent (left_id (h2 m)) nx (set_left nx (left_id (h2 m)) h2)"
  have "ctx_at N ?h (root t) c (parent_id (?h m)) m" "tree_at N ?h m l (left_id (?h m))"
    "tree_at N ?h m (Node Leaf nx r) nx" using n(1,2) dj by auto
  note T = take_place_at [OF this(1) n(5,3) dj(2) dj(1) [symmetric] dj(3) this(2) l this(3) d r2 refl]
  have "avl_delete_splice N m (t, h) = (Some (nx, nx, False), (t2, ?h'))"
    using dj nx r2 T(2,3) by (simp add: avl_delete_splice_def Let_def set_left_other)
  moreover have "spliced N (t, h) v m (nx, nx, False) (t2, ?h')"
  proof (rule successor_spliced [OF ok, where d = "[]" and c = c and l = l and r = r and nx = nx])
    show "?h' q = h q" if "q \<notin> set_tree v" for q
      using T(7) [of q] that v by (auto simp: set_tree_plug set_balance_other)
    show "same_data h ?h'" using T(5) same_data_trans [of h ?h] by simp
  qed (use v T(1,4) T(6) in simp_all)
  ultimately show ?thesis by blast
qed


text \<open>Pulling a deep successor out of the right subtree and hanging that subtree below it.\<close>

lemma pull_successor:
  assumes at: "tree_at N h 0 (plug c (Node l m (plug d (Node Leaf nx r)))) (root t)"
    and dv: "distinct (inorder (plug c (Node l m (plug d (Node Leaf nx r)))))" and d: "d \<noteq> []"
    and R: "avl_replace_node N nx (right_id (h nx)) (t, h) = (t2, h2)"
    and h4: "h4 = set_parent (right_id (h2 m)) nx (set_right nx (right_id (h2 m)) h2)"
  shows "ctx_at N h4 (root t2) c (parent_id (h4 m)) m" and "tree_at N h4 m l (left_id (h4 m))"
    and "tree_at N h4 (parent_id (h4 nx)) (Node Leaf nx (plug d r)) nx"
    and "avl_id_to_node N (right_id (h2 m)) = right_id (h2 m)" and "right_id (h2 m) \<noteq> 0"
    and "t2 = t\<lparr>root := root t2\<rparr>" and "same_data h h4" and "\<And>n. balance (h4 n) = balance (h n)"
    and "\<And>n. n \<notin> set_tree (plug c (Node l m (plug d (Node Leaf nx r)))) \<Longrightarrow> h4 n = h n"
proof -
  let ?D = "d @ RFr l m # c" and ?r = "plug d r"
  have D: "plug c (Node l m (plug d w)) = plug ?D w" for w by (simp add: plug_append)
  have a1: "ctx_at N h (root t) ?D (parent_id (h nx)) nx" "node_ok N nx" "left_id (h nx) = 0"
    "tree_at N h nx r (right_id (h nx))" using at unfolding D tree_at_plug by auto
  have dj: "nx \<notin> ctx_set ?D" using distinct_plug [OF dv [unfolded D]] by auto
  have dr: "distinct (inorder (plug c (Node l m ?r)))" using dv by (auto simp: inorder_plug)
  note P = replace_node_at [OF a1(1) node_ok_nz [OF a1(2)] dj dr [unfolded D] a1(4) R]
  have "tree_at N h2 0 (plug c (Node l m ?r)) (root t2)" unfolding D tree_at_plug using P(1,2) by blast
  then have a2: "ctx_at N h2 (root t2) c (parent_id (h2 m)) m" "tree_at N h2 (parent_id (h2 m)) (Node l m ?r) m"
    unfolding tree_at_plug by auto
  have e: "set_tree (Node l m ?r) \<inter> ctx_set c = {}" "distinct (inorder (Node l m ?r))"
    using distinct_plug [OF dr] by auto
  have nx: "nx \<notin> set_tree ?r" "nx \<notin> set_tree l" "nx \<noteq> m" "nx \<notin> ctx_set c"
    using dv by (auto simp: set_tree_plug inorder_plug ctx_set_lists)
  have "?r \<noteq> Leaf" using d by (cases d rule: head_left.cases) (auto simp: set_tree_plug dest!: arg_cong [of _ _ set_tree])
  then have ri: "right_id (h2 m) \<in> set_tree ?r" "right_id (h2 m) \<noteq> 0" using a2(2) by (cases ?r; auto)+
  have l2: "left_id (h2 nx) = 0" using P(7) [OF dj] a1(3) by simp
  have rt: "tree_at N h2 m ?r (right_id (h2 m))" using a2(2) by simp
  show "avl_id_to_node N (right_id (h2 m)) = right_id (h2 m)" by (rule tree_at_id_to_node [OF rt])
  show "right_id (h2 m) \<noteq> 0" by (rule ri(2))
  have rn: "right_id (h2 m) \<noteq> m" "right_id (h2 m) \<notin> set_tree l" "right_id (h2 m) \<notin> ctx_set c" "right_id (h2 m) \<noteq> nx"
    using e ri(1) nx by auto
  show "ctx_at N h4 (root t2) c (parent_id (h4 m)) m" "tree_at N h4 m l (left_id (h4 m))"
    using a2 rn nx h4 by simp_all
  have "tree_at N (set_right nx (right_id (h2 m)) h2) m ?r (right_id (h2 m))" using rt nx by simp
  then have "tree_at N h4 nx ?r (right_id (h2 m))"
    using tree_at_reparent [of N "set_right nx (right_id (h2 m)) h2" m ?r "right_id (h2 m)" nx] e(2) ri(2) h4
    by (simp add: reparent_def)
  then show "tree_at N h4 (parent_id (h4 nx)) (Node Leaf nx ?r) nx" using a1(2) l2 h4 by simp
  show "t2 = t\<lparr>root := root t2\<rparr>" by (rule P(3))
  show "same_data h h4" using P(4) h4 by simp
  show "balance (h4 n) = balance (h n)" for n using P(5) h4 by simp
  show "h4 n = h n" if "n \<notin> set_tree (plug c (Node l m (plug d (Node Leaf nx r))))" for n
  proof -
    have "n \<noteq> nx" "n \<notin> set_tree ?r" "n \<notin> ctx_set ?D" "n \<notin> set_tree r"
      using that by (auto simp: set_tree_plug ctx_set_append)
    moreover from this have "n \<noteq> right_id (h2 m)" using ri(1) by auto
    ultimately show ?thesis using P(6) [of n] h4 by (simp add: set_parent_other set_right_other)
  qed
qed


lemma splice_deep:
  assumes ok: "tree_ok N (t, h) v" and v: "v = plug c (Node l m (plug d (Node Leaf nx r)))" and l: "l \<noteq> Leaf"
    and d: "d \<noteq> []" "ctx_left d = []" "head_left d" and nx: "avl_next_node N h m = nx"
  shows "\<exists>start s'. avl_delete_splice N m (t, h) = (Some start, s') \<and> spliced N (t, h) v m start s'"
proof -
  let ?h = "set_balance nx (balance (h m)) h" and ?D = "d @ RFr l m # c" and ?x = "frame_node (hd d)"
  note n = tree_node_at [OF ok [unfolded v]]
  have at: "tree_at N h 0 v (root t)" and dv: "distinct (inorder v)" using ok by (simp_all add: tree_ok_def)
  have at1: "tree_at N ?h 0 (plug c (Node l m (plug d (Node Leaf nx r)))) (root t)" using at v by simp
  obtain t2 h2 where R: "avl_replace_node N nx (right_id (?h nx)) (t, ?h) = (t2, h2)" by (metis surj_pair)
  let ?h4 = "set_parent (right_id (h2 m)) nx (set_right nx (right_id (h2 m)) h2)"
  note P = pull_successor [OF at1 dv [unfolded v] d(1) R refl]
  obtain t5 h5 where R5: "avl_replace_node N m nx (t2, ?h4) = (t5, h5)" by (metis surj_pair)
  let ?h6 = "set_parent (left_id (h5 m)) nx (set_left nx (left_id (h5 m)) h5)"
  have dj: "m \<notin> set_tree l" "m \<noteq> nx" "m \<notin> set_tree (plug d r)"
    using dv v by (auto simp: inorder_plug set_tree_plug ctx_set_lists)
  have dT: "distinct (inorder (plug c (Node l nx (plug d r))))" using dv v d(2) by (auto simp: inorder_plug)
  note T = take_place_at [OF P(1) n(5,3) dj P(2) l P(3) dT R5 refl]
  have "tree_at N h 0 (plug ?D (Node Leaf nx r)) (root t)" using at v by (simp add: plug_append)
  then have c1: "ctx_at N h (root t) ?D (parent_id (h nx)) nx" "nx \<noteq> 0" unfolding tree_at_plug by auto
  have xD: "parent_id (h nx) = ?x" using d(1) ctx_at_head [of N h "root t" "hd d" "tl d @ RFr l m # c"] c1(1)
    by (cases d) auto
  have xs: "?x \<in> ctx_set d" using d(1) by (cases d rule: ctx_set.cases) auto
  have "distinct (inorder (plug ?D (Node Leaf nx r)))" using dv v by (simp add: plug_append)
  then have nD: "nx \<notin> ctx_set ?D" using distinct_plug by fastforce
  have x: "?x \<noteq> m" "?x \<noteq> 0" "avl_id_to_node N ?x = ?x" "left_id (h ?x) = nx"
    using xs dv v xD ctx_at_parent [OF c1(1)] child_side [OF c1(1) _ c1(2) nD] d
    by (auto simp: inorder_plug ctx_set_lists head_left_append)
  have lr: "left_id (h m) \<noteq> 0" "right_id (h m) \<noteq> 0"
    using n(2) l by (cases l; cases "plug d (Node Leaf nx r)"; auto dest: arg_cong [of _ _ set_tree] simp: set_tree_plug)+
  have "avl_delete_splice N m (t, h) = (Some (?x, ?x, True), (t5, ?h6))"
    using c1(2) nx x xD lr R R5 P(4,5) T(2,3) dj(2) by (simp add: avl_delete_splice_def Let_def)
  moreover have "spliced N (t, h) v m (?x, ?x, True) (t5, ?h6)"
  proof (rule successor_spliced [OF ok v d(2)])
    show "?h6 q = h q" if "q \<notin> set_tree v" for q
      using that T(7) [of q] P(9) [of q] v by (auto simp: set_tree_plug set_balance_other)
    show "same_data h ?h6" using same_data_trans [OF P(7) T(5)] same_data_trans [of h ?h] by simp
    show "t5 = t\<lparr>root := root t5\<rparr>" using P(6) T(4) by (rule root_only_trans)
  qed (use d T(1) T(6) P(8) in simp_all)
  ultimately show ?thesis by blast
qed


lemma splice_at:
  assumes ok: "tree_ok N (t, h) v" and m: "m \<in> set_tree v"
  shows "\<exists>start s'. avl_delete_splice N m (t, h) = (Some start, s') \<and> spliced N (t, h) v m start s'"
proof -
  obtain c l r where v: "v = plug c (Node l m r)" using tree_member_plug [OF m] by blast
  note n = tree_node_at [OF ok [unfolded v]]
  let ?x = "parent_id (h m)"
  have p: "avl_id_to_node N ?x = ?x" using ctx_at_parent [OF n(1)] by simp
  have lr: "left_id (h m) = 0 \<longleftrightarrow> l = Leaf" "right_id (h m) = 0 \<longleftrightarrow> r = Leaf" using n(2) by (cases l; cases r; auto)+
  show ?thesis
  proof (cases "l = Leaf \<or> r = Leaf")
    case True
    let ?fl = "?x \<noteq> 0 \<and> left_id (h ?x) = m"
    have "avl_delete_splice N m (t, h) = (Some (?x, ?x, ?fl),
        avl_replace_node N m (if l = Leaf then right_id (h m) else left_id (h m)) (t, h))"
      using True lr p by (auto simp: avl_delete_splice_def Let_def)
    then show ?thesis using splice_one_child [OF ok v True refl refl refl refl] by blast
  next
    case False
    then obtain d nx r2 where r: "r = plug d (Node Leaf nx r2)" "ctx_left d = []" "d \<noteq> [] \<longrightarrow> head_left d"
      using leftmost_plug by blast
    have "inorder v = (ctx_left c @ inorder l) @ m # (nx # inorder r2 @ ctx_right d @ ctx_right c)"
      using v r(1,2) by (simp add: inorder_plug)
    from next_node_at [OF ok this] have nx: "avl_next_node N h m = nx" by simp
    show ?thesis
    proof (cases "d = []")
      case True
      show ?thesis by (rule splice_immediate [OF ok _ _ nx]) (use v r(1) True False in auto)
    next
      case d: False
      show ?thesis by (rule splice_deep [OF ok _ _ d r(2) _ nx]) (use v r d False in auto)
    qed
  qed
qed

section \<open>The cache and the whole deletion\<close>

lemma delete_cache_frame [simp]:
  "root (avl_delete_cache N m (t, h)) = root t"
  "first_orphan_id (avl_delete_cache N m (t, h)) = first_orphan_id t"
  by (simp_all add: avl_delete_cache_def Let_def)

lemma delete_cache_ok:
  assumes ok: "tree_ok N (t, h) v" and ca: "cache_ok (t, h) (inorder v)" and io: "inorder v = xs @ m # ys"
  shows "cache_ok (avl_delete_cache N m (t, h), h) (xs @ ys)"
proof -
  have nx: "avl_next_node N h m = hd_id ys" by (rule next_node_at [OF ok io])
  have pv: "avl_prev_node N h m = hd_id (rev xs)" by (rule prev_node_at [OF ok io])
  have d: "distinct (xs @ m # ys)" using ok io by (simp add: tree_ok_def)
  have z: "0 \<notin> set xs" "0 \<notin> set ys"
    using ok io tree_at_0 [of N h 0 v] set_inorder [of v] by (auto simp: tree_ok_def)
  have "min_id t = hd (xs @ [m])" "min_key t = key (h (hd (xs @ [m])))" "max_id t = last (m # ys)"
    "max_key t = key (h (last (m # ys)))" using ca io by (auto simp: cache_ok_def hd_append)
  moreover have "m = hd (xs @ [m]) \<longleftrightarrow> xs = []" "m = last (m # ys) \<longleftrightarrow> ys = []"
    using d by (cases xs; auto)+
  moreover have "xs \<noteq> [] \<Longrightarrow> hd_id (rev xs) = last xs" "ys \<noteq> [] \<Longrightarrow> hd_id ys = hd ys"
    by (cases xs rule: rev_cases; auto) (cases ys; auto)
  moreover have "xs \<noteq> [] \<Longrightarrow> last xs \<noteq> 0" "ys \<noteq> [] \<Longrightarrow> hd ys \<noteq> 0" using z last_in_set hd_in_set by metis+
  ultimately show ?thesis using nx pv
    by (cases "xs = []"; cases "ys = []") (auto simp: avl_delete_cache_def cache_ok_def Let_def hd_append)
qed

lemma tree_delete_at:
  assumes ok: "tree_ok N (t, h) v" and ca: "cache_ok (t, h) (inorder v)" and m: "m \<in> set_tree v"
    and o: "\<not> is_orphan (h m)"
  shows "\<exists>s1 w. tree_ok N s1 w \<and> inorder w = remove1 m (inorder v) \<and> cache_ok s1 (remove1 m (inorder v))
    \<and> first_orphan_id (fst s1) = first_orphan_id t \<and> same_data h (snd s1)
    \<and> (\<forall>n. n \<notin> set_tree v \<longrightarrow> snd s1 n = h n)
    \<and> avl_tree_delete N m (t, h)
      = (let (o', s) = pop_first_orphan N s1 in if o' \<noteq> 0 then avl_tree_insert N o' s else s)"
proof -
  let ?t = "avl_delete_cache N m (t, h)"
  have ok1: "tree_ok N (?t, h) v" using ok by (simp add: tree_ok_def)
  have "distinct (inorder v)" using ok by (simp add: tree_ok_def)
  moreover obtain xs ys where io: "inorder v = xs @ m # ys" using m by (metis set_inorder split_list)
  ultimately have rm: "remove1 m (inorder v) = xs @ ys" "distinct (xs @ ys)" by (auto simp: remove1_append)
  have c1: "cache_ok (?t, h) (xs @ ys)" by (rule delete_cache_ok [OF ok ca io])
  obtain x x_id fl t2 h2 where S: "avl_delete_splice N m (?t, h) = (Some (x, x_id, fl), (t2, h2))"
    "spliced N (?t, h) v m (x, x_id, fl) (t2, h2)" using splice_at [OF ok1 m] by (metis prod_cases3 surj_pair)
  then obtain c w i where sp: "x_id = x" "ctx_at N h2 (root t2) c x i" "tree_at N h2 x w i"
    "c \<noteq> [] \<longrightarrow> fl = head_left c" "inorder (plug c w) = xs @ ys" "bal_ok h2 w" "ctx_bal h2 c (Suc (height w))"
    "height (plug c w) \<le> height v" and t2: "t2 = ?t\<lparr>root := root t2\<rparr>" and sd: "same_data h h2"
    and fr: "\<forall>n. n \<notin> set_tree v \<longrightarrow> h2 n = h n"
    unfolding spliced_def rm(1) by auto
  have hv: "height (plug c w) \<le> MAX_AVL_HEIGHT" using ok sp(8) by (simp add: tree_ok_def)
  then have len: "length c \<le> MAX_AVL_HEIGHT" by (simp add: height_plug)
  obtain s1 fin where e: "avl_delete_retrace N MAX_AVL_HEIGHT x x fl (t2, h2) = (s1, fin)" by (metis surj_pair)
  then have R: "avl_delete_retrace N MAX_AVL_HEIGHT x x fl (t2, h2) = (s1, True)"
    "retraced N (t2, h2) (plug c w) s1"
    using delete_retrace_at [OF sp(2,3) _ sp(6,7) _ len, of fl] sp(4,5) rm(2) by simp_all
  have sd1: "same_data h (snd s1)"
    using sd same_data_delete_retrace [of h2 N MAX_AVL_HEIGHT x x fl t2] R(1) same_data_trans by fastforce
  then have kk: "(\<lambda>n. key (snd s1 n)) = (\<lambda>n. key (h n))" by (auto simp: same_data_def)
  obtain u where u: "tree_at N (snd s1) 0 u (root (fst s1))" "inorder u = xs @ ys" "bal_ok (snd s1) u"
    "height u \<le> height (plug c w)" "fst s1 = t2\<lparr>root := root (fst s1)\<rparr>"
    "\<forall>n. n \<notin> set_tree (plug c w) \<longrightarrow> snd s1 n = h2 n"
    using R(2) sp(5) by (auto simp: retraced_def)
  have t1: "fst s1 = ?t\<lparr>root := root (fst s1)\<rparr>" using t2 u(5) by (rule root_only_trans)
  have "sorted (map (\<lambda>n. key (h n)) (xs @ ys))" using ok io by (auto simp: tree_ok_def sorted_append)
  then have "tree_ok N s1 u" using u(1-4) hv rm(2) by (simp add: tree_ok_def kk)
  moreover have "cache_ok s1 (xs @ ys)"
    using c1 sd1 unfolding cache_ok_def by (subst (1 2 3 4 5 6) t1) (auto simp: same_data_def)
  moreover have "first_orphan_id (fst s1) = first_orphan_id t" by (subst t1) simp
  moreover have "snd s1 n = h n" if "n \<notin> set_tree v" for n
  proof -
    have "set_tree (plug c w) \<subseteq> set_tree v" using sp(5) io by (metis rm(1) set_inorder set_remove1_subset)
    then show ?thesis using that u(6) fr by auto
  qed
  moreover have "avl_tree_delete N m (t, h)
      = (let (o', s) = pop_first_orphan N s1 in if o' \<noteq> 0 then avl_tree_insert N o' s else s)"
    using o S(1) sp(1) R(1) by (simp add: avl_tree_delete_def Let_def)
  ultimately show ?thesis using rm(1) u(2) sd1 by (intro exI [of _ s1] exI [of _ u]) simp
qed

end
