(* ===== verification/Avl_Queue.thy ===== *)
theory Avl_Queue
  imports Avl_Delete
begin

text \<open>
  The array-backed AVL tree as a whole: the tree, its cached ends and the list of orphans
  (nodes an insertion had no room for) under one invariant, the effect of every operation on
  the in-order sequence and the orphans, and the contract of a priority queue.
\<close>

section \<open>The orphan list\<close>

fun oseg :: "nat \<Rightarrow> avl_nodes \<Rightarrow> u32 \<Rightarrow> u32 list \<Rightarrow> u32 \<Rightarrow> bool" where
  "oseg N h p [] i \<longleftrightarrow> i = 0"
| "oseg N h p (n # ns) i \<longleftrightarrow>
     i = n \<and> node_ok N n \<and> prev_orphan_id (h n) = p \<and> oseg N h n ns (next_orphan_id (h n))"

lemma oseg_cong:
  assumes "\<And>n. n \<in> set ns \<Longrightarrow> prev_orphan_id (h' n) = prev_orphan_id (h n) \<and> next_orphan_id (h' n) = next_orphan_id (h n)"
  shows "oseg N h' p ns i = oseg N h p ns i"
  using assms by (induction ns arbitrary: p i) auto

lemma oseg_nodes: "oseg N h p ns i \<Longrightarrow> n \<in> set ns \<Longrightarrow> node_ok N n"
  by (induction ns arbitrary: p i) auto

lemma oseg_first: "oseg N h p ns i \<Longrightarrow> avl_id_to_node N i = i \<and> (i = 0 \<longleftrightarrow> ns = [])"
  by (cases ns) auto

lemma oseg_links:
  "oseg N h p (as @ m # bs) i \<Longrightarrow> prev_orphan_id (h m) = (if as = [] then p else last as)
     \<and> next_orphan_id (h m) = (if bs = [] then 0 else hd bs) \<and> i = hd (as @ [m])"
proof (induction as arbitrary: p i)
  case Nil
  then show ?case by (cases bs) auto
next
  case (Cons a as)
  from Cons.prems have "oseg N h a (as @ m # bs) (next_orphan_id (h a))" "i = a" by simp_all
  with Cons.IH [OF this(1)] show ?case by simp
qed

lemma oseg_remove:
  assumes "oseg N h p (as @ m # bs) i" and "distinct (as @ m # bs)"
    and "\<And>n. n \<in> set as \<Longrightarrow> prev_orphan_id (h' n) = prev_orphan_id (h n)
      \<and> next_orphan_id (h' n) = (if n = last as then next_orphan_id (h m) else next_orphan_id (h n))"
    and "\<And>n. n \<in> set bs \<Longrightarrow> next_orphan_id (h' n) = next_orphan_id (h n)
      \<and> prev_orphan_id (h' n) = (if n = hd bs then prev_orphan_id (h m) else prev_orphan_id (h n))"
  shows "oseg N h' p (as @ bs) (if as = [] then next_orphan_id (h m) else i)"
  using assms
proof (induction as arbitrary: p i)
  case Nil
  show ?case
  proof (cases bs)
    case (Cons b bs')
    have "oseg N h' b bs' j = oseg N h b bs' j" for j
      by (rule oseg_cong) (use Nil Cons in auto)
    then show ?thesis using Nil Cons by auto
  qed (use Nil in auto)
next
  case (Cons a as)
  have "oseg N h' a (as @ bs) (if as = [] then next_orphan_id (h m) else next_orphan_id (h a))"
    by (rule Cons.IH) (use Cons.prems in \<open>auto split: if_splits\<close>)
  then show ?case using Cons.prems by auto
qed

section \<open>The invariant of a tree with its orphans\<close>

definition avl_inv :: "nat \<Rightarrow> avl_state \<Rightarrow> u32 list \<Rightarrow> u32 list \<Rightarrow> bool" where
  "avl_inv N s xs os \<longleftrightarrow> (\<exists>v. tree_ok N s v \<and> inorder v = xs) \<and> cache_ok s xs
     \<and> oseg N (snd s) 0 os (first_orphan_id (fst s)) \<and> distinct (xs @ os)
     \<and> (\<forall>n \<in> set xs. \<not> is_orphan (snd s n)) \<and> (\<forall>n \<in> set os. is_orphan (snd s n))"


lemma tree_ok_orphan [simp]:
  "tree_ok N (t, set_is_orphan x b h) v = tree_ok N (t, h) v"
  "tree_ok N (t, set_prev_orphan x i h) v = tree_ok N (t, h) v"
  "tree_ok N (t, set_next_orphan x i h) v = tree_ok N (t, h) v"
  "tree_ok N (t\<lparr>first_orphan_id := i\<rparr>, h) v = tree_ok N (t, h) v"
  by (simp_all add: tree_ok_def)

lemma cache_ok_orphan [simp]:
  "cache_ok (t, set_is_orphan x b h) xs = cache_ok (t, h) xs"
  "cache_ok (t, set_prev_orphan x i h) xs = cache_ok (t, h) xs"
  "cache_ok (t, set_next_orphan x i h) xs = cache_ok (t, h) xs"
  "cache_ok (t\<lparr>first_orphan_id := i\<rparr>, h) xs = cache_ok (t, h) xs"
  by (simp_all add: cache_ok_def)

lemma inv_insert_orphan:
  assumes inv: "avl_inv N (t, h) xs os" and n: "node_ok N n" "n \<notin> set xs" "n \<notin> set os"
  shows "avl_inv N (insert_orphan N n (t, set_is_orphan n True (fresh n h))) xs (n # os)"
proof -
  obtain v where v: "tree_ok N (t, h) v" "inorder v = xs" using inv by (auto simp: avl_inv_def)
  have nv: "n \<notin> set_tree v" using n(2) v(2) by auto
  have o: "oseg N h 0 os (first_orphan_id t)" "distinct os" using inv by (auto simp: avl_inv_def)
  have f: "first_orphan_id t = hd_id os" "avl_id_to_node N (hd_id os) = hd_id os" "hd_id os \<noteq> 0 \<longleftrightarrow> os \<noteq> []"
    using o by (cases os; auto)+
  let ?H = "set_is_orphan n True (fresh n h)"
  let ?t = "t\<lparr>first_orphan_id := n\<rparr>"
    and ?h = "set_prev_orphan n 0 (set_next_orphan n (hd_id os) (if os \<noteq> [] then set_prev_orphan (hd_id os) n ?H else ?H))"
  have e: "insert_orphan N n (t, ?H) = (?t, ?h)"
    using f by (simp add: insert_orphan_def Let_def)
  have "oseg N ?h n os (hd_id os)"
  proof (cases os)
    case (Cons b bs)
    have "oseg N ?h b bs j = oseg N h b bs j" for j
      by (rule oseg_cong) (use n(3) o(2) Cons in auto)
    then show ?thesis using o(1) n(3) Cons by auto
  qed simp
  moreover have "tree_ok N (?t, ?h) v" using v(1) tree_ok_fresh(1) [OF nv] by simp
  moreover have "cache_ok (?t, ?h) xs" using inv tree_ok_fresh(2) [OF nv] by (simp add: avl_inv_def)
  ultimately show ?thesis using inv n v(2) unfolding e avl_inv_def by auto
qed

lemma inv_pop_orphan:
  assumes inv: "avl_inv N (t, h) xs (n # os)"
  shows "\<exists>t' h'. pop_first_orphan N (t, h) = (n, (t', h')) \<and> avl_inv N (t', h') xs os
    \<and> (\<forall>m. key (h' m) = key (h m)) \<and> (\<forall>m. m \<notin> set (n # os) \<longrightarrow> h' m = h m)"
proof -
  obtain v where v: "tree_ok N (t, h) v" "inorder v = xs" using inv by (auto simp: avl_inv_def)
  have o: "oseg N h 0 ([] @ n # os) (first_orphan_id t)" "distinct ([] @ n # os)" using inv by (auto simp: avl_inv_def)
  have n: "n \<noteq> 0" "first_orphan_id t = n" "avl_id_to_node N n = n" using o by auto
  have nx: "next_orphan_id (h n) = hd_id os" "avl_id_to_node N (hd_id os) = hd_id os"
    using o by (cases os; auto)+
  have z: "hd_id os \<noteq> 0 \<longleftrightarrow> os \<noteq> []" "os \<noteq> [] \<Longrightarrow> hd_id os = hd os" "n \<noteq> hd_id os" using o by (cases os; auto)+
  let ?t = "t\<lparr>first_orphan_id := hd_id os\<rparr>"
    and ?h = "set_prev_orphan n 0 (set_next_orphan n 0 (if os \<noteq> [] then set_prev_orphan (hd_id os) 0 h else h))"
  have e: "pop_first_orphan N (t, h) = (n, (?t, ?h))"
    using n nx z(1) by (simp add: pop_first_orphan_def Let_def)
  have "oseg N ?h 0 ([] @ os) (if True then next_orphan_id (h n) else first_orphan_id t)"
    using oseg_remove [OF o, of ?h] o z(2) by force
  then have "oseg N ?h 0 os (hd_id os)" using nx(1) by simp
  moreover have "tree_ok N (?t, ?h) v" "cache_ok (?t, ?h) xs" using v(1) inv by (auto simp: avl_inv_def)
  moreover have "?h m = h m" if "m \<notin> set (n # os)" for m
    using that z(2) by (cases os) (auto simp: set_prev_orphan_other set_next_orphan_other)
  ultimately show ?thesis using inv v(2) e unfolding avl_inv_def by auto
qed

lemma inv_delete_orphan:
  assumes inv: "avl_inv N (t, h) xs os" and m: "m \<in> set os"
  shows "avl_inv N (avl_tree_delete N m (t, h)) xs (remove1 m os)"
    and "key (snd (avl_tree_delete N m (t, h)) n) = key (h n)"
proof -
  obtain v where v: "tree_ok N (t, h) v" "inorder v = xs" using inv by (auto simp: avl_inv_def)
  obtain as bs where os: "os = as @ m # bs" using m by (metis split_list)
  have o: "oseg N h 0 (as @ m # bs) (first_orphan_id t)" "distinct (as @ m # bs)" "is_orphan (h m)"
    using inv m os by (auto simp: avl_inv_def)
  note L = oseg_links [OF o(1)]
  have ok: "\<And>q. q \<in> set as \<union> set bs \<Longrightarrow> avl_id_to_node N q = q \<and> q \<noteq> 0"
    using oseg_nodes [OF o(1)] by (metis Un_iff id_to_node_ok list.set_intros(2) node_ok_nz set_append)
  let ?p = "prev_orphan_id (h m)" and ?n = "next_orphan_id (h m)"
  have p: "avl_id_to_node N ?p = ?p" "?p = 0 \<longleftrightarrow> as = []" "as \<noteq> [] \<Longrightarrow> ?p = last as"
    "avl_id_to_node N ?n = ?n" "?n = 0 \<longleftrightarrow> bs = []" "bs \<noteq> [] \<Longrightarrow> ?n = hd bs"
    using L ok by auto
  let ?t = "if as = [] then t\<lparr>first_orphan_id := ?n\<rparr> else t"
    and ?h1 = "if as = [] then h else set_next_orphan ?p ?n h"
  let ?h = "set_is_orphan m False (set_prev_orphan m 0 (set_next_orphan m 0
    (if bs = [] then ?h1 else set_prev_orphan ?n ?p ?h1)))"
  have "first_orphan_id t = m \<longleftrightarrow> as = []" using L o(2) by (cases as) auto
  then have e: "avl_tree_delete N m (t, h) = (?t, ?h)"
    using o(3) p(1,2,4,5) by (simp add: avl_tree_delete_def remove_orphan_def Let_def)
  have "oseg N ?h 0 (as @ bs) (if as = [] then ?n else first_orphan_id t)"
  proof (rule oseg_remove [OF o(1,2)])
    fix q assume q: "q \<in> set as"
    then have "q \<noteq> m" "bs \<noteq> [] \<Longrightarrow> q \<noteq> hd bs" using o(2) by auto
    then show "prev_orphan_id (?h q) = prev_orphan_id (h q)
      \<and> next_orphan_id (?h q) = (if q = last as then ?n else next_orphan_id (h q))" using q p(3,6) by auto
  next
    fix q assume q: "q \<in> set bs"
    then have "q \<noteq> m" "as \<noteq> [] \<Longrightarrow> q \<noteq> last as" using o(2) last_in_set [of as] by (auto simp: disjoint_iff)
    then show "next_orphan_id (?h q) = next_orphan_id (h q)
      \<and> prev_orphan_id (?h q) = (if q = hd bs then ?p else prev_orphan_id (h q))" using q p(3,6) by auto
  qed
  moreover have "tree_ok N (?t, ?h) v" "cache_ok (?t, ?h) xs" using v(1) inv by (auto simp: avl_inv_def)
  moreover have "remove1 m os = as @ bs" using os o(2) by (auto simp: remove1_append)
  ultimately show "avl_inv N (avl_tree_delete N m (t, h)) xs (remove1 m os)"
    using inv v(2) os unfolding e avl_inv_def by auto
  show "key (snd (avl_tree_delete N m (t, h)) n) = key (h n)" unfolding e by simp
qed


section \<open>The smallest balanced trees\<close>

text \<open>Sizes of the smallest balanced trees of two consecutive heights.\<close>

fun avl_min_sizes :: "nat \<Rightarrow> nat \<times> nat" where
  "avl_min_sizes 0 = (0, 1)"
| "avl_min_sizes (Suc k) = (case avl_min_sizes k of (a, b) \<Rightarrow> (b, a + b + 1))"

lemma min_sizes_snd: "snd (avl_min_sizes k) = fst (avl_min_sizes (Suc k))"
  by (simp split: prod.splits)

lemma min_sizes_Suc2: "fst (avl_min_sizes (Suc (Suc k))) = fst (avl_min_sizes k) + fst (avl_min_sizes (Suc k)) + 1"
  by (simp split: prod.splits)

lemma min_sizes_mono: "j \<le> k \<Longrightarrow> fst (avl_min_sizes j) \<le> fst (avl_min_sizes k)"
proof (rule lift_Suc_mono_le [of "\<lambda>k. fst (avl_min_sizes k)"])
  show "fst (avl_min_sizes n) \<le> fst (avl_min_sizes (Suc n))" for n
    by (cases n) (auto simp del: avl_min_sizes.simps(2) simp: min_sizes_Suc2)
qed

lemma bal_ok_size: "bal_ok h v \<Longrightarrow> fst (avl_min_sizes (height v)) \<le> size v"
proof (induction v)
  case (Node l n r)
  let ?m = "\<lambda>k. fst (avl_min_sizes k)"
  have IH: "?m (height l) \<le> size l" "?m (height r) \<le> size r" using Node by auto
  consider "height l = height r" | "height l = Suc (height r)" | "height r = Suc (height l)"
    using Node.prems by (auto simp: abs_le_iff) linarith
  then show ?case
  proof cases
    case 1
    have "?m (Suc k) \<le> ?m k + ?m k + 1" for k
      by (cases k) (simp, simp del: avl_min_sizes.simps(2) add: min_sizes_Suc2 min_sizes_mono)
    then have "?m (Suc (height r)) \<le> ?m (height r) + ?m (height r) + 1" .
    then show ?thesis using 1 IH by (simp del: avl_min_sizes.simps(2))
  next
    case 2
    then show ?thesis using IH by (simp del: avl_min_sizes.simps(2) add: min_sizes_Suc2)
  next
    case 3
    then show ?thesis using IH by (simp del: avl_min_sizes.simps(2) add: min_sizes_Suc2)
  qed
qed simp

lemma min_sizes_numeral:
  "avl_min_sizes (numeral k) = (case avl_min_sizes (pred_numeral k) of (a, b) \<Rightarrow> (b, a + b + 1))"
  by (simp add: numeral_eq_Suc)

lemma min_size_23: "fst (avl_min_sizes MAX_AVL_HEIGHT) = 75024"
proof -
  have "avl_min_sizes 1 = (1, 2)" by simp
  then show ?thesis by (simp add: MAX_AVL_HEIGHT_def min_sizes_numeral del: One_nat_def)
qed

lemma tall_tree_size:
  assumes "bal_ok h v" and "MAX_AVL_HEIGHT \<le> height v"
  shows "75024 \<le> length (inorder v)"
  using bal_ok_size [OF assms(1)] min_sizes_mono [OF assms(2)] min_size_23 by simp

section \<open>The operations on the invariant\<close>

lemma inv_insert:
  assumes inv: "avl_inv N s xs os" and n: "node_ok N n" "n \<notin> set xs" "n \<notin> set os" and s': "s' = avl_tree_insert N n s"
  shows "avl_inv N s' (ins_after (\<lambda>m. key (snd s m)) n xs) os \<or> (75024 \<le> length xs \<and> avl_inv N s' xs (n # os))"
    and "key (snd s' m) = key (snd s m)" and "m \<noteq> n \<Longrightarrow> m \<notin> set xs \<Longrightarrow> m \<notin> set os \<Longrightarrow> snd s' m = snd s m"
proof -
  obtain t h where s: "s = (t, h)" by (cases s)
  obtain v where v: "tree_ok N (t, h) v" "inorder v = xs" and ca: "cache_ok (t, h) (inorder v)"
    using inv s by (auto simp: avl_inv_def)
  have nv: "n \<notin> set_tree v" using n(2) v(2) by auto
  from tree_insert_at [OF v(1) ca n(1) nv]
  consider (tree) "inserted N (t, h) n xs s'"
    | (orphan) "MAX_AVL_HEIGHT \<le> height v" "s' = insert_orphan N n (t, set_is_orphan n True (fresh n h))"
    using s s' v(2) by auto
  then have "(avl_inv N s' (ins_after (\<lambda>m. key (snd s m)) n xs) os \<or> (75024 \<le> length xs \<and> avl_inv N s' xs (n # os)))
    \<and> key (snd s' m) = key (snd s m) \<and> (m \<noteq> n \<longrightarrow> m \<notin> set xs \<longrightarrow> m \<notin> set os \<longrightarrow> snd s' m = snd s m)"
  proof cases
    case tree
    then have sd: "same_data (fresh n h) (snd s')" and fo: "first_orphan_id (fst s') = first_orphan_id t"
      by (simp_all add: inserted_def)
    have "oseg N (snd s') 0 os (first_orphan_id t) = oseg N h 0 os (first_orphan_id t)"
      by (rule oseg_cong) (use sd in \<open>simp add: same_data_def\<close>)
    then show ?thesis using tree inv n sd fo unfolding avl_inv_def inserted_def s same_data_def by auto
  next
    case orphan
    have "bal_ok h v" using v(1) by (simp add: tree_ok_def)
    then have "75024 \<le> length xs" using tall_tree_size orphan(1) v(2) by blast
    moreover have "avl_inv N s' xs (n # os)"
      unfolding orphan(2) using inv n s by (intro inv_insert_orphan) auto
    moreover have "key (snd s' m) = key (snd s m)" unfolding orphan(2) s by (simp add: insert_orphan_def Let_def)
    moreover have "snd s' m = snd s m" if "m \<noteq> n" "m \<notin> set os"
    proof -
      have "avl_id_to_node N (first_orphan_id t) \<noteq> 0 \<longrightarrow> m \<noteq> avl_id_to_node N (first_orphan_id t)"
        using inv s that(2) by (cases os) (auto simp: avl_inv_def)
      then show ?thesis using that(1) unfolding orphan(2) s
        by (simp add: insert_orphan_def Let_def set_prev_orphan_other set_next_orphan_other set_is_orphan_other
            set_balance_other set_right_other set_left_other)
    qed
    ultimately show ?thesis by blast
  qed
  then show "avl_inv N s' (ins_after (\<lambda>m. key (snd s m)) n xs) os \<or> (75024 \<le> length xs \<and> avl_inv N s' xs (n # os))"
    "key (snd s' m) = key (snd s m)" "m \<noteq> n \<Longrightarrow> m \<notin> set xs \<Longrightarrow> m \<notin> set os \<Longrightarrow> snd s' m = snd s m" by blast+
qed

lemma inv_delete:
  assumes inv: "avl_inv N s xs os" and m: "m \<in> set xs" and s': "s' = avl_tree_delete N m s"
  shows "case os of [] \<Rightarrow> avl_inv N s' (remove1 m xs) []
      | n # ns \<Rightarrow> avl_inv N s' (ins_after (\<lambda>q. key (snd s q)) n (remove1 m xs)) ns
          \<or> (75024 < length xs \<and> avl_inv N s' (remove1 m xs) os)"
    and "key (snd s' q) = key (snd s q)" and "q \<notin> set xs \<Longrightarrow> q \<notin> set os \<Longrightarrow> snd s' q = snd s q"
proof -
  obtain t h where s: "s = (t, h)" by (cases s)
  obtain v where v: "tree_ok N (t, h) v" "inorder v = xs" and ca: "cache_ok (t, h) (inorder v)"
    using inv s by (auto simp: avl_inv_def)
  have "m \<in> set_tree v" "\<not> is_orphan (h m)" using m v(2) inv s by (auto simp: avl_inv_def)
  from tree_delete_at [OF v(1) ca this] v(2)
  obtain s1 where s1: "\<exists>w. tree_ok N s1 w \<and> inorder w = remove1 m xs" "cache_ok s1 (remove1 m xs)"
    "first_orphan_id (fst s1) = first_orphan_id t" "same_data h (snd s1)"
    "\<forall>n. n \<notin> set_tree v \<longrightarrow> snd s1 n = h n"
    "s' = (let (o', s) = pop_first_orphan N s1 in if o' \<noteq> 0 then avl_tree_insert N o' s else s)"
    using s s' by blast
  have sx: "set_tree v = set xs" using v(2) by auto
  have d: "distinct xs" using inv by (simp add: avl_inv_def)
  have "oseg N (snd s1) 0 os (first_orphan_id t) = oseg N h 0 os (first_orphan_id t)"
    by (rule oseg_cong) (use s1(4) in \<open>simp add: same_data_def\<close>)
  then have i1: "avl_inv N s1 (remove1 m xs) os"
    using inv s1(1-4) s d set_remove1_subset [of m xs] unfolding avl_inv_def same_data_def by auto
  have len: "length xs = Suc (length (remove1 m xs))" using m length_pos_if_in_set [OF m] by (simp add: length_remove1)
  have k1: "key (snd s1 q) = key (snd s q)" for q using s1(4) s by (simp add: same_data_def)
  have f1: "snd s1 q = snd s q" if "q \<notin> set xs" for q using that s1(5) sx s by simp
  have "(case os of [] \<Rightarrow> avl_inv N s' (remove1 m xs) []
      | n # ns \<Rightarrow> avl_inv N s' (ins_after (\<lambda>q. key (snd s q)) n (remove1 m xs)) ns
          \<or> (75024 < length xs \<and> avl_inv N s' (remove1 m xs) os))
    \<and> (\<forall>q. key (snd s' q) = key (snd s q)) \<and> (\<forall>q. q \<notin> set xs \<longrightarrow> q \<notin> set os \<longrightarrow> snd s' q = snd s q)"
  proof (cases os)
    case Nil
    then have "pop_first_orphan N s1 = (0, s1)" using i1 by (cases s1) (simp add: pop_first_orphan_def avl_inv_def)
    then have "s' = s1" using s1(6) by simp
    then show ?thesis using i1 k1 f1 Nil by simp
  next
    case (Cons n ns)
    obtain t1 h1 where e1: "s1 = (t1, h1)" by (cases s1)
    obtain t2 h2 where p: "pop_first_orphan N (t1, h1) = (n, (t2, h2))" "avl_inv N (t2, h2) (remove1 m xs) ns"
      "\<forall>q. key (h2 q) = key (h1 q)" "\<forall>q. q \<notin> set (n # ns) \<longrightarrow> h2 q = h1 q"
      using inv_pop_orphan i1 Cons e1 by blast
    have n: "node_ok N n" "n \<notin> set (remove1 m xs)" "n \<notin> set ns" using i1 Cons by (auto simp: avl_inv_def)
    then have e: "s' = avl_tree_insert N n (t2, h2)" using s1(6) p(1) e1 by auto
    note I = inv_insert [OF p(2) n e]
    have kk: "(\<lambda>q. key (h2 q)) = (\<lambda>q. key (snd s q))" using p(3) k1 e1 by auto
    have "snd s' q = snd s q" if "q \<notin> set xs" "q \<notin> set os" for q
    proof -
      have "snd s' q = h2 q" using I(3) [of q] that Cons set_remove1_subset [of m xs] by auto
      then show ?thesis using p(4) f1 [OF that(1)] that(2) Cons e1 by auto
    qed
    then show ?thesis using I(1) I(2) kk len Cons by (auto simp: fun_eq_iff)
  qed
  then show "case os of [] \<Rightarrow> avl_inv N s' (remove1 m xs) []
      | n # ns \<Rightarrow> avl_inv N s' (ins_after (\<lambda>q. key (snd s q)) n (remove1 m xs)) ns
          \<or> (75024 < length xs \<and> avl_inv N s' (remove1 m xs) os)"
    "key (snd s' q) = key (snd s q)" "q \<notin> set xs \<Longrightarrow> q \<notin> set os \<Longrightarrow> snd s' q = snd s q" by blast+
qed

section \<open>Runs\<close>

lemma avl_inv_init: "avl_inv N (avl_tree_init t, h) [] []"
  by (auto simp: avl_inv_def tree_ok_def cache_ok_def avl_tree_init_def intro!: exI [of _ Leaf])

lemma avl_inv_frame:
  assumes inv: "avl_inv N (t, h) xs os" and same: "\<And>n. n \<in> set xs \<union> set os \<Longrightarrow> h' n = h n"
  shows "avl_inv N (t, h') xs os"
proof -
  obtain v where v: "tree_ok N (t, h) v" "inorder v = xs" using inv by (auto simp: avl_inv_def)
  have sv: "set_tree v = set xs" using v(2) by auto
  have k: "map (\<lambda>n. key (h' n)) xs = map (\<lambda>n. key (h n)) xs" using same by (intro map_cong) auto
  have "tree_at N h' 0 v (root t) = tree_at N h 0 v (root t)" "bal_ok h' v = bal_ok h v"
    by (rule tree_at_cong bal_ok_cong; use same sv in auto)+
  then have "tree_ok N (t, h') v" using v unfolding tree_ok_def v(2) snd_conv fst_conv k by simp
  moreover have "oseg N h' 0 os i = oseg N h 0 os i" for i by (rule oseg_cong) (use same in auto)
  moreover have "cache_ok (t, h') xs = cache_ok (t, h) xs"
    using same hd_in_set [of xs] last_in_set [of xs] by (auto simp: cache_ok_def)
  ultimately show ?thesis using inv v(2) same unfolding avl_inv_def by auto
qed

text \<open>
  The client of a tree: it sets the key of a node that is not in the tree, inserts a node
  that is not in the tree, and deletes or pops nodes.  \<open>M\<close> is the set of nodes in the tree.
\<close>

inductive avl_run :: "nat \<Rightarrow> avl_state \<Rightarrow> u32 set \<Rightarrow> bool" for N where
  run_init: "avl_run N (avl_tree_init t, h) {}"
| run_key: "avl_run N (t, h) M \<Longrightarrow> n \<notin> M \<Longrightarrow> avl_run N (t, h(n := (h n)\<lparr>key := k\<rparr>)) M"
| run_insert: "avl_run N s M \<Longrightarrow> node_ok N n \<Longrightarrow> n \<notin> M \<Longrightarrow> avl_run N (avl_tree_insert N n s) (insert n M)"
| run_delete: "avl_run N s M \<Longrightarrow> n \<in> M \<Longrightarrow> avl_run N (avl_tree_delete N n s) (M - {n})"
| run_pop_min: "avl_run N s M \<Longrightarrow> avl_tree_pop_min N s = (n, s') \<Longrightarrow> avl_run N s' (M - {n})"
| run_pop_max: "avl_run N s M \<Longrightarrow> avl_tree_pop_max N s = (n, s') \<Longrightarrow> avl_run N s' (M - {n})"

lemma inv_delete_any:
  assumes inv: "avl_inv N s xs os" and m: "m \<in> set xs \<union> set os"
  shows "\<exists>ys ps. avl_inv N (avl_tree_delete N m s) ys ps \<and> set ys \<union> set ps = set xs \<union> set os - {m}"
proof -
  have d: "distinct xs" "distinct os" "set xs \<inter> set os = {}" using inv by (auto simp: avl_inv_def)
  show ?thesis
  proof (cases "m \<in> set xs")
    case True
    let ?xs = "remove1 m xs" and ?s = "avl_tree_delete N m s"
    have sx: "set ?xs \<union> set os = set xs \<union> set os - {m}" using d True by auto
    show ?thesis
    proof (cases os)
      case Nil
      then show ?thesis using inv_delete(1) [OF inv True refl] sx
        by (intro exI [of _ ?xs] exI [of _ "[]"]) simp
    next
      case (Cons n ns)
      let ?ys = "ins_after (\<lambda>q. key (snd s q)) n ?xs"
      have "set ?ys \<union> set ns = set ?xs \<union> set os" using Cons by auto
      moreover have "avl_inv N ?s ?ys ns \<or> avl_inv N ?s ?xs os" using inv_delete(1) [OF inv True refl] Cons by auto
      ultimately show ?thesis using sx by blast
    qed
  next
    case False
    then have mo: "m \<in> set os" using m by simp
    have "set xs \<union> set (remove1 m os) = set xs \<union> set os - {m}" using d False by auto
    then show ?thesis using inv_delete_orphan(1) [of N "fst s" "snd s" xs os m] inv mo by auto
  qed
qed

lemma avl_tree_ends:
  assumes "avl_inv N s xs os"
  shows "avl_tree_min N s = hd_id xs" and "avl_tree_max N s = hd_id (rev xs)"
proof -
  obtain v where v: "tree_at N (snd s) 0 v (root (fst s))" "inorder v = xs" using assms by (auto simp: avl_inv_def tree_ok_def)
  have ok: "\<And>n. n \<in> set xs \<Longrightarrow> avl_id_to_node N n = n"
    using tree_at_nodes [OF v(1)] v(2) by (metis id_to_node_ok set_inorder)
  have ca: "cache_ok s xs" using assms by (simp add: avl_inv_def)
  show "avl_tree_min N s = hd_id xs"
    using ca ok by (cases s; cases xs) (simp_all add: avl_tree_min_def cache_ok_def)
  show "avl_tree_max N s = hd_id (rev xs)"
    using ca ok by (cases s; cases xs rule: rev_cases) (simp_all add: avl_tree_max_def cache_ok_def)
qed

lemma inv_nodes:
  assumes "avl_inv N s xs os" and "n \<in> set xs \<union> set os"
  shows "node_ok N n"
proof -
  obtain v where v: "tree_at N (snd s) 0 v (root (fst s))" "inorder v = xs" using assms(1) by (auto simp: avl_inv_def tree_ok_def)
  have "oseg N (snd s) 0 os (first_orphan_id (fst s))" using assms(1) by (simp add: avl_inv_def)
  then show ?thesis using assms(2) tree_at_nodes [OF v(1)] v(2) oseg_nodes by (metis Un_iff set_inorder)
qed

lemma inv_pop_any:
  assumes inv: "avl_inv N s xs os" and x: "x = hd_id ys" "set ys \<subseteq> set xs"
    and s': "s' = (if x \<noteq> 0 then avl_tree_delete N x s else s)"
  shows "\<exists>zs ps. avl_inv N s' zs ps \<and> set zs \<union> set ps = set xs \<union> set os - {x}"
proof (cases ys)
  case Nil
  have "0 \<notin> set xs \<union> set os" using inv_nodes [OF inv, of 0] by auto
  then show ?thesis using inv x s' Nil by (intro exI [of _ xs] exI [of _ os]) simp
next
  case (Cons y zs)
  then have y: "x = y" "y \<in> set xs \<union> set os" using x by auto
  then have "x \<noteq> 0" using inv_nodes [OF inv, of y] by auto
  then show ?thesis using inv_delete_any [OF inv y(2)] y(1) s' by simp
qed

lemma avl_run_inv: "avl_run N s M \<Longrightarrow> \<exists>xs os. avl_inv N s xs os \<and> set xs \<union> set os = M"
proof (induction rule: avl_run.induct)
  case (run_init t h)
  show ?case by (intro exI [of _ "[]"] conjI avl_inv_init) simp
next
  case (run_key t h M n k)
  then obtain xs os where i: "avl_inv N (t, h) xs os" "set xs \<union> set os = M" by blast
  have "avl_inv N (t, h(n := (h n)\<lparr>key := k\<rparr>)) xs os"
    by (rule avl_inv_frame [OF i(1)]) (use i(2) run_key.hyps(2) in auto)
  then show ?case using i(2) by blast
next
  case (run_insert s M n)
  then obtain xs os where i: "avl_inv N s xs os" "set xs \<union> set os = M" by blast
  then have n: "n \<notin> set xs" "n \<notin> set os" using run_insert.hyps(3) by auto
  let ?ys = "ins_after (\<lambda>m. key (snd s m)) n xs" and ?s = "avl_tree_insert N n s"
  have "avl_inv N ?s ?ys os \<or> avl_inv N ?s xs (n # os)"
    using inv_insert(1) [OF i(1) run_insert.hyps(2) n refl] by blast
  moreover have "set ?ys \<union> set os = insert n M" "set xs \<union> set (n # os) = insert n M" using i(2) by auto
  ultimately show ?case by blast
next
  case (run_delete s M n)
  then show ?case using inv_delete_any by blast
next
  case (run_pop_min s M n s')
  then obtain xs os where i: "avl_inv N s xs os" "set xs \<union> set os = M" by blast
  have "n = hd_id xs" "s' = (if n \<noteq> 0 then avl_tree_delete N n s else s)"
    using run_pop_min.hyps(2) avl_tree_ends(1) [OF i(1)] by (auto simp: avl_tree_pop_min_def Let_def)
  from inv_pop_any [OF i(1) this(1) _ this(2)] show ?case using i(2) by simp
next
  case (run_pop_max s M n s')
  then obtain xs os where i: "avl_inv N s xs os" "set xs \<union> set os = M" by blast
  have "n = hd_id (rev xs)" "s' = (if n \<noteq> 0 then avl_tree_delete N n s else s)"
    using run_pop_max.hyps(2) avl_tree_ends(2) [OF i(1)] by (auto simp: avl_tree_pop_max_def Let_def)
  from inv_pop_any [OF i(1) this(1) _ this(2)] show ?case using i(2) by simp
qed

section \<open>Trees that never orphan\<close>

lemma card_node_ok: "card {i. node_ok N i} \<le> N - 1"
proof -
  have "inj_on (\<lambda>i::u32. unat (i - 1)) {i. node_ok N i}"
  proof (rule inj_onI)
    fix x y :: u32 assume "unat (x - 1) = unat (y - 1)"
    then have "x - 1 = y - 1" by (simp only: word_unat_eq_iff)
    then show "x = y" by simp
  qed
  moreover have "(\<lambda>i::u32. unat (i - 1)) ` {i. node_ok N i} \<subseteq> {..<N - 1}" by (auto simp: node_ok_def)
  ultimately show ?thesis using card_inj_on_le [of _ "{i. node_ok N i}" "{..<N - 1}"] by fastforce
qed

lemma inv_room:
  assumes "avl_inv N s xs []" and "node_ok N n" and "n \<notin> set xs"
  shows "Suc (length xs) < N"
proof -
  have "distinct (n # xs)" using assms by (auto simp: avl_inv_def)
  then have "card (set (n # xs)) = Suc (length xs)" using distinct_card by fastforce
  moreover have "set (n # xs) \<subseteq> {i. node_ok N i}" using assms inv_nodes [OF assms(1)] by auto
  then have "card (set (n # xs)) \<le> N - 1" using card_mono [OF finite] card_node_ok le_trans by blast
  ultimately show ?thesis by simp
qed

lemma inv_insert_room:
  assumes "N \<le> 75025" and "avl_inv N s xs []" and "node_ok N n" and "n \<notin> set xs"
  shows "avl_inv N (avl_tree_insert N n s) (ins_after (\<lambda>m. key (snd s m)) n xs) []"
  using inv_insert(1) [OF assms(2-4) _ refl] inv_room [OF assms(2-4)] assms(1) by auto

lemma inv_delete_room:
  assumes "avl_inv N s xs []" and "m \<in> set xs"
  shows "avl_inv N (avl_tree_delete N m s) (remove1 m xs) []"
  using inv_delete(1) [OF assms refl] by simp

lemma inv_pop_min:
  assumes inv: "avl_inv N s xs []"
  shows "xs = [] \<Longrightarrow> avl_tree_pop_min N s = (0, s)"
    and "xs \<noteq> [] \<Longrightarrow> fst (avl_tree_pop_min N s) = hd xs \<and> avl_inv N (snd (avl_tree_pop_min N s)) (tl xs) []"
proof -
  note m = avl_tree_ends(1) [OF inv]
  show "xs = [] \<Longrightarrow> avl_tree_pop_min N s = (0, s)" using m by (simp add: avl_tree_pop_min_def)
  assume "xs \<noteq> []"
  then obtain y ys where y: "xs = y # ys" by (cases xs) auto
  have "y \<noteq> 0" using inv_nodes [OF inv, of y] y by auto
  then show "fst (avl_tree_pop_min N s) = hd xs \<and> avl_inv N (snd (avl_tree_pop_min N s)) (tl xs) []"
    using m y inv_delete_room [OF inv, of y] by (simp add: avl_tree_pop_min_def)
qed

lemma inv_pop_max:
  assumes inv: "avl_inv N s xs []"
  shows "xs = [] \<Longrightarrow> avl_tree_pop_max N s = (0, s)"
    and "xs \<noteq> [] \<Longrightarrow> fst (avl_tree_pop_max N s) = last xs \<and> avl_inv N (snd (avl_tree_pop_max N s)) (butlast xs) []"
proof -
  note m = avl_tree_ends(2) [OF inv]
  show "xs = [] \<Longrightarrow> avl_tree_pop_max N s = (0, s)" using m by (simp add: avl_tree_pop_max_def)
  assume "xs \<noteq> []"
  then obtain y ys where y: "xs = ys @ [y]" by (cases xs rule: rev_cases) auto
  have "y \<noteq> 0" using inv_nodes [OF inv, of y] y by auto
  moreover have "remove1 y xs = ys" using inv y by (auto simp: avl_inv_def remove1_append)
  ultimately show "fst (avl_tree_pop_max N s) = last xs \<and> avl_inv N (snd (avl_tree_pop_max N s)) (butlast xs) []"
    using m y inv_delete_room [OF inv, of y] by (simp add: avl_tree_pop_max_def)
qed

lemma inv_sorted: "avl_inv N s xs os \<Longrightarrow> sorted (map (\<lambda>n. key (snd s n)) xs)"
  by (auto simp: avl_inv_def tree_ok_def)

lemma avl_run_room:
  assumes N: "N \<le> 75025"
  shows "avl_run N s M \<Longrightarrow> \<exists>xs. avl_inv N s xs [] \<and> set xs = M"
proof (induction rule: avl_run.induct)
  case (run_init t h)
  show ?case by (intro exI [of _ "[]"] conjI avl_inv_init) simp
next
  case (run_key t h M n k)
  then obtain xs where i: "avl_inv N (t, h) xs []" "set xs = M" by blast
  have "avl_inv N (t, h(n := (h n)\<lparr>key := k\<rparr>)) xs []"
    by (rule avl_inv_frame [OF i(1)]) (use i(2) run_key.hyps(2) in auto)
  then show ?case using i(2) by blast
next
  case (run_insert s M n)
  then obtain xs where i: "avl_inv N s xs []" "set xs = M" by blast
  then show ?case using inv_insert_room [OF N i(1) run_insert.hyps(2)] run_insert.hyps(3) by fastforce
next
  case (run_delete s M n)
  then obtain xs where i: "avl_inv N s xs []" "set xs = M" by blast
  then have "set (remove1 n xs) = M - {n}" by (simp add: avl_inv_def)
  then show ?case using inv_delete_room [OF i(1)] run_delete.hyps(2) i(2) by blast
next
  case (run_pop_min s M n s')
  then obtain xs where i: "avl_inv N s xs []" "set xs = M" by blast
  have d: "distinct xs" using i(1) by (simp add: avl_inv_def)
  have z: "0 \<notin> set xs" using inv_nodes [OF i(1), of 0] by auto
  show ?case
  proof (cases xs)
    case (Cons y ys)
    then have "n = y" "avl_inv N s' ys []" using inv_pop_min(2) [OF i(1)] run_pop_min.hyps(2) by auto
    moreover have "set ys = M - {y}" using d Cons i(2) by auto
    ultimately show ?thesis by blast
  qed (use inv_pop_min(1) [OF i(1)] run_pop_min.hyps(2) i z in auto)
next
  case (run_pop_max s M n s')
  then obtain xs where i: "avl_inv N s xs []" "set xs = M" by blast
  have d: "distinct xs" using i(1) by (simp add: avl_inv_def)
  have z: "0 \<notin> set xs" using inv_nodes [OF i(1), of 0] by auto
  show ?case
  proof (cases xs rule: rev_cases)
    case (snoc ys y)
    then have "n = y" "avl_inv N s' ys []" using inv_pop_max(2) [OF i(1)] run_pop_max.hyps(2) by auto
    moreover have "set ys = M - {y}" using d snoc i(2) by auto
    ultimately show ?thesis by blast
  qed (use inv_pop_max(1) [OF i(1)] run_pop_max.hyps(2) i z in auto)
qed

section \<open>The tree as a priority queue\<close>

interpretation avlq: stable_pq "\<lambda>s xs. N \<le> 75025 \<and> avl_inv N s xs []" "node_ok N" "\<lambda>s n. key (snd s n)"
  "avl_tree_insert N" "avl_tree_pop_min N" for N
proof unfold_locales
  fix s xs x
  assume a: "N \<le> 75025 \<and> avl_inv N s xs []" "node_ok N x" "x \<notin> set xs"
  then show "N \<le> 75025 \<and> avl_inv N (avl_tree_insert N x s) (ins_after (\<lambda>n. key (snd s n)) x xs) []"
    using inv_insert_room by blast
  show "(\<lambda>n. key (snd (avl_tree_insert N x s) n)) = (\<lambda>n. key (snd s n))"
    using inv_insert(2) [of N s xs "[]" x] a by auto
next
  fix s x xs
  assume "N \<le> 75025 \<and> avl_inv N s (x # xs) []"
  then show "fst (avl_tree_pop_min N s) = x \<and> N \<le> 75025 \<and> avl_inv N (snd (avl_tree_pop_min N s)) xs []"
    using inv_pop_min(2) [of N s "x # xs"] by simp
qed

section \<open>Properties\<close>

text \<open>An array of four slots with keys in its nodes, and an empty tree over it.\<close>

definition ex_nodes :: avl_nodes where
  "ex_nodes i = \<lparr>key = (if i = 1 then 7 else 5), left_id = 0, right_id = 0, parent_id = 0, balance = 0,
     is_orphan = False, prev_orphan_id = 0, next_orphan_id = 0\<rparr>"

definition ex_avl :: avl_state where
  "ex_avl = (avl_tree_init \<lparr>root = 1, min_id = 0, min_key = 0, max_id = 0, max_key = 0, first_orphan_id = 3\<rparr>, ex_nodes)"

lemma ex_avl_inv: "avl_inv 4 ex_avl [] []"
  by (simp add: ex_avl_def avl_inv_init)

lemma ex_avl_inv2: "avl_inv 4 (avl_tree_insert 4 1 ex_avl) [1] []"
  using inv_insert_room [OF _ ex_avl_inv, of 1] by (simp add: node_ok_def)

text \<open>
  C12. \<open>avl_tree_insert\<close>: on a tree whose in-order sequence is \<open>xs\<close> and whose orphans are \<open>os\<close>,
  with the balance factors, the cached ends and the orphan links consistent, inserting a node
  that is in neither puts it behind all nodes whose key is not larger and keeps everything
  consistent.  The only other outcome is that the node becomes an orphan, and then the tree
  has at least 75024 nodes.  No key changes and no node outside the tree and the orphans is
  written.
\<close>

theorem avl_tree_insert_refines:
  assumes "avl_inv N s xs os" and "node_ok N n" and "n \<notin> set xs" and "n \<notin> set os"
  shows "let s' = avl_tree_insert N n s in
    (avl_inv N s' (ins_after (\<lambda>m. key (snd s m)) n xs) os \<or> 75024 \<le> length xs \<and> avl_inv N s' xs (n # os))
    \<and> (\<forall>m. key (snd s' m) = key (snd s m))
    \<and> (\<forall>m. m \<noteq> n \<and> m \<notin> set xs \<and> m \<notin> set os \<longrightarrow> snd s' m = snd s m)"
  using inv_insert [OF assms refl] by (simp add: Let_def)

theorem avl_tree_insert_refines_witness:
  "avl_inv 4 (avl_tree_insert 4 2 (avl_tree_insert 4 1 ex_avl)) [2, 1] []
   \<and> snd (avl_tree_insert 4 2 (avl_tree_insert 4 1 ex_avl)) 3 = snd (avl_tree_insert 4 1 ex_avl) 3"
proof -
  have k: "key (snd (avl_tree_insert 4 1 ex_avl) m) = key (ex_nodes m)" for m
    using inv_insert(2) [OF ex_avl_inv, of 1 _ m] by (simp add: node_ok_def ex_avl_def)
  show ?thesis
    using avl_tree_insert_refines [OF ex_avl_inv2, of 2] by (simp add: node_ok_def Let_def k ex_nodes_def)
qed

text \<open>
  C13. \<open>avl_tree_delete\<close>: deleting a node of the tree takes exactly it out of the in-order sequence,
  and then the first orphan, if there is one, is inserted (or stays the first orphan when the
  tree is too large); deleting an orphan only takes it off the orphan list.  The invariant is
  kept, no key changes, and nothing outside the tree and the orphans is written.
\<close>

theorem avl_tree_delete_refines:
  assumes "avl_inv N s xs os" and "m \<in> set xs \<union> set os"
  shows "let s' = avl_tree_delete N m s; xs' = remove1 m xs in
    (if m \<in> set os then avl_inv N s' xs (remove1 m os)
     else case os of [] \<Rightarrow> avl_inv N s' xs' []
       | n # ns \<Rightarrow> avl_inv N s' (ins_after (\<lambda>q. key (snd s q)) n xs') ns
           \<or> 75024 < length xs \<and> avl_inv N s' xs' os)
    \<and> (\<forall>q. key (snd s' q) = key (snd s q))"
proof (cases "m \<in> set os")
  case True
  then show ?thesis using inv_delete_orphan [of N "fst s" "snd s" xs os m] assms(1) by (simp add: Let_def)
next
  case False
  then have "m \<in> set xs" using assms(2) by simp
  then show ?thesis using inv_delete(1,2) [OF assms(1) _ refl] False by (simp add: Let_def)
qed

theorem avl_tree_delete_refines_witness: "avl_inv 4 (avl_tree_delete 4 1 (avl_tree_insert 4 1 ex_avl)) [] []"
  using avl_tree_delete_refines [OF ex_avl_inv2, of 1] by (simp add: Let_def)

text \<open>
  C28. Popping: on a tree without orphans \<open>avl_tree_pop_min\<close> returns NULL and changes nothing when
  the tree is empty, and otherwise takes out the first node, whose key is the smallest and which
  is the oldest of that key; \<open>avl_tree_pop_max\<close> takes out the last one.
\<close>

theorem avl_tree_pop_refines:
  assumes "avl_inv N s xs []"
  shows "if xs = [] then avl_tree_pop_min N s = (0, s) \<and> avl_tree_pop_max N s = (0, s)
    else fst (avl_tree_pop_min N s) = hd xs \<and> avl_inv N (snd (avl_tree_pop_min N s)) (tl xs) []
       \<and> fst (avl_tree_pop_max N s) = last xs \<and> avl_inv N (snd (avl_tree_pop_max N s)) (butlast xs) []
       \<and> (\<forall>n \<in> set xs. key (snd s (hd xs)) \<le> key (snd s n) \<and> key (snd s n) \<le> key (snd s (last xs)))"
proof (cases "xs = []")
  case False
  let ?f = "\<lambda>n. key (snd s n)"
  have "?f (hd xs) \<le> ?f n" if "n \<in> set xs" for n
    using inv_sorted [OF assms] that False by (cases xs) auto
  moreover have "?f n \<le> ?f (last xs)" if "n \<in> set xs" for n
    using inv_sorted [OF assms] that False by (cases xs rule: rev_cases) (auto simp: sorted_append)
  ultimately show ?thesis using False inv_pop_min(2) [OF assms] inv_pop_max(2) [OF assms] by simp
qed (use inv_pop_min(1) [OF assms] inv_pop_max(1) [OF assms] in simp)

theorem avl_tree_pop_refines_witness:
  "fst (avl_tree_pop_min 4 (avl_tree_insert 4 1 ex_avl)) = 1
   \<and> avl_inv 4 (snd (avl_tree_pop_max 4 (avl_tree_insert 4 1 ex_avl))) [] []
   \<and> avl_tree_pop_min 4 ex_avl = (0, ex_avl)"
  using avl_tree_pop_refines [OF ex_avl_inv2] avl_tree_pop_refines [OF ex_avl_inv] by simp

text \<open>
  C29. \<open>avl_tree_lookup\<close> returns a node of the tree with the key it is asked for if there is one,
  and NULL otherwise: the bound on the length of the search is never hit.
\<close>

theorem avl_tree_lookup_correct:
  assumes "avl_inv N s xs os"
  shows "if \<exists>m \<in> set xs. key (snd s m) = k
    then avl_tree_lookup N s k \<in> set xs \<and> key (snd s (avl_tree_lookup N s k)) = k
    else avl_tree_lookup N s k = 0"
proof -
  obtain t h where s: "s = (t, h)" by (cases s)
  obtain v where v: "tree_at N h 0 v (root t)" "inorder v = xs" "height v \<le> MAX_AVL_HEIGHT"
    "sorted (map (\<lambda>n. key (h n)) (inorder v))" using assms s by (auto simp: avl_inv_def tree_ok_def)
  then show ?thesis
    using lookup_loop_at [OF v(1,3,4), of k] tree_at_id_to_node [OF v(1)] s set_inorder [of v]
    by (simp add: avl_tree_lookup_def)
qed

theorem avl_tree_lookup_correct_witness:
  "avl_tree_lookup 4 ex_avl 7 = 0 \<and> avl_tree_lookup 4 (avl_tree_insert 4 1 ex_avl) 7 = 1"
proof -
  have "key (snd (avl_tree_insert 4 1 ex_avl) 1) = 7"
    using inv_insert(2) [OF ex_avl_inv, of 1 _ 1] by (simp add: node_ok_def ex_avl_def ex_nodes_def)
  then show ?thesis
    using avl_tree_lookup_correct [OF ex_avl_inv2, of 7] avl_tree_lookup_correct [OF ex_avl_inv, of 7] by simp
qed

text \<open>
  C30. \<open>avl_next_node\<close> and \<open>avl_prev_node\<close> return the in-order neighbours of a node of the tree, and
  NULL at the ends, within their loop bounds.
\<close>

theorem avl_neighbours_correct:
  assumes "avl_inv N s (xs @ m # ys) os"
  shows "avl_next_node N (snd s) m = hd_id ys \<and> avl_prev_node N (snd s) m = hd_id (rev xs)"
proof -
  obtain v where "tree_ok N (fst s, snd s) v" "inorder v = xs @ m # ys" using assms by (auto simp: avl_inv_def)
  then show ?thesis using next_node_at prev_node_at by blast
qed

theorem avl_neighbours_correct_witness: "avl_next_node 4 (snd (avl_tree_insert 4 1 ex_avl)) 1 = 0"
  using avl_neighbours_correct [of 4 "avl_tree_insert 4 1 ex_avl" "[]" 1 "[]" "[]"] ex_avl_inv2 by simp

text \<open>
  C3. Every run keeps the invariant: whatever sequence of key changes of nodes outside the tree,
  insertions, deletions and pops follows an \<open>avl_tree_init\<close>, the tree is balanced, sorted and
  at most 23 levels high, its caches and its orphan list are right, and it holds exactly the
  nodes that were put in and not taken out.
\<close>

theorem avl_run_keeps_invariant:
  assumes "avl_run N s M"
  shows "\<exists>xs os. avl_inv N s xs os \<and> set xs \<union> set os = M"
  using assms by (rule avl_run_inv)

theorem avl_run_keeps_invariant_witness: "\<exists>xs os. avl_inv 4 (avl_tree_insert 4 1 ex_avl) xs os \<and> set xs \<union> set os = {1}"
  using avl_run_keeps_invariant [OF run_insert [OF run_init, of 4 1]] by (simp add: node_ok_def ex_avl_def)

text \<open>
  C27. No run over an array of at most 75025 elements ever orphans a node: a balanced tree that has
  no room for another node within \<open>MAX_AVL_HEIGHT\<close> levels has at least 75024 nodes, more than
  the other slots of the array.
\<close>

theorem avl_run_never_orphans:
  assumes "avl_run N s M" and "N \<le> 75025"
  shows "\<exists>xs. avl_inv N s xs [] \<and> set xs = M"
  using assms by (intro avl_run_room)

theorem avl_run_never_orphans_witness: "\<exists>xs. avl_inv 65536 (avl_tree_insert 65536 1 ex_avl) xs [] \<and> set xs = {1}"
  using avl_run_never_orphans [OF run_insert [OF run_init, of 65536 1]] by (simp add: node_ok_def ex_avl_def)

text \<open>
  C26. The tree is a stable priority queue: inserting distinct nodes one after the other into an
  empty tree over at most 75025 slots and popping the minimum as often gives the nodes sorted
  by key, nodes with equal keys in the order they were inserted.
\<close>

theorem avl_tree_drain_sorted:
  assumes "N \<le> 75025" and "avl_inv N s [] []" and "distinct ns" and "\<forall>n \<in> set ns. node_ok N n"
  shows "fst (pop_n (avl_tree_pop_min N) (length ns) (fold (avl_tree_insert N) ns s)) = sort_key (\<lambda>n. key (snd s n)) ns"
  using assms by (intro avlq.drain_sorted) auto

theorem avl_tree_drain_sorted_witness:
  "fst (pop_n (avl_tree_pop_min 4) (length [1, 3, 2 :: u32]) (fold (avl_tree_insert 4) [1, 3, 2] ex_avl)) = [3, 2, 1]"
proof -
  have "\<forall>n \<in> set [1, 3, 2]. node_ok 4 n" "distinct [1, 3, 2 :: u32]" "4 \<le> (75025 :: nat)"
    by (simp_all add: node_ok_def)
  note avl_tree_drain_sorted [OF this(3) ex_avl_inv this(2,1)]
  also have "sort_key (\<lambda>n. key (snd ex_avl n)) [1, 3, 2] = [3, 2, 1]"
    by (simp add: ex_avl_def ex_nodes_def)
  finally show ?thesis .
qed

end
