(* ===== verification/Cpu_Map.thy ===== *)
theory Cpu_Map
  imports Prelude
begin

unbundle bit_operations_syntax

text \<open>
  Sets of CPUs as bitmaps: the classes \<open>CpuMap\<close>, \<open>CpuMap::Iter\<close> and \<open>CpuList\<close> of
  \<open>lib/topology.h\<close> and \<open>lib/topology.cc\<close>.  A \<open>Cpu\<close> is represented by its id and an uninitialised
  \<open>Cpu\<close> by \<^const>\<open>None\<close>.  An id outside the topology or the bitmap violates a \<open>DCHECK\<close>; the
  operation is then \<^const>\<open>None\<close>.
\<close>

section \<open>Bits of a word\<close>

definition word_bits :: "u64 \<Rightarrow> nat list" where
  "word_bits w = filter (bit w) [0..<64]"

text \<open>\<open>absl::popcount\<close>, which is \<open>std::popcount\<close> of C++20, and \<open>__builtin_ctzll\<close>.\<close>

definition popcount :: "u64 \<Rightarrow> nat" where
  "popcount w = length (filter (bit w) [0..<64])"

definition ctzll :: "u64 \<Rightarrow> nat" where
  "ctzll w = length (takeWhile (\<lambda>i. \<not> bit w i) [0..<64])"

section \<open>The bitmap\<close>

definition kIntsBits :: nat where "kIntsBits = 8 * 8"
definition MAX_CPUS :: nat where "MAX_CPUS = 512"
definition kMapCapacity :: nat where "kMapCapacity = MAX_CPUS div kIntsBits"

record cpu_map =
  topo_cpus :: nat
  map_size :: nat
  bitmap :: "u64 list"

definition CpuMap_init :: "nat \<Rightarrow> cpu_map option" where
  "CpuMap_init num_cpus = (let n = (num_cpus + kIntsBits - 1) div kIntsBits in do {
     CHECK (n \<le> kMapCapacity);
     Some \<lparr>topo_cpus = num_cpus, map_size = n, bitmap = replicate kMapCapacity 0\<rparr> })"

definition topology_cpu :: "cpu_map \<Rightarrow> nat \<Rightarrow> nat option" where
  "topology_cpu m i = (if i < topo_cpus m then Some i else None)"

definition GetNthMap :: "cpu_map \<Rightarrow> nat \<Rightarrow> u64" where
  "GetNthMap m n = bitmap m ! n"

definition cpu_set :: "nat \<Rightarrow> cpu_map \<Rightarrow> cpu_map option" where
  "cpu_set i m = do { REQUIRE (i < MAX_CPUS);
     Some (m\<lparr>bitmap := (bitmap m)[i div kIntsBits := bitmap m ! (i div kIntsBits) OR push_bit (i mod kIntsBits) 1]\<rparr>) }"

definition cpu_clear :: "nat \<Rightarrow> cpu_map \<Rightarrow> cpu_map option" where
  "cpu_clear i m = do { REQUIRE (i < MAX_CPUS);
     Some (m\<lparr>bitmap := (bitmap m)[i div kIntsBits := bitmap m ! (i div kIntsBits) AND NOT (push_bit (i mod kIntsBits) 1)]\<rparr>) }"

definition IsSet :: "cpu_map \<Rightarrow> nat \<Rightarrow> bool option" where
  "IsSet m i = do { REQUIRE (i < MAX_CPUS);
     Some (bitmap m ! (i div kIntsBits) AND push_bit (i mod kIntsBits) 1 \<noteq> 0) }"

definition TestAndClear :: "nat \<Rightarrow> cpu_map \<Rightarrow> (cpu_map \<times> bool) option" where
  "TestAndClear i m = do { REQUIRE (i < MAX_CPUS);
     let mask = NOT (push_bit (i mod kIntsBits) 1);
         old = bitmap m ! (i div kIntsBits);
         m' = m\<lparr>bitmap := (bitmap m)[i div kIntsBits := old AND mask]\<rparr>
     in Some (m', old AND NOT mask \<noteq> 0) }"

definition cpu_empty :: "cpu_map \<Rightarrow> bool" where
  "cpu_empty m \<longleftrightarrow> list_all (\<lambda>i. GetNthMap m i = 0) [0..<map_size m]"

definition CountSetCpus :: "cpu_map \<Rightarrow> nat" where
  "CountSetCpus m = fold (\<lambda>i ret. ret + popcount (GetNthMap m i)) [0..<map_size m] 0"

abbreviation cpu_size :: "cpu_map \<Rightarrow> nat" where "cpu_size \<equiv> CountSetCpus"

definition transform :: "(u64 \<Rightarrow> u64 \<Rightarrow> u64) \<Rightarrow> cpu_map \<Rightarrow> cpu_map \<Rightarrow> cpu_map" where
  "transform f src m = m\<lparr>bitmap := map2 f (take (map_size m) (bitmap m)) (take (map_size m) (bitmap src))
     @ drop (map_size m) (bitmap m)\<rparr>"

definition Intersection :: "cpu_map \<Rightarrow> cpu_map \<Rightarrow> cpu_map" where
  "Intersection src m = transform (\<lambda>a b. a AND b) src m"

definition Union_cpus :: "cpu_map \<Rightarrow> cpu_map \<Rightarrow> cpu_map" where
  "Union_cpus src m = transform (\<lambda>a b. a OR b) src m"

definition Subtract :: "cpu_map \<Rightarrow> cpu_map \<Rightarrow> cpu_map" where
  "Subtract src m = transform (\<lambda>a b. a AND NOT b) src m"

definition cpu_eq :: "cpu_map \<Rightarrow> cpu_map \<Rightarrow> bool" where
  "cpu_eq m other \<longleftrightarrow> take (map_size m) (bitmap m) = take (map_size m) (bitmap other)"

text \<open>\<open>for (uint32_t j = 0; j < n; j++) word &= word - 1;\<close>\<close>

definition clear_lowest :: "nat \<Rightarrow> u64 \<Rightarrow> u64" where
  "clear_lowest n w = ((\<lambda>w. w AND (w - 1)) ^^ n) w"

text \<open>The result is \<^const>\<open>None\<close> for an id outside the topology, \<open>Some None\<close> for the uninitialised CPU.\<close>

fun GetNthCpu_from :: "cpu_map \<Rightarrow> nat \<Rightarrow> u64 list \<Rightarrow> nat \<Rightarrow> nat option option" where
  "GetNthCpu_from m i [] n = Some None"
| "GetNthCpu_from m i (word # ws) n =
     (if popcount word \<le> n then GetNthCpu_from m (i + 1) ws (n - popcount word)
      else map_option Some (topology_cpu m (i * kIntsBits + ctzll (clear_lowest n word))))"

definition GetNthCpu :: "cpu_map \<Rightarrow> nat \<Rightarrow> nat option option" where
  "GetNthCpu m n = GetNthCpu_from m 0 (take (map_size m) (bitmap m)) n"

definition Front :: "cpu_map \<Rightarrow> nat option option" where
  "Front m = GetNthCpu m 0"

text \<open>\<open>Size() - 1\<close> is 32-bit unsigned arithmetic.\<close>

definition Back :: "cpu_map \<Rightarrow> nat option option" where
  "Back m = GetNthCpu m (unat (of_nat (CountSetCpus m) - 1 :: u32))"

fun ToIntVector_loop :: "cpu_map \<Rightarrow> nat list \<Rightarrow> nat list \<Rightarrow> nat list option" where
  "ToIntVector_loop m [] cpus = Some cpus"
| "ToIntVector_loop m (i # is) cpus = do {
     cpu \<leftarrow> GetNthCpu m i;
     case cpu of None \<Rightarrow> Some cpus | Some c \<Rightarrow> ToIntVector_loop m is (cpus @ [c]) }"

definition ToIntVector :: "cpu_map \<Rightarrow> nat list option" where
  "ToIntVector m = ToIntVector_loop m [0..<CountSetCpus m] []"

section \<open>The iterator\<close>

record iter =
  it_id :: nat
  it_cpu :: "nat option"

fun find_word :: "nat \<Rightarrow> u64 \<Rightarrow> u64 list \<Rightarrow> nat option" where
  "find_word map_idx word [] = (if word \<noteq> 0 then Some (map_idx * kIntsBits + ctzll word) else None)"
| "find_word map_idx word (w # ws) = (if word \<noteq> 0 then Some (map_idx * kIntsBits + ctzll word)
     else find_word (map_idx + 1) w ws)"

definition FindNextSetBit :: "cpu_map \<Rightarrow> nat \<Rightarrow> iter option" where
  "FindNextSetBit m i = (let map_idx = i div kIntsBits; bit_offset = i mod kIntsBits;
       at_end = \<lparr>it_id = topo_cpus m, it_cpu = None\<rparr> in
     if map_idx \<ge> map_size m then Some at_end
     else case find_word map_idx (GetNthMap m map_idx AND push_bit bit_offset (NOT 0))
                 (drop (map_idx + 1) (take (map_size m) (bitmap m))) of
       Some i' \<Rightarrow> do { c \<leftarrow> topology_cpu m i'; Some \<lparr>it_id = i', it_cpu = Some c\<rparr> }
     | None \<Rightarrow> Some at_end)"

definition iter_begin :: "cpu_map \<Rightarrow> iter option" where
  "iter_begin m = FindNextSetBit m 0"

definition iter_end :: "cpu_map \<Rightarrow> iter option" where
  "iter_end m = FindNextSetBit m (topo_cpus m)"

text \<open>The post-increment: the CPU the iterator was at, and the next position.\<close>

definition iter_post_inc :: "cpu_map \<Rightarrow> iter \<Rightarrow> (nat option \<times> iter) option" where
  "iter_post_inc m it = do { it' \<leftarrow> FindNextSetBit m (it_id it + 1); Some (it_cpu it, it') }"

text \<open>The range-based \<open>for\<close> loop over a map, with the loop body \<open>f\<close>.\<close>

partial_function (option) for_loop :: "cpu_map \<Rightarrow> iter \<Rightarrow> iter \<Rightarrow> (nat \<Rightarrow> 's \<Rightarrow> 's option) \<Rightarrow> 's \<Rightarrow> 's option" where
  "for_loop m it fin f s = (if it_id it = it_id fin then Some s
     else do { c \<leftarrow> it_cpu it; s \<leftarrow> f c s; it \<leftarrow> FindNextSetBit m (it_id it + 1); for_loop m it fin f s })"

definition for_cpus :: "cpu_map \<Rightarrow> (nat \<Rightarrow> 's \<Rightarrow> 's option) \<Rightarrow> 's \<Rightarrow> 's option" where
  "for_cpus m f s = do { it \<leftarrow> iter_begin m; fin \<leftarrow> iter_end m; for_loop m it fin f s }"

text \<open>\<open>Topology::ToCpuList\<close>: negative ids become ids far above \<open>MAX_CPUS\<close> as \<open>uint32_t\<close>.\<close>

fun set_all :: "int list \<Rightarrow> cpu_map \<Rightarrow> cpu_map option" where
  "set_all [] m = Some m"
| "set_all (i # is) m = do { m \<leftarrow> cpu_set (unat (of_int i :: u32)) m; set_all is m }"

definition ToCpuList :: "nat \<Rightarrow> int list \<Rightarrow> cpu_map option" where
  "ToCpuList num_cpus is = do { m \<leftarrow> CpuMap_init num_cpus; set_all is m }"

section \<open>The set of CPUs of a map\<close>

definition map_ok :: "cpu_map \<Rightarrow> bool" where
  "map_ok m \<longleftrightarrow> map_size m = (topo_cpus m + 63) div 64 \<and> topo_cpus m \<le> MAX_CPUS
     \<and> length (bitmap m) = kMapCapacity"

definition has_cpu :: "cpu_map \<Rightarrow> nat \<Rightarrow> bool" where
  "has_cpu m i \<longleftrightarrow> i < 64 * map_size m \<and> bit (bitmap m ! (i div 64)) (i mod 64)"

text \<open>The ids in the map in ascending order, and that they are all ids of the topology.\<close>

definition cpu_ids :: "cpu_map \<Rightarrow> nat list" where
  "cpu_ids m = filter (has_cpu m) [0..<64 * map_size m]"

definition in_topology :: "cpu_map \<Rightarrow> bool" where
  "in_topology m \<longleftrightarrow> list_all (\<lambda>i. i < topo_cpus m) (cpu_ids m)"

lemmas size_defs = kIntsBits_def MAX_CPUS_def kMapCapacity_def

lemma map_ok_size: "map_ok m \<Longrightarrow> map_size m \<le> 8 \<and> length (bitmap m) = 8 \<and> topo_cpus m \<le> 64 * map_size m"
  by (auto simp: map_ok_def size_defs)

subsection \<open>Words\<close>

lemma word_bits_props [simp]:
  "set (word_bits w) = {i. bit w i}" "distinct (word_bits w)" "sorted (word_bits w)"
  by (auto simp: word_bits_def sorted_wrt_filter dest: bit_imp_le_length)

lemma bit_less_64: "bit (w :: u64) j \<Longrightarrow> j < 64"
  using bit_imp_le_length [of w j] by simp

lemma word_bits_0 [simp]: "word_bits 0 = []"
  by (simp add: word_bits_def)

lemma popcount_bits: "popcount w = length (word_bits w)"
  by (simp add: popcount_def word_bits_def)

lemma word_bits_Nil [simp]: "word_bits w = [] \<longleftrightarrow> w = 0"
proof -
  have "word_bits w = [] \<longleftrightarrow> (\<forall>i. \<not> bit w i)" using word_bits_props(1) [of w] by (metis Collect_empty_eq empty_set set_empty2)
  then show ?thesis by (auto intro: bit_word_eqI)
qed

lemma takeWhile_filter_hd: "filter P xs \<noteq> [] \<Longrightarrow> hd (filter P xs) = xs ! length (takeWhile (\<lambda>x. \<not> P x) xs)
    \<and> length (takeWhile (\<lambda>x. \<not> P x) xs) < length xs"
  by (induction xs) auto

lemma ctzll_hd: "w \<noteq> 0 \<Longrightarrow> ctzll w = hd (word_bits w)"
proof -
  assume "w \<noteq> 0"
  then have "filter (bit w) [0..<64] \<noteq> []" using word_bits_Nil [of w] unfolding word_bits_def by blast
  then show ?thesis using takeWhile_filter_hd [of "bit w" "[0..<64]"] by (simp add: ctzll_def word_bits_def)
qed

lemma ctzll_bit: assumes "w \<noteq> 0" shows "bit w (ctzll w)" "i < ctzll w \<Longrightarrow> \<not> bit w i"
proof -
  obtain x xs where ws: "word_bits w = x # xs" using assms by (cases "word_bits w") auto
  have "bit w x" using ws word_bits_props(1) [of w] by (metis list.set_intros(1) mem_Collect_eq)
  then show "bit w (ctzll w)" using ctzll_hd [OF assms] ws by simp
  assume "i < ctzll w"
  then have "i \<notin> set (word_bits w)" using word_bits_props(3) [of w] ctzll_hd [OF assms] ws by auto
  then show "\<not> bit w i" by simp
qed

lemma bit_clear_lowest: assumes "w \<noteq> 0" shows "bit (w AND (w - 1)) i \<longleftrightarrow> bit w i \<and> i \<noteq> ctzll w"
proof -
  let ?c = "ctzll w"
  define q where "q = w AND NOT (mask (Suc ?c))"
  have c: "?c < 64" using ctzll_bit(1) [OF assms] by (auto dest: bit_imp_le_length)
  have q: "bit q j \<longleftrightarrow> ?c < j \<and> bit w j" for j
    by (auto simp: q_def bit_simps not_less_eq dest: bit_imp_le_length)
  have p: "bit (2 ^ ?c :: u64) j \<longleftrightarrow> j = ?c" for j using c by (auto simp: bit_simps)
  have "w = q OR 2 ^ ?c"
    using ctzll_bit [OF assms] q p
    by (intro bit_word_eqI) (auto simp: bit_simps linorder_neq_iff)
  also have "\<dots> = q + 2 ^ ?c" by (rule disjunctive_add [symmetric]) (auto simp: q p)
  finally have "w - 1 = q + mask ?c" by (simp add: mask_eq_exp_minus_1)
  also have "\<dots> = q OR mask ?c" by (rule disjunctive_add) (auto simp: q bit_simps)
  finally have "bit (w - 1) i \<longleftrightarrow> bit q i \<or> i < ?c" using c by (auto simp: bit_simps)
  then show ?thesis using q ctzll_bit(2) [OF assms] by (auto simp: bit_simps)
qed

lemma word_bits_clear: assumes "w \<noteq> 0" shows "word_bits (w AND (w - 1)) = tl (word_bits w)"
proof (rule sorted_distinct_set_unique)
  obtain x xs where ws: "word_bits w = x # xs" using assms by (cases "word_bits w") auto
  show "set (word_bits (w AND (w - 1))) = set (tl (word_bits w))"
    using ws word_bits_props [of w] ctzll_hd [OF assms] bit_clear_lowest [OF assms] by auto
qed (use word_bits_props [of w] in \<open>auto simp: sorted_tl distinct_tl\<close>)

lemma word_bits_clear_lowest: "word_bits (clear_lowest n w) = drop n (word_bits w)"
proof (induction n)
  case (Suc n)
  have step: "clear_lowest (Suc n) w = clear_lowest n w AND (clear_lowest n w - 1)" by (simp add: clear_lowest_def)
  show ?case
  proof (cases "clear_lowest n w = 0")
    case True
    then have "drop n (word_bits w) = []" using Suc by (metis word_bits_Nil)
    then show ?thesis using True step by simp
  next
    case False
    then show ?thesis using Suc step word_bits_clear by (simp add: tl_drop drop_Suc)
  qed
qed (simp add: clear_lowest_def)


subsection \<open>Words in sequence\<close>

fun ids_from :: "nat \<Rightarrow> u64 list \<Rightarrow> nat list" where
  "ids_from k [] = []"
| "ids_from k (w # ws) = map ((+) (64 * k)) (word_bits w) @ ids_from (k + 1) ws"

lemma set_word_at: "i \<in> (+) (64 * k) ` {j. bit (w :: u64) j} \<longleftrightarrow> i div 64 = k \<and> bit w (i mod 64)"
proof
  assume "i \<in> (+) (64 * k) ` {j. bit w j}"
  then obtain j where "i = 64 * k + j" "bit w j" "j < 64" by (auto dest: bit_less_64)
  then show "i div 64 = k \<and> bit w (i mod 64)" by simp
next
  assume "i div 64 = k \<and> bit w (i mod 64)"
  then have "i = 64 * k + i mod 64" "bit w (i mod 64)" by auto
  then show "i \<in> (+) (64 * k) ` {j. bit w j}" by blast
qed

lemma set_ids_from:
  "i \<in> set (ids_from k ws) \<longleftrightarrow> k \<le> i div 64 \<and> i div 64 < k + length ws \<and> bit (ws ! (i div 64 - k)) (i mod 64)"
proof (induction ws arbitrary: k)
  case (Cons w ws)
  have "i \<in> set (ids_from k (w # ws)) \<longleftrightarrow> i div 64 = k \<and> bit w (i mod 64) \<or> i \<in> set (ids_from (k + 1) ws)"
    using set_word_at [of i k w] by simp
  then show ?case unfolding Cons by (cases "i div 64 = k") (auto simp: nth_Cons' Suc_le_eq)
qed simp

lemma sorted_ids_from: "sorted_wrt (<) (ids_from k ws)"
proof (induction ws arbitrary: k)
  case (Cons w ws)
  have "sorted_wrt (<) (map ((+) (64 * k)) (word_bits w))"
    using word_bits_props(2, 3) [of w] by (simp add: sorted_wrt_map strict_sorted_iff)
  moreover have "x < y" if "x \<in> (+) (64 * k) ` {j. bit w j}" "y \<in> set (ids_from (k + 1) ws)" for x y
  proof -
    have "x div 64 < y div 64" using that set_word_at [of x k w] set_ids_from [of y "k + 1" ws] by auto
    then show "x < y" using div_le_mono [of y x 64] by linarith
  qed
  ultimately show ?case using Cons by (simp add: sorted_wrt_append)
qed simp

lemma sorted_cpu_ids: "sorted_wrt (<) (cpu_ids m)"
  by (simp add: cpu_ids_def sorted_wrt_filter)

lemma distinct_cpu_ids [simp]: "distinct (cpu_ids m)"
  by (simp add: cpu_ids_def)

lemma set_cpu_ids [simp]: "set (cpu_ids m) = {i. has_cpu m i}"
  by (auto simp: cpu_ids_def has_cpu_def)

lemma in_topology_iff: "in_topology m \<longleftrightarrow> (\<forall>i. has_cpu m i \<longrightarrow> i < topo_cpus m)"
  by (simp add: in_topology_def list_all_iff)

lemma cpu_ids_from:
  assumes "map_ok m"
  shows "cpu_ids m = ids_from 0 (take (map_size m) (bitmap m))"
proof (rule strict_sorted_equal [OF sorted_ids_from sorted_cpu_ids])
  show "set (cpu_ids m) = set (ids_from 0 (take (map_size m) (bitmap m)))"
    using map_ok_size [OF assms] by (auto simp: has_cpu_def set_ids_from min_def)
qed

section \<open>What the operations compute\<close>

lemma length_ids_from: "length (ids_from k ws) = sum_list (map popcount ws)"
  by (induction ws arbitrary: k) (simp_all add: popcount_bits)

lemma fold_add: "fold (\<lambda>i ret. ret + f i) is (a :: nat) = a + sum_list (map f is)"
  by (induction "is" arbitrary: a) simp_all

lemma map_words: "map_ok m \<Longrightarrow> map (GetNthMap m) [0..<map_size m] = take (map_size m) (bitmap m)"
  using map_ok_size [of m] by (intro nth_equalityI) (auto simp: GetNthMap_def)

lemma size_cpu_ids:
  assumes "map_ok m" shows "CountSetCpus m = length (cpu_ids m)"
proof -
  have "CountSetCpus m = sum_list (map popcount (map (GetNthMap m) [0..<map_size m]))"
    by (simp add: CountSetCpus_def fold_add comp_def)
  then show ?thesis using assms by (simp add: map_words cpu_ids_from length_ids_from)
qed

lemma empty_cpu_ids:
  assumes "map_ok m" shows "cpu_empty m \<longleftrightarrow> cpu_ids m = []"
proof -
  have "cpu_empty m \<longleftrightarrow> list_all (\<lambda>w. w = 0) (map (GetNthMap m) [0..<map_size m])"
    by (simp add: cpu_empty_def list_all_iff)
  moreover have "ids_from k ws = [] \<longleftrightarrow> list_all (\<lambda>w. w = 0) ws" for k ws
    by (induction ws arbitrary: k) auto
  ultimately show ?thesis using assms by (simp add: map_words cpu_ids_from)
qed

lemma nth_from:
  assumes "\<forall>i \<in> set (ids_from k ws). i < topo_cpus m"
  shows "GetNthCpu_from m k ws n = Some (if n < length (ids_from k ws) then Some (ids_from k ws ! n) else None)"
  using assms
proof (induction m k ws n rule: GetNthCpu_from.induct)
  case (2 m k word ws n)
  show ?case
  proof (cases "popcount word \<le> n")
    case True
    then show ?thesis using 2 by (auto simp: popcount_bits nth_append)
  next
    case False
    let ?w = "clear_lowest n word"
    have n: "n < length (word_bits word)" using False by (simp add: popcount_bits)
    then have "?w \<noteq> 0" using word_bits_clear_lowest [of n word] by (metis drop_eq_Nil not_le word_bits_Nil)
    then have c: "ctzll ?w = word_bits word ! n"
      using n by (simp add: ctzll_hd word_bits_clear_lowest hd_drop_conv_nth)
    have "64 * k + word_bits word ! n \<in> set (ids_from k (word # ws))" using n nth_mem [OF n] by auto
    then have "64 * k + word_bits word ! n < topo_cpus m" using "2.prems" by blast
    then show ?thesis using n False c by (simp add: topology_cpu_def kIntsBits_def nth_append ac_simps)
  qed
qed simp

lemma nth_cpu_ids:
  assumes "map_ok m" and "in_topology m"
  shows "GetNthCpu m n = Some (if n < length (cpu_ids m) then Some (cpu_ids m ! n) else None)"
  using assms nth_from [of 0 "take (map_size m) (bitmap m)" m n]
  by (simp add: GetNthCpu_def cpu_ids_from in_topology_def list_all_iff)

lemma int_vector_loop:
  assumes "\<And>i. i < length xs \<Longrightarrow> GetNthCpu m i = Some (Some (xs ! i))" and "k \<le> length xs"
  shows "ToIntVector_loop m [k..<length xs] acc = Some (acc @ drop k xs)"
  using assms(2)
proof (induction "length xs - k" arbitrary: k acc)
  case (Suc d)
  then have "k < length xs" by simp
  then show ?case using Suc.hyps(1) [of "Suc k" "acc @ [xs ! k]"] Suc.hyps(2) assms(1) [of k]
    by (simp add: upt_conv_Cons Cons_nth_drop_Suc)
qed simp

lemma to_int_vector:
  assumes "map_ok m" and "in_topology m"
  shows "ToIntVector m = Some (cpu_ids m)"
  using int_vector_loop [of "cpu_ids m" m 0 "[]"] assms
  by (simp add: ToIntVector_def size_cpu_ids nth_cpu_ids)

subsection \<open>The iterator\<close>

lemma find_word_ids: "find_word k w ws = (case ids_from k (w # ws) of [] \<Rightarrow> None | i # _ \<Rightarrow> Some i)"
proof (induction k w ws rule: find_word.induct)
  case (1 k w)
  then show ?case by (cases "word_bits w") (auto simp: ctzll_hd kIntsBits_def)
next
  case (2 k w v ws)
  then show ?case by (cases "word_bits w") (auto simp: ctzll_hd kIntsBits_def)
qed

lemma bit_masked: "o' < 64 \<Longrightarrow> bit (w AND push_bit o' (NOT 0) :: u64) j \<longleftrightarrow> bit w j \<and> o' \<le> j"
  by (auto simp: bit_simps dest: bit_imp_le_length)

lemma le_div_mod: "(i :: nat) \<le> j \<longleftrightarrow> i div 64 < j div 64 \<or> i div 64 = j div 64 \<and> i mod 64 \<le> j mod 64"
proof (cases "i div 64 = j div 64")
  case True
  then show ?thesis using div_mult_mod_eq [of i 64] div_mult_mod_eq [of j 64] by linarith
next
  case False
  then show ?thesis using div_le_mono [of i j 64] div_le_mono [of j i 64] by (auto simp: not_le)
qed

lemma next_ids:
  assumes "map_ok m" and "i div 64 < map_size m"
  shows "ids_from (i div 64) ((GetNthMap m (i div 64) AND push_bit (i mod 64) (NOT 0))
      # drop (i div 64 + 1) (take (map_size m) (bitmap m))) = filter (\<lambda>j. i \<le> j) (cpu_ids m)"
proof (rule strict_sorted_equal [OF _ sorted_ids_from])
  show "sorted_wrt (<) (filter (\<lambda>j. i \<le> j) (cpu_ids m))" by (simp add: sorted_wrt_filter sorted_cpu_ids)
  have ge: "i \<le> j \<longleftrightarrow> i div 64 < j div 64 \<or> i div 64 = j div 64 \<and> i mod 64 \<le> j mod 64" for j :: nat
    by (rule le_div_mod)
  have "j \<in> set (ids_from (i div 64) ((GetNthMap m (i div 64) AND push_bit (i mod 64) (NOT 0))
      # drop (i div 64 + 1) (take (map_size m) (bitmap m)))) \<longleftrightarrow> has_cpu m j \<and> i \<le> j" for j
  proof (cases "j div 64 = i div 64")
    case True
    then have "j < 64 * map_size m" using assms(2) by linarith
    then show ?thesis using True assms(2) bit_masked [of "i mod 64"]
      by (simp add: set_ids_from has_cpu_def ge GetNthMap_def del: ids_from.simps)
  next
    case False
    then show ?thesis using map_ok_size [OF assms(1)] assms(2)
      by (auto simp: set_ids_from has_cpu_def ge nth_Cons' min_def less_mult_imp_div_less
          simp del: ids_from.simps dest: le_neq_implies_less)
  qed
  then show "set (ids_from (i div 64) ((GetNthMap m (i div 64) AND push_bit (i mod 64) (NOT 0))
      # drop (i div 64 + 1) (take (map_size m) (bitmap m)))) = set (filter (\<lambda>j. i \<le> j) (cpu_ids m))"
    by (simp add: set_eq_iff del: ids_from.simps)
qed

definition iter_at :: "cpu_map \<Rightarrow> nat list \<Rightarrow> iter" where
  "iter_at m xs = (case xs of [] \<Rightarrow> \<lparr>it_id = topo_cpus m, it_cpu = None\<rparr> | x # _ \<Rightarrow> \<lparr>it_id = x, it_cpu = Some x\<rparr>)"

lemma find_next:
  assumes "map_ok m" and "in_topology m"
  shows "FindNextSetBit m i = Some (iter_at m (filter (\<lambda>j. i \<le> j) (cpu_ids m)))"
proof (cases "i div 64 < map_size m")
  case True
  have "j < topo_cpus m" if "j \<in> set (filter (\<lambda>j. i \<le> j) (cpu_ids m))" for j
    using that assms(2) by (simp add: in_topology_iff)
  moreover have "find_word (i div 64) (GetNthMap m (i div 64) AND push_bit (i mod 64) (NOT 0))
      (drop (i div 64 + 1) (take (map_size m) (bitmap m))) = (case filter (\<lambda>j. i \<le> j) (cpu_ids m) of [] \<Rightarrow> None | i # _ \<Rightarrow> Some i)"
    by (simp only: find_word_ids next_ids [OF assms(1) True])
  ultimately show ?thesis using True unfolding FindNextSetBit_def kIntsBits_def Let_def
    by (cases "filter (\<lambda>j. i \<le> j) (cpu_ids m)") (simp_all add: iter_at_def topology_cpu_def)
next
  case False
  then have "filter (\<lambda>j. i \<le> j) (cpu_ids m) = []" by (auto simp: filter_empty_conv has_cpu_def)
  then show ?thesis using False by (simp add: FindNextSetBit_def kIntsBits_def iter_at_def)
qed

lemma for_loop_ids:
  assumes "map_ok m" and "in_topology m" and "cpu_ids m = ys @ xs"
  shows "for_loop m (iter_at m xs) (iter_at m []) f s = mfold f xs s"
  using assms(3)
proof (induction xs arbitrary: ys s)
  case Nil
  then show ?case by (simp add: for_loop.simps)
next
  case (Cons x xs)
  have x: "x < topo_cpus m" using Cons.prems assms(2) by (simp add: in_topology_def)
  have "filter (\<lambda>j. x + 1 \<le> j) xs = xs" "filter (\<lambda>j. x + 1 \<le> j) ys = []"
    using sorted_cpu_ids [of m] unfolding Cons.prems filter_id_conv filter_empty_conv
    by (auto simp: sorted_wrt_append)
  then have "filter (\<lambda>j. x + 1 \<le> j) (cpu_ids m) = xs" unfolding Cons.prems by simp
  then have "FindNextSetBit m (x + 1) = Some (iter_at m xs)" using find_next [OF assms(1, 2)] by simp
  then show ?case using Cons.IH [of "ys @ [x]"] Cons.prems x
    by (subst for_loop.simps) (simp add: iter_at_def)
qed

lemma iter_ends:
  assumes "map_ok m" and "in_topology m"
  shows "iter_begin m = Some (iter_at m (cpu_ids m))" "iter_end m = Some (iter_at m [])"
proof -
  have "filter (\<lambda>j. topo_cpus m \<le> j) (cpu_ids m) = []"
    using assms(2) by (auto simp: filter_empty_conv in_topology_iff not_le)
  then show "iter_end m = Some (iter_at m [])" using find_next [OF assms, of "topo_cpus m"] by (simp only: iter_end_def)
  show "iter_begin m = Some (iter_at m (cpu_ids m))" using find_next [OF assms, of 0] by (simp add: iter_begin_def)
qed

lemma for_cpus_ids:
  assumes "map_ok m" and "in_topology m"
  shows "for_cpus m f s = mfold f (cpu_ids m) s"
  using for_loop_ids [OF assms, of "[]" "cpu_ids m"] by (simp add: for_cpus_def iter_ends [OF assms])


subsection \<open>The set operations\<close>

lemma bit_or_1: "k < 64 \<Longrightarrow> bit (w OR 2 ^ k :: u64) j \<longleftrightarrow> bit w j \<or> j = k"
  by (auto simp: bit_simps dest: bit_less_64)

lemma bit_and_not_1: "k < 64 \<Longrightarrow> bit (w AND NOT (2 ^ k) :: u64) j \<longleftrightarrow> bit w j \<and> j \<noteq> k"
  by (auto simp: bit_simps dest: bit_less_64)

lemma and_1_bit: "k < 64 \<Longrightarrow> (w AND 2 ^ k :: u64) \<noteq> 0 \<longleftrightarrow> bit w k"
proof -
  assume k: "k < 64"
  have "bit (w AND 2 ^ k) j \<longleftrightarrow> bit w k \<and> j = k" for j using k by (auto simp: bit_simps)
  then show ?thesis by (metis bit_0_eq bot_apply bot_bool_def bit_word_eqI)
qed

lemma same_word: "(j div 64 = i div 64 \<and> j mod 64 = i mod 64) \<longleftrightarrow> j = (i :: nat)"
  by (metis div_mult_mod_eq)

lemma set_word_map:
  assumes "map_ok m" and "i < MAX_CPUS"
    and "\<And>j. bit w j \<longleftrightarrow> (if j = i mod 64 then b else bit (bitmap m ! (i div 64)) j)"
  defines "m' \<equiv> m\<lparr>bitmap := (bitmap m)[i div 64 := w]\<rparr>"
  shows "map_ok m'" "has_cpu m' j \<longleftrightarrow> (if j = i then b \<and> i < 64 * map_size m else has_cpu m j)"
proof -
  have i: "i div 64 < length (bitmap m)" using assms(1, 2) by (simp add: map_ok_def size_defs)
  then show "map_ok m'" using assms(1) by (simp add: map_ok_def m'_def)
  show "has_cpu m' j \<longleftrightarrow> (if j = i then b \<and> i < 64 * map_size m else has_cpu m j)"
    using i same_word [of j i] by (auto simp: has_cpu_def m'_def nth_list_update assms(3))
qed

lemma cpu_set_spec:
  assumes "map_ok m" and "i < MAX_CPUS"
  obtains m' where "cpu_set i m = Some m'" "map_ok m'" "topo_cpus m' = topo_cpus m" "map_size m' = map_size m"
    "\<And>j. has_cpu m' j \<longleftrightarrow> (if j = i then i < 64 * map_size m else has_cpu m j)"
proof -
  let ?w = "bitmap m ! (i div 64) OR 2 ^ (i mod 64)"
  have w: "bit ?w j \<longleftrightarrow> (if j = i mod 64 then True else bit (bitmap m ! (i div 64)) j)" for j
    by (simp add: bit_or_1)
  show thesis using set_word_map [OF assms w] assms(2)
    by (intro that [of "m\<lparr>bitmap := (bitmap m)[i div 64 := ?w]\<rparr>"]) (simp_all add: cpu_set_def kIntsBits_def)
qed

lemma cpu_clear_spec:
  assumes "map_ok m" and "i < MAX_CPUS"
  obtains m' where "cpu_clear i m = Some m'" "map_ok m'" "topo_cpus m' = topo_cpus m" "map_size m' = map_size m"
    "\<And>j. has_cpu m' j \<longleftrightarrow> j \<noteq> i \<and> has_cpu m j"
proof -
  let ?w = "bitmap m ! (i div 64) AND NOT (2 ^ (i mod 64))"
  have w: "bit ?w j \<longleftrightarrow> (if j = i mod 64 then False else bit (bitmap m ! (i div 64)) j)" for j
    by (simp add: bit_and_not_1)
  show thesis using set_word_map [OF assms w] assms(2)
    by (intro that [of "m\<lparr>bitmap := (bitmap m)[i div 64 := ?w]\<rparr>"]) (simp_all add: cpu_clear_def kIntsBits_def)
qed

lemma is_set_has: "i < 64 * map_size m \<Longrightarrow> map_ok m \<Longrightarrow> IsSet m i = Some (has_cpu m i)"
  using map_ok_size [of m] by (simp add: IsSet_def has_cpu_def kIntsBits_def and_1_bit MAX_CPUS_def)

lemma test_and_clear:
  assumes "map_ok m" and "i < MAX_CPUS"
  shows "TestAndClear i m = do { b \<leftarrow> IsSet m i; m' \<leftarrow> cpu_clear i m; Some (m', b) }"
  using assms(2) by (simp add: TestAndClear_def IsSet_def cpu_clear_def Let_def)

lemma transform_spec:
  assumes "map_ok m" "map_ok src" "topo_cpus src = topo_cpus m"
    and "\<And>a b j. bit (f a b) j \<longleftrightarrow> j < 64 \<and> g (bit a j) (bit b j)"
  shows "map_ok (transform f src m)"
    "has_cpu (transform f src m) i \<longleftrightarrow> i < 64 * map_size m \<and> g (has_cpu m i) (has_cpu src i)"
proof -
  have size: "map_size src = map_size m" "map_size m \<le> 8" "length (bitmap m) = 8" "length (bitmap src) = 8"
    using assms(1-3) map_ok_size [of m] map_ok_size [of src] by (auto simp: map_ok_def)
  then show "map_ok (transform f src m)" using assms(1) by (simp add: map_ok_def transform_def)
  show "has_cpu (transform f src m) i \<longleftrightarrow> i < 64 * map_size m \<and> g (has_cpu m i) (has_cpu src i)"
    using size by (auto simp: has_cpu_def transform_def nth_append assms(4))
qed

lemma set_op_specs:
  assumes "map_ok m" "map_ok src" "topo_cpus src = topo_cpus m"
  shows "has_cpu (Union_cpus src m) i \<longleftrightarrow> has_cpu m i \<or> has_cpu src i"
    "has_cpu (Intersection src m) i \<longleftrightarrow> has_cpu m i \<and> has_cpu src i"
    "has_cpu (Subtract src m) i \<longleftrightarrow> has_cpu m i \<and> \<not> has_cpu src i"
    "map_ok (Union_cpus src m)" "map_ok (Intersection src m)" "map_ok (Subtract src m)"
proof -
  have size: "map_size src = map_size m" using assms by (simp add: map_ok_def)
  note t = transform_spec [OF assms]
  show "has_cpu (Union_cpus src m) i \<longleftrightarrow> has_cpu m i \<or> has_cpu src i" "map_ok (Union_cpus src m)"
    using t [of "\<lambda>a b. a OR b" "(\<or>)"] size
    by (auto simp: Union_cpus_def bit_simps has_cpu_def dest: bit_less_64)
  show "has_cpu (Intersection src m) i \<longleftrightarrow> has_cpu m i \<and> has_cpu src i" "map_ok (Intersection src m)"
    using t [of "\<lambda>a b. a AND b" "(\<and>)"] size
    by (auto simp: Intersection_def bit_simps has_cpu_def dest: bit_less_64)
  show "has_cpu (Subtract src m) i \<longleftrightarrow> has_cpu m i \<and> \<not> has_cpu src i" "map_ok (Subtract src m)"
    using t [of "\<lambda>a b. a AND NOT b" "\<lambda>a b. a \<and> \<not> b"] size
    by (auto simp: Subtract_def bit_simps has_cpu_def dest: bit_less_64)
qed

lemma cpu_eq_iff:
  assumes "map_ok m" "map_ok m'" "topo_cpus m' = topo_cpus m"
  shows "cpu_eq m m' \<longleftrightarrow> cpu_ids m = cpu_ids m'"
proof
  have size: "map_size m' = map_size m" "map_size m \<le> 8" "length (bitmap m) = 8" "length (bitmap m') = 8"
    using assms map_ok_size [of m] map_ok_size [of m'] by (auto simp: map_ok_def)
  show "cpu_eq m m' \<Longrightarrow> cpu_ids m = cpu_ids m'" using assms size by (simp add: cpu_eq_def cpu_ids_from)
  assume ids: "cpu_ids m = cpu_ids m'"
  have "bitmap m ! k = bitmap m' ! k" if k: "k < map_size m" for k
  proof (rule bit_word_eqI)
    fix j assume "j < LENGTH(64)"
    then have j: "j < 64" by simp
    then have "64 * k + j < 64 * map_size m" using k by linarith
    then have "has_cpu m (64 * k + j) \<longleftrightarrow> bit (bitmap m ! k) j" "has_cpu m' (64 * k + j) \<longleftrightarrow> bit (bitmap m' ! k) j"
      using j size by (auto simp: has_cpu_def)
    then show "bit (bitmap m ! k) j \<longleftrightarrow> bit (bitmap m' ! k) j" using ids by (metis mem_Collect_eq set_cpu_ids)
  qed
  then show "cpu_eq m m'" using size by (auto simp: cpu_eq_def intro: nth_equalityI)
qed

lemma set_all_spec:
  assumes "map_ok m" and "\<forall>i \<in> set is. 0 \<le> i \<and> i < int (64 * map_size m)"
  shows "\<exists>m'. set_all is m = Some m' \<and> map_ok m' \<and> topo_cpus m' = topo_cpus m \<and> map_size m' = map_size m
    \<and> (\<forall>j. has_cpu m' j \<longleftrightarrow> has_cpu m j \<or> int j \<in> set is)"
  using assms
proof (induction "is" arbitrary: m)
  case (Cons i "is")
  have i: "0 \<le> i" "i < int (64 * map_size m)" "64 * map_size m \<le> 512"
    using Cons.prems(2) map_ok_size [OF Cons.prems(1)] by simp_all
  have "i < 512" using i(2, 3) by linarith
  also have "\<dots> < 2 ^ 32" by simp
  finally have "i < 2 ^ 32" .
  then have u: "unat (of_int i :: u32) = nat i"
    using i(1) by (simp only: unat_eq_nat_uint uint_word_of_int_eq) (simp add: take_bit_int_eq_self)
  obtain m1 where m1: "cpu_set (nat i) m = Some m1" "map_ok m1" "topo_cpus m1 = topo_cpus m" "map_size m1 = map_size m"
    "\<And>j. has_cpu m1 j \<longleftrightarrow> (if j = nat i then nat i < 64 * map_size m else has_cpu m j)"
  proof -
    have "nat i < MAX_CPUS" using i by (simp add: MAX_CPUS_def)
    then show thesis using cpu_set_spec [OF Cons.prems(1)] that by blast
  qed
  have "\<forall>j \<in> set is. 0 \<le> j \<and> j < int (64 * map_size m1)" using Cons.prems(2) m1(4) by simp
  then obtain m' where "set_all is m1 = Some m'" "map_ok m'" "topo_cpus m' = topo_cpus m1" "map_size m' = map_size m1"
    "\<forall>j. has_cpu m' j \<longleftrightarrow> has_cpu m1 j \<or> int j \<in> set is" using Cons.IH [OF m1(2)] by blast
  moreover have "has_cpu m1 j \<longleftrightarrow> has_cpu m j \<or> int j = i" for j
  proof -
    have "nat i < 64 * map_size m" "j = nat i \<longleftrightarrow> int j = i" using i by linarith+
    then show ?thesis using m1(5) [of j] i(1) by (auto simp: has_cpu_def)
  qed
  moreover have "set_all (i # is) m = set_all is m1" using u m1(1) by simp
  ultimately show ?case using m1(3, 4) by (intro exI [of _ m']) auto
qed simp

lemma init_spec:
  assumes "n \<le> MAX_CPUS"
  obtains m where "CpuMap_init n = Some m" "map_ok m" "topo_cpus m = n" "\<And>i. \<not> has_cpu m i"
proof -
  have "(n + 63) div 64 \<le> 8" using assms by (simp add: MAX_CPUS_def)
  moreover have "\<not> bit (replicate 8 (0 :: u64) ! (i div 64)) (i mod 64)" if "i < 64 * ((63 + n) div 64)" for i
    using that calculation by (subst nth_replicate) (auto simp: ac_simps)
  ultimately show thesis using assms
    by (intro that) (auto simp: CpuMap_init_def Let_def map_ok_def has_cpu_def size_defs)
qed

lemma to_cpu_list_spec:
  assumes "n \<le> MAX_CPUS" and "\<forall>i \<in> set is. 0 \<le> i \<and> i < int n"
  obtains m where "ToCpuList n is = Some m" "map_ok m" "topo_cpus m = n" "\<And>i. has_cpu m i \<longleftrightarrow> int i \<in> set is"
    "in_topology m"
proof -
  obtain m0 where m0: "CpuMap_init n = Some m0" "map_ok m0" "topo_cpus m0 = n" "\<And>i. \<not> has_cpu m0 i"
    using init_spec [OF assms(1)] by blast
  have "\<forall>i \<in> set is. 0 \<le> i \<and> i < int (64 * map_size m0)" using assms(2) map_ok_size [OF m0(2)] m0(3) by force
  then obtain m where m: "set_all is m0 = Some m" "map_ok m" "topo_cpus m = n"
    "\<And>i. has_cpu m i \<longleftrightarrow> int i \<in> set is"
    using set_all_spec [OF m0(2)] m0(3, 4) by metis
  then show thesis using m0(1) assms(2) by (intro that [of m]) (auto simp: ToCpuList_def in_topology_iff)
qed

lemma cpu_ids_eqI: "sorted_wrt (<) xs \<Longrightarrow> (\<And>i. has_cpu m i \<longleftrightarrow> i \<in> set xs) \<Longrightarrow> cpu_ids m = xs"
  by (rule strict_sorted_equal [OF _ sorted_cpu_ids]) auto


lemma length_cpu_ids: "map_ok m \<Longrightarrow> in_topology m \<Longrightarrow> length (cpu_ids m) \<le> 512"
proof -
  assume "map_ok m" "in_topology m"
  then have "{i. has_cpu m i} \<subseteq> {..<512}" by (auto simp: map_ok_def in_topology_iff MAX_CPUS_def)
  then have "card (set (cpu_ids m)) \<le> card {..<512 :: nat}" unfolding set_cpu_ids by (intro card_mono) auto
  then show ?thesis by (simp add: distinct_card del: set_cpu_ids)
qed

lemma back_cpu_ids:
  assumes "map_ok m" and "in_topology m"
  shows "Back m = Some (if cpu_ids m = [] then None else Some (last (cpu_ids m)))"
proof (cases "cpu_ids m = []")
  case True
  then show ?thesis unfolding Back_def nth_cpu_ids [OF assms] by simp
next
  case False
  let ?n = "length (cpu_ids m)"
  have "of_nat ?n - 1 = (of_nat (?n - 1) :: u32)" using False by (simp add: Suc_leI)
  moreover have "?n - 1 < 2 ^ 32"
  proof -
    have "?n - 1 < 512" using length_cpu_ids [OF assms] False by (cases "cpu_ids m") auto
    also have "(512 :: nat) < 2 ^ 32" by simp
    finally show ?thesis .
  qed
  ultimately have "unat (of_nat ?n - 1 :: u32) = ?n - 1"
    by (simp only: unat_of_nat) (simp add: take_bit_nat_eq_self)
  then show ?thesis using False
    by (simp add: Back_def nth_cpu_ids [OF assms] size_cpu_ids [OF assms(1)] last_conv_nth)
qed

text \<open>A map over a topology of 70 CPUs, for the examples.\<close>

definition ex_cpus :: cpu_map where
  "ex_cpus = \<lparr>topo_cpus = 70, map_size = 2, bitmap = [5, 2, 0, 0, 0, 0, 0, 0]\<rparr>"

lemma ex_cpus_ok: "map_ok ex_cpus" "in_topology ex_cpus" "cpu_ids ex_cpus = [0, 2, 65]"
proof -
  show "map_ok ex_cpus" by (simp add: ex_cpus_def map_ok_def size_defs)
  show ids: "cpu_ids ex_cpus = [0, 2, 65]" by code_simp
  show "in_topology ex_cpus" by (simp add: in_topology_def ids) (simp add: ex_cpus_def)
qed

section \<open>Properties\<close>

text \<open>
  C4. The range-based \<open>for\<close> loop over a CPU map ends and runs its body once for every CPU in the
  map, in ascending order of the ids.  The iterator skips the empty words of the bitmap and never
  reads beyond its used words.
\<close>

theorem cpu_iteration_in_order:
  assumes "map_ok m" and "in_topology m"
  shows "for_cpus m f s = mfold f (cpu_ids m) s \<and> sorted_wrt (<) (cpu_ids m)
    \<and> set (cpu_ids m) = {i. has_cpu m i}"
  using for_cpus_ids [OF assms] sorted_cpu_ids by simp

theorem cpu_iteration_in_order_witness:
  "for_cpus ex_cpus (\<lambda>c acc. Some (acc @ [c])) [] = Some [0, 2, 65]"
  using cpu_iteration_in_order [OF ex_cpus_ok(1, 2), of "\<lambda>c acc. Some (acc @ [c])" "[]"]
  by (simp add: ex_cpus_ok(3))

text \<open>
  C15. Finding the n-th CPU of a list by counting bits word by word and clearing the lowest set
  bits gives the n-th element of the ascending list of its CPUs, or the uninitialised CPU when
  the list has no such element.  \<open>Back\<close> of the empty list is the uninitialised CPU too, although
  it computes the index \<open>Size() - 1\<close>, which wraps around.
\<close>

theorem nth_cpu_equiv:
  assumes "map_ok m" and "in_topology m"
  shows "GetNthCpu m n = Some (if n < length (cpu_ids m) then Some (cpu_ids m ! n) else None)
    \<and> Back m = Some (if cpu_ids m = [] then None else Some (last (cpu_ids m)))
    \<and> CountSetCpus m = length (cpu_ids m) \<and> (cpu_empty m \<longleftrightarrow> cpu_ids m = [])"
  using nth_cpu_ids [OF assms] back_cpu_ids [OF assms] size_cpu_ids empty_cpu_ids assms by simp

theorem nth_cpu_equiv_witness:
  "GetNthCpu ex_cpus 2 = Some (Some 65) \<and> GetNthCpu ex_cpus 3 = Some None \<and> Back ex_cpus = Some (Some 65)"
  using nth_cpu_equiv [OF ex_cpus_ok(1, 2), of 2] nth_cpu_equiv [OF ex_cpus_ok(1, 2), of 3]
  by (simp add: ex_cpus_ok(3))

text \<open>
  C31. The bitmap operations implement the operations on sets of CPUs: union, intersection and
  difference of two lists of one topology, setting, clearing and testing a CPU, and the equality
  test, which compares the used words only.
\<close>

theorem cpu_list_set_algebra:
  assumes "map_ok a" and "map_ok b" and "topo_cpus b = topo_cpus a" and "i < 64 * map_size a"
  shows "set (cpu_ids (Union_cpus b a)) = set (cpu_ids a) \<union> set (cpu_ids b)
    \<and> set (cpu_ids (Intersection b a)) = set (cpu_ids a) \<inter> set (cpu_ids b)
    \<and> set (cpu_ids (Subtract b a)) = set (cpu_ids a) - set (cpu_ids b)
    \<and> map_option (\<lambda>m. set (cpu_ids m)) (cpu_set i a) = Some (insert i (set (cpu_ids a)))
    \<and> map_option (\<lambda>m. set (cpu_ids m)) (cpu_clear i a) = Some (set (cpu_ids a) - {i})
    \<and> IsSet a i = Some (i \<in> set (cpu_ids a))
    \<and> map_option snd (TestAndClear i a) = IsSet a i \<and> map_option fst (TestAndClear i a) = cpu_clear i a
    \<and> (cpu_eq a b \<longleftrightarrow> set (cpu_ids a) = set (cpu_ids b))"
proof -
  have i: "i < MAX_CPUS" using assms(4) map_ok_size [OF assms(1)] by (simp add: MAX_CPUS_def)
  obtain s where s: "cpu_set i a = Some s"
    "\<And>j. has_cpu s j \<longleftrightarrow> (if j = i then i < 64 * map_size a else has_cpu a j)"
    by (rule cpu_set_spec [OF assms(1) i]) blast
  obtain c where c: "cpu_clear i a = Some c" "\<And>j. has_cpu c j \<longleftrightarrow> j \<noteq> i \<and> has_cpu a j"
    by (rule cpu_clear_spec [OF assms(1) i]) blast
  have "cpu_eq a b \<longleftrightarrow> set (cpu_ids a) = set (cpu_ids b)"
    using cpu_eq_iff [OF assms(1, 2, 3)] strict_sorted_equal [OF sorted_cpu_ids sorted_cpu_ids] by metis
  moreover have "set (cpu_ids s) = insert i (set (cpu_ids a))" "set (cpu_ids c) = set (cpu_ids a) - {i}"
    using s(2) c(2) assms(4) by (auto split: if_splits)
  moreover have "set (cpu_ids (Union_cpus b a)) = set (cpu_ids a) \<union> set (cpu_ids b)"
    "set (cpu_ids (Intersection b a)) = set (cpu_ids a) \<inter> set (cpu_ids b)"
    "set (cpu_ids (Subtract b a)) = set (cpu_ids a) - set (cpu_ids b)"
    using set_op_specs(1-3) [OF assms(1, 2, 3)] by auto
  ultimately show ?thesis
    using s(1) c(1) is_set_has [OF assms(4, 1)] test_and_clear [OF assms(1) i] by simp
qed

theorem cpu_list_set_algebra_witness:
  "set (cpu_ids (Subtract (ex_cpus\<lparr>bitmap := [4, 0, 0, 0, 0, 0, 0, 0]\<rparr>) ex_cpus)) = {0, 65}
   \<and> IsSet ex_cpus 65 = Some True"
proof -
  have ok: "map_ok (ex_cpus\<lparr>bitmap := [4, 0, 0, 0, 0, 0, 0, 0]\<rparr>)" by (simp add: ex_cpus_def map_ok_def size_defs)
  have ids: "cpu_ids (ex_cpus\<lparr>bitmap := [4, 0, 0, 0, 0, 0, 0, 0]\<rparr>) = [2]" by code_simp
  have "65 < 64 * map_size ex_cpus" "topo_cpus (ex_cpus\<lparr>bitmap := [4, 0, 0, 0, 0, 0, 0, 0]\<rparr>) = topo_cpus ex_cpus"
    by (simp_all add: ex_cpus_def)
  then show ?thesis using cpu_list_set_algebra [OF ex_cpus_ok(1) ok, of 65]
    unfolding ids ex_cpus_ok(3) by auto
qed

text \<open>
  C32. Converting a CPU list to a vector of ids and back gives the same list, and every vector of
  distinct ascending ids of the topology is what its CPU list converts back to.
\<close>

theorem cpu_list_round_trip:
  assumes "map_ok m" and "in_topology m" and "n \<le> MAX_CPUS" and "sorted_wrt (<) is" and "\<forall>i \<in> set is. i < n"
  shows "(\<exists>m'. (do { ids \<leftarrow> ToIntVector m; ToCpuList (topo_cpus m) (map int ids) }) = Some m' \<and> cpu_eq m m')
    \<and> (do { l \<leftarrow> ToCpuList n (map int is); ToIntVector l }) = Some is"
proof
  have "topo_cpus m \<le> MAX_CPUS" using assms(1) by (simp add: map_ok_def)
  moreover have "\<forall>i \<in> set (map int (cpu_ids m)). 0 \<le> i \<and> i < int (topo_cpus m)"
    using assms(2) by (simp add: in_topology_iff)
  ultimately obtain m' where m': "ToCpuList (topo_cpus m) (map int (cpu_ids m)) = Some m'" "map_ok m'"
    "topo_cpus m' = topo_cpus m" "\<And>i. has_cpu m' i \<longleftrightarrow> int i \<in> set (map int (cpu_ids m))"
    by (rule to_cpu_list_spec) blast
  then have "cpu_ids m' = cpu_ids m" by (intro cpu_ids_eqI sorted_cpu_ids) auto
  then have "cpu_eq m m'" using cpu_eq_iff [OF assms(1) m'(2, 3)] by simp
  then show "\<exists>m'. (do { ids \<leftarrow> ToIntVector m; ToCpuList (topo_cpus m) (map int ids) }) = Some m' \<and> cpu_eq m m'"
    using m'(1) to_int_vector [OF assms(1, 2)] by simp
  have "\<forall>i \<in> set (map int is). 0 \<le> i \<and> i < int n" using assms(5) by simp
  then obtain l where l: "ToCpuList n (map int is) = Some l" "map_ok l" "in_topology l"
    "\<And>i. has_cpu l i \<longleftrightarrow> int i \<in> set (map int is)" using to_cpu_list_spec [OF assms(3)] by metis
  then have "cpu_ids l = is" using assms(4) by (intro cpu_ids_eqI) auto
  then show "(do { l \<leftarrow> ToCpuList n (map int is); ToIntVector l }) = Some is"
    using l(1) to_int_vector [OF l(2, 3)] by simp
qed

theorem cpu_list_round_trip_witness:
  "(\<exists>m'. (do { ids \<leftarrow> ToIntVector ex_cpus; ToCpuList (topo_cpus ex_cpus) (map int ids) }) = Some m' \<and> cpu_eq ex_cpus m')
    \<and> (do { l \<leftarrow> ToCpuList 112 (map int [1, 64, 111]); ToIntVector l }) = Some [1, 64, 111]"
  by (rule cpu_list_round_trip [OF ex_cpus_ok(1, 2)]) (simp_all add: MAX_CPUS_def)

end
