(* ===== verification/Cpu_Topology.thy ===== *)
theory Cpu_Topology
  imports Cpu_Map
begin

text \<open>
  The class \<open>Topology\<close> of \<open>lib/topology.h\<close> and \<open>lib/topology.cc\<close>: the CPUs of a machine with
  their cores, siblings and NUMA nodes, the construction from a raw description or from the
  files the kernel exports, the export to a raw description, and the parser for CPU lists.
  The contents of the files, \<open>numa_node_of_cpu\<close>, \<open>absl::SimpleAtoi\<close> and \<open>absl::StrSplit\<close> are
  arguments.
\<close>

section \<open>The state\<close>

record Raw =
  raw_cpu :: int
  raw_core :: int
  raw_smt_idx :: int
  raw_siblings :: "int list"
  raw_l3_siblings :: "int list"
  raw_numa_node :: int

record CpuRep =
  rep_cpu :: int
  core :: int
  smt_idx :: int
  siblings :: cpu_map
  l3_siblings :: cpu_map
  numa_node :: int

record topology =
  num_cpus :: nat
  all_cpus :: cpu_map
  cpus :: "CpuRep list"
  highest_node_idx :: int
  consecutive_smt_numbering :: bool
  cpus_on_node :: "cpu_map list"

text \<open>\<open>Topology::cpu\<close>: an index outside of the array is undefined behaviour.\<close>

definition cpu_rep :: "topology \<Rightarrow> nat \<Rightarrow> CpuRep option" where
  "cpu_rep t i = do { REQUIRE (i < length (cpus t)); Some (cpus t ! i) }"

definition Cores :: "topology \<Rightarrow> cpu_map \<Rightarrow> cpu_map option" where
  "Cores t m = do {
     result \<leftarrow> CpuMap_init (num_cpus t);
     (result, cores) \<leftarrow> for_cpus m (\<lambda>c (result, cores). do {
        r \<leftarrow> cpu_rep t c;
        if core r \<in> set cores then Some (result, cores)
        else do { result \<leftarrow> cpu_set (unat (of_int (core r) :: u32)) result; Some (result, core r # cores) } })
       (result, []);
     Some result }"

definition CpusOnNode :: "topology \<Rightarrow> int \<Rightarrow> cpu_map option" where
  "CpusOnNode t node = do { CHECK (0 \<le> node); CHECK (nat node < length (cpus_on_node t));
     Some (cpus_on_node t ! nat node) }"

definition CreateCpuListsForNumaNodes :: "nat \<Rightarrow> topology \<Rightarrow> topology option" where
  "CreateCpuListsForNumaNodes num_possible_nodes t = do {
     e \<leftarrow> CpuMap_init (num_cpus t);
     ls \<leftarrow> for_cpus (all_cpus t) (\<lambda>c ls. do {
        r \<leftarrow> cpu_rep t c;
        CHECK (0 \<le> numa_node r);
        CHECK (nat (numa_node r) < num_possible_nodes);
        l \<leftarrow> cpu_set c (ls ! nat (numa_node r));
        Some (ls[nat (numa_node r) := l]) }) (replicate num_possible_nodes e);
     Some (t\<lparr>cpus_on_node := ls\<rparr>) }"

definition CheckSiblings :: "topology \<Rightarrow> unit option" where
  "CheckSiblings t = for_cpus (all_cpus t) (\<lambda>c _. do {
     r \<leftarrow> cpu_rep t c;
     b \<leftarrow> IsSet (siblings r) c;
     CHECK b;
     for_cpus (siblings r) (\<lambda>s _. do { rs \<leftarrow> cpu_rep t s; CHECK (cpu_eq (siblings r) (siblings rs)) }) ();
     for_cpus (l3_siblings r) (\<lambda>s _. do { rs \<leftarrow> cpu_rep t s; CHECK (cpu_eq (l3_siblings r) (l3_siblings rs)) }) ()
     }) ()"

definition CheckConsecutiveSmtNumbering :: "topology \<Rightarrow> bool option" where
  "CheckConsecutiveSmtNumbering t = do {
     r \<leftarrow> cpu_rep t 0;
     let sib = siblings r in
     if CountSetCpus sib \<noteq> 2 then do { CHECK (CountSetCpus sib = 1); Some False }
     else do {
       s0 \<leftarrow> GetNthCpu sib 0; s0 \<leftarrow> s0;
       s1 \<leftarrow> GetNthCpu sib 1; s1 \<leftarrow> s1;
       let sibling_offset = \<bar>int s0 - int s1\<bar> in
       if sibling_offset = 1 then Some True
       else do {
         all_cores \<leftarrow> Cores t (all_cpus t);
         CHECK (sibling_offset = int (CountSetCpus all_cores));
         Some False } } }"

section \<open>Construction from a raw description\<close>

definition CheckCustomTopology :: "Raw list \<Rightarrow> unit option" where
  "CheckCustomTopology raws = do {
     CHECK (raws \<noteq> []);
     mfold (\<lambda>(next, r) _. do {
       CHECK (raw_cpu r = int next);
       CHECK (list_all (\<lambda>s. 0 \<le> s \<and> s < int (length raws)) (raw_siblings r));
       CHECK (list_all (\<lambda>s. 0 \<le> s \<and> s < int (length raws)) (raw_l3_siblings r)) })
       (enumerate 0 raws) () }"

text \<open>\<open>std::sort\<close> with the order on the CPU ids.\<close>

definition sort_raws :: "Raw list \<Rightarrow> Raw list" where
  "sort_raws raws = sort_key raw_cpu raws"

definition fill_rep :: "nat \<Rightarrow> nat \<Rightarrow> Raw \<Rightarrow> CpuRep option" where
  "fill_rep n i r = do {
     sib \<leftarrow> ToCpuList n (raw_siblings r);
     l3 \<leftarrow> ToCpuList n (raw_l3_siblings r);
     Some \<lparr>rep_cpu = int i, core = raw_core r, smt_idx = raw_smt_idx r, siblings = sib,
       l3_siblings = l3, numa_node = raw_numa_node r\<rparr> }"

fun fill_cpus :: "nat \<Rightarrow> (nat \<times> Raw) list \<Rightarrow> topology \<Rightarrow> topology option" where
  "fill_cpus n [] t = Some t"
| "fill_cpus n ((i, r) # irs) t = do {
     rep \<leftarrow> fill_rep n i r;
     all \<leftarrow> cpu_set i (all_cpus t);
     fill_cpus n irs (t\<lparr>cpus := cpus t @ [rep],
       highest_node_idx := max (numa_node rep) (highest_node_idx t), all_cpus := all\<rparr>) }"

definition Topology_Custom :: "Raw list \<Rightarrow> topology option" where
  "Topology_Custom raws = do {
     let n = length raws;
     CHECK (n \<le> MAX_CPUS);
     let raws = sort_raws raws;
     CheckCustomTopology raws;
     e \<leftarrow> CpuMap_init n;
     t \<leftarrow> fill_cpus n (enumerate 0 raws) \<lparr>num_cpus = n, all_cpus = e, cpus = [], highest_node_idx = -1,
       consecutive_smt_numbering = False, cpus_on_node = []\<rparr>;
     CheckSiblings t;
     t \<leftarrow> CreateCpuListsForNumaNodes (nat (highest_node_idx t + 1)) t;
     c \<leftarrow> CheckConsecutiveSmtNumbering t;
     Some (t\<lparr>consecutive_smt_numbering := c\<rparr>) }"

definition Export :: "topology \<Rightarrow> Raw list option" where
  "Export t = for_cpus (all_cpus t) (\<lambda>c to_export. do {
     r \<leftarrow> cpu_rep t c;
     sib \<leftarrow> ToIntVector (siblings r);
     l3 \<leftarrow> ToIntVector (l3_siblings r);
     Some (to_export @ [\<lparr>raw_cpu = rep_cpu r, raw_core = core r, raw_smt_idx = smt_idx r, raw_siblings = map int sib,
       raw_l3_siblings = map int l3, raw_numa_node = numa_node r\<rparr>]) }) []"

section \<open>Siblings from the files of the kernel\<close>

text \<open>
  \<open>GetAllSiblings\<close>: \<open>lines\<close> are the first lines of the files of the CPUs.  The map from lines to
  CPUs is an association list.
\<close>

fun push_back_at :: "string \<Rightarrow> int \<Rightarrow> (string \<times> int list) list \<Rightarrow> (string \<times> int list) list" where
  "push_back_at k c [] = [(k, [c])]"
| "push_back_at k c ((k', cs) # m) = (if k = k' then (k', cs @ [c]) # m else (k', cs) # push_back_at k c m)"

fun sibling_map_loop :: "nat \<Rightarrow> string list \<Rightarrow> (string \<times> int list) list \<Rightarrow> (string \<times> int list) list option" where
  "sibling_map_loop cpu [] m = Some m"
| "sibling_map_loop cpu (l # ls) m =
     (if l = [] then do { CHECK (cpu = 0); Some m }
      else sibling_map_loop (cpu + 1) ls (push_back_at l (int cpu) m))"

definition insert_new :: "int \<Rightarrow> cpu_map \<Rightarrow> (int \<times> cpu_map) list \<Rightarrow> (int \<times> cpu_map) list option" where
  "insert_new c l m = do { CHECK (map_of m c = None); Some ((c, l) # m) }"

definition GetAllSiblings :: "nat \<Rightarrow> string list \<Rightarrow> (int \<times> cpu_map) list option" where
  "GetAllSiblings n lines = do {
     sibling_map \<leftarrow> sibling_map_loop 0 lines [];
     mfold (\<lambda>(_, cpus). mfold (\<lambda>c m. do { l \<leftarrow> ToCpuList n cpus; insert_new c l m }) cpus)
       sibling_map [] }"

text \<open>The index of a CPU among the siblings of its core.\<close>

fun smt_loop :: "cpu_map \<Rightarrow> nat \<Rightarrow> nat list \<Rightarrow> int \<Rightarrow> int option" where
  "smt_loop sib cpu [] idx = Some idx"
| "smt_loop sib cpu (c # cs) idx = do {
     b \<leftarrow> IsSet sib c;
     if b then (if c = cpu then Some (idx + 1) else smt_loop sib cpu cs (idx + 1))
     else smt_loop sib cpu cs idx }"

definition host_rep :: "nat \<Rightarrow> (int \<times> cpu_map) list \<Rightarrow> (int \<times> cpu_map) list \<Rightarrow> (nat \<Rightarrow> int) \<Rightarrow> nat \<Rightarrow> CpuRep option" where
  "host_rep n sibs l3s numa_node_of_cpu i = do {
     sib \<leftarrow> map_of sibs (int i);
     e \<leftarrow> CpuMap_init n;
     l3 \<leftarrow> (if l3s = [] then Some e else map_of l3s (int i));
     it \<leftarrow> iter_begin sib;
     c \<leftarrow> it_cpu it;
     CHECK (0 \<le> numa_node_of_cpu i);
     idx \<leftarrow> smt_loop sib i [0..<MAX_CPUS] (-1);
     CHECK (0 \<le> idx);
     Some \<lparr>rep_cpu = int i, core = int c, smt_idx = idx, siblings = sib, l3_siblings = l3,
       numa_node = numa_node_of_cpu i\<rparr> }"

fun host_cpus :: "(nat \<Rightarrow> CpuRep option) \<Rightarrow> nat list \<Rightarrow> topology \<Rightarrow> topology option" where
  "host_cpus rep_of [] t = Some t"
| "host_cpus rep_of (i # is) t = do {
     rep \<leftarrow> rep_of i;
     all \<leftarrow> cpu_set i (all_cpus t);
     host_cpus rep_of is (t\<lparr>cpus := cpus t @ [rep], all_cpus := all\<rparr>) }"

text \<open>
  \<open>GetHighestNodeIdx\<close>: \<open>possible\<close> is the content of the file, if it can be opened.  The first line is
  split at commas and dashes by \<open>absl::StrSplit\<close>, which is an argument.
\<close>

definition getline_first :: "string \<Rightarrow> string option" where
  "getline_first content = do { CHECK (content \<noteq> []); Some (takeWhile (\<lambda>c. c \<noteq> CHR 0x0A) content) }"

definition GetHighestNodeIdx :: "(string \<Rightarrow> int option) \<Rightarrow> (string \<Rightarrow> string list) \<Rightarrow> string option \<Rightarrow> int option" where
  "GetHighestNodeIdx SimpleAtoi StrSplit possible = do {
     content \<leftarrow> possible;
     node_possible_str \<leftarrow> getline_first content;
     mfold (\<lambda>node_idx_s highest_idx. do {
        node_idx \<leftarrow> SimpleAtoi node_idx_s;
        Some (max highest_idx node_idx) }) (StrSplit node_possible_str) 0 }"

text \<open>
  The constructor for the machine: the number of CPUs, the lines of the \<open>thread_siblings\<close> and
  \<open>shared_cpu_list\<close> files, the NUMA nodes and the file of the possible nodes come from the system.
\<close>

definition Topology_Host :: "(string \<Rightarrow> int option) \<Rightarrow> (string \<Rightarrow> string list) \<Rightarrow> nat \<Rightarrow> string list \<Rightarrow> string list
    \<Rightarrow> (nat \<Rightarrow> int) \<Rightarrow> string option \<Rightarrow> topology option" where
  "Topology_Host SimpleAtoi StrSplit n thread_siblings shared_cpu_list numa_node_of_cpu possible = do {
     CHECK (n \<le> MAX_CPUS);
     sibs \<leftarrow> GetAllSiblings n thread_siblings;
     CHECK (length sibs = n);
     l3s \<leftarrow> GetAllSiblings n shared_cpu_list;
     CHECK (l3s = [] \<or> length l3s = n);
     e \<leftarrow> CpuMap_init n;
     t \<leftarrow> host_cpus (host_rep n sibs l3s numa_node_of_cpu) [0..<n] \<lparr>num_cpus = n, all_cpus = e, cpus = [],
       highest_node_idx = -1, consecutive_smt_numbering = False, cpus_on_node = []\<rparr>;
     highest \<leftarrow> GetHighestNodeIdx SimpleAtoi StrSplit possible;
     let t = t\<lparr>highest_node_idx := highest\<rparr>;
     CheckSiblings t;
     t \<leftarrow> CreateCpuListsForNumaNodes (nat (highest_node_idx t + 1)) t;
     c \<leftarrow> CheckConsecutiveSmtNumbering t;
     Some (t\<lparr>consecutive_smt_numbering := c\<rparr>) }"

section \<open>Parsing CPU lists\<close>

text \<open>The fields that \<open>std::getline\<close> with the delimiter \<open>','\<close> reads from the string.\<close>

fun getlines :: "string \<Rightarrow> string \<Rightarrow> string list" where
  "getlines acc [] = (if acc = [] then [] else [acc])"
| "getlines acc (c # cs) = (if c = CHR '','' then acc # getlines [] cs else getlines (acc @ [c]) cs)"

definition is_digit :: "char \<Rightarrow> bool" where
  "is_digit c \<longleftrightarrow> of_char c \<ge> (48 :: nat) \<and> of_char c \<le> (57 :: nat)"

text \<open>The match of a field with the regular expression for a range, an optional newline at its end.\<close>

definition match_range :: "string \<Rightarrow> (string \<times> string) option" where
  "match_range f = (let a = takeWhile is_digit f in
     case dropWhile is_digit f of
       [] \<Rightarrow> None
     | c # f' \<Rightarrow> let b = takeWhile is_digit f'; rest = dropWhile is_digit f' in
         if c = CHR ''-'' \<and> a \<noteq> [] \<and> b \<noteq> [] \<and> (rest = [] \<or> rest = [CHR 0x0A]) then Some (a, b) else None)"

definition parse_field :: "(string \<Rightarrow> int option) \<Rightarrow> nat \<Rightarrow> string \<Rightarrow> cpu_map \<Rightarrow> cpu_map option" where
  "parse_field SimpleAtoi n f l =
     (if f = [CHR 0x0A] then Some l
      else do {
        (first, last) \<leftarrow> (case SimpleAtoi f of
            Some first \<Rightarrow> Some (first, first)
          | None \<Rightarrow> do { (a, b) \<leftarrow> match_range f; first \<leftarrow> SimpleAtoi a; last \<leftarrow> SimpleAtoi b; Some (first, last) });
        CHECK (0 \<le> first);
        CHECK (first \<le> last);
        CHECK (last < int n);
        set_all [first..last] l })"

definition ParseCpuStr :: "(string \<Rightarrow> int option) \<Rightarrow> nat \<Rightarrow> string \<Rightarrow> cpu_map option" where
  "ParseCpuStr SimpleAtoi n str = do {
     l \<leftarrow> CpuMap_init n;
     mfold (parse_field SimpleAtoi n) (getlines [] str) l }"

section \<open>Well-formed topologies\<close>

definition list_ok :: "nat \<Rightarrow> cpu_map \<Rightarrow> bool" where
  "list_ok n m \<longleftrightarrow> map_ok m \<and> in_topology m \<and> topo_cpus m = n"

definition rep_ok :: "nat \<Rightarrow> nat \<Rightarrow> CpuRep \<Rightarrow> bool" where
  "rep_ok n i r \<longleftrightarrow> rep_cpu r = int i \<and> list_ok n (siblings r) \<and> list_ok n (l3_siblings r)"

definition topo_ok :: "topology \<Rightarrow> bool" where
  "topo_ok t \<longleftrightarrow> num_cpus t \<le> MAX_CPUS \<and> length (cpus t) = num_cpus t \<and> list_ok (num_cpus t) (all_cpus t)
     \<and> cpu_ids (all_cpus t) = [0..<num_cpus t] \<and> (\<forall>i < num_cpus t. rep_ok (num_cpus t) i (cpus t ! i))"

lemma mfold_collect:
  "(\<And>x acc. x \<in> set xs \<Longrightarrow> f x acc = Some (acc @ [h x])) \<Longrightarrow> mfold f xs acc = Some (acc @ map h xs)"
  by (induction xs arbitrary: acc) simp_all

lemma for_list: "list_ok n m \<Longrightarrow> for_cpus m f s = mfold f (cpu_ids m) s"
  by (simp add: list_ok_def for_cpus_ids)

lemma for_all_cpus: "topo_ok t \<Longrightarrow> for_cpus (all_cpus t) f s = mfold f [0..<num_cpus t] s"
  using for_list [of "num_cpus t" "all_cpus t"] by (simp add: topo_ok_def)

lemma cpu_rep_ok: "topo_ok t \<Longrightarrow> i < num_cpus t \<Longrightarrow> cpu_rep t i = Some (cpus t ! i) \<and> rep_ok (num_cpus t) i (cpus t ! i)"
  by (simp add: cpu_rep_def topo_ok_def)

lemma list_ok_less: "list_ok n m \<Longrightarrow> i \<in> set (cpu_ids m) \<Longrightarrow> i < n"
  by (auto simp: list_ok_def in_topology_iff)

lemma list_ok_is_set:
  assumes "list_ok n m" and "i < n" shows "IsSet m i = Some (i \<in> set (cpu_ids m))"
proof -
  have ok: "map_ok m" using assms(1) by (simp add: list_ok_def)
  have "i < 64 * map_size m" using map_ok_size [OF ok] assms by (simp add: list_ok_def)
  then show ?thesis using is_set_has [OF _ ok] by simp
qed

lemma list_ok_eq: "list_ok n m \<Longrightarrow> list_ok n m' \<Longrightarrow> cpu_eq m m' \<longleftrightarrow> cpu_ids m = cpu_ids m'"
  by (simp add: list_ok_def cpu_eq_iff)

lemma to_cpu_list_ok:
  assumes "n \<le> MAX_CPUS" and "\<forall>i \<in> set is. 0 \<le> i \<and> i < int n"
  obtains m where "ToCpuList n is = Some m" "list_ok n m" "set (cpu_ids m) = nat ` set is"
    "\<And>js. is = map int js \<Longrightarrow> sorted_wrt (<) js \<Longrightarrow> cpu_ids m = js"
proof -
  obtain m where m: "ToCpuList n is = Some m" "map_ok m" "topo_cpus m = n" "\<And>i. has_cpu m i \<longleftrightarrow> int i \<in> set is"
    "in_topology m" by (rule to_cpu_list_spec [OF assms]) blast
  have "int i \<in> set is \<longleftrightarrow> i \<in> nat ` set is" for i
    using assms(2) by (metis image_iff int_nat_eq nat_int)
  then have "set (cpu_ids m) = nat ` set is" using m(4) by auto
  moreover have "cpu_ids m = js" if "is = map int js" "sorted_wrt (<) js" for js
    using that m(4) by (intro cpu_ids_eqI) (auto simp: image_iff)
  ultimately show thesis using m(1, 2, 3, 5) by (intro that [of m]) (simp_all add: list_ok_def)
qed

section \<open>The sibling check\<close>

definition siblings_ok :: "topology \<Rightarrow> bool" where
  "siblings_ok t \<longleftrightarrow> (\<forall>i < num_cpus t. i \<in> set (cpu_ids (siblings (cpus t ! i)))
     \<and> (\<forall>j \<in> set (cpu_ids (siblings (cpus t ! i))). cpu_ids (siblings (cpus t ! j)) = cpu_ids (siblings (cpus t ! i)))
     \<and> (\<forall>j \<in> set (cpu_ids (l3_siblings (cpus t ! i))). cpu_ids (l3_siblings (cpus t ! j)) = cpu_ids (l3_siblings (cpus t ! i))))"

lemma check_lists:
  assumes "topo_ok t" and "list_ok (num_cpus t) m" and "\<And>r i. rep_ok (num_cpus t) i r \<Longrightarrow> list_ok (num_cpus t) (f r)"
  shows "for_cpus m (\<lambda>s _. do { rs \<leftarrow> cpu_rep t s; CHECK (cpu_eq m (f rs)) }) () = Some ()
    \<longleftrightarrow> (\<forall>j \<in> set (cpu_ids m). cpu_ids (f (cpus t ! j)) = cpu_ids m)"
proof -
  have "(do { rs \<leftarrow> cpu_rep t j; CHECK (cpu_eq m (f rs)) }) = Some () \<longleftrightarrow> cpu_ids (f (cpus t ! j)) = cpu_ids m"
    if "j \<in> set (cpu_ids m)" for j
  proof -
    have "cpu_rep t j = Some (cpus t ! j)" "list_ok (num_cpus t) (f (cpus t ! j))"
      using cpu_rep_ok [OF assms(1) list_ok_less [OF assms(2) that]] assms(3) by auto
    then show ?thesis using list_ok_eq [OF assms(2)] by auto
  qed
  then show ?thesis unfolding for_list [OF assms(2)] mfold_unit by blast
qed

lemma bind_unit_Some: "(a \<bind> (f :: unit \<Rightarrow> 'a option)) = Some b \<longleftrightarrow> a = Some () \<and> f () = Some b"
  by (cases a) auto

lemma check_siblings: assumes "topo_ok t" shows "CheckSiblings t = Some () \<longleftrightarrow> siblings_ok t"
proof -
  have body: "(do { r \<leftarrow> cpu_rep t i; b \<leftarrow> IsSet (siblings r) i; CHECK b;
      for_cpus (siblings r) (\<lambda>s _. do { rs \<leftarrow> cpu_rep t s; CHECK (cpu_eq (siblings r) (siblings rs)) }) ();
      for_cpus (l3_siblings r) (\<lambda>s _. do { rs \<leftarrow> cpu_rep t s; CHECK (cpu_eq (l3_siblings r) (l3_siblings rs)) }) () })
      = Some () \<longleftrightarrow> i \<in> set (cpu_ids (siblings (cpus t ! i)))
     \<and> (\<forall>j \<in> set (cpu_ids (siblings (cpus t ! i))). cpu_ids (siblings (cpus t ! j)) = cpu_ids (siblings (cpus t ! i)))
     \<and> (\<forall>j \<in> set (cpu_ids (l3_siblings (cpus t ! i))). cpu_ids (l3_siblings (cpus t ! j)) = cpu_ids (l3_siblings (cpus t ! i)))"
    if "i < num_cpus t" for i
  proof -
    have r: "cpu_rep t i = Some (cpus t ! i)" "list_ok (num_cpus t) (siblings (cpus t ! i))"
      "list_ok (num_cpus t) (l3_siblings (cpus t ! i))" using cpu_rep_ok [OF assms that] by (auto simp: rep_ok_def)
    show ?thesis
      using check_lists [OF assms r(2), of siblings] check_lists [OF assms r(3), of l3_siblings]
      by (simp add: r(1) list_ok_is_set [OF r(2) that] bind_unit_Some rep_ok_def)
  qed
  have all: "(\<forall>i < num_cpus t. P i) \<longleftrightarrow> (\<forall>i \<in> set [0..<num_cpus t]. P i)" for P by auto
  show ?thesis unfolding CheckSiblings_def for_all_cpus [OF assms] mfold_unit siblings_ok_def all
    by (rule ball_cong [OF refl], rule body) simp
qed


section \<open>Loops over the CPUs of a topology\<close>

lemma mfold_upt_inv:
  assumes "mfold f [0..<n] s = Some s'" and "P 0 s"
    and "\<And>i s s'. i < n \<Longrightarrow> P i s \<Longrightarrow> f i s = Some s' \<Longrightarrow> P (Suc i) s'"
  shows "P n s'"
  using assms
proof (induction n arbitrary: s')
  case (Suc n)
  obtain s1 where "mfold f [0..<n] s = Some s1" "f n s1 = Some s'"
    using Suc.prems(1) by (auto simp: mfold_append bind_eq_Some_conv)
  then show ?case using Suc.IH [of s1] Suc.prems(2, 3) by simp
qed simp

lemma mfold_upt_total:
  assumes "P 0 s" and "\<And>i s. i < n \<Longrightarrow> P i s \<Longrightarrow> \<exists>s'. f i s = Some s' \<and> P (Suc i) s'"
  shows "\<exists>s'. mfold f [0..<n] s = Some s' \<and> P n s'"
  using assms
proof (induction n)
  case (Suc n)
  obtain s1 where s1: "mfold f [0..<n] s = Some s1" "P n s1" using Suc.IH Suc.prems by auto
  obtain s2 where "f n s1 = Some s2" "P (Suc n) s2" using Suc.prems(2) [of n s1] s1(2) by auto
  then show ?case using s1(1) by (simp add: mfold_append)
qed simp

lemma cpu_set_ok:
  assumes "list_ok n m" and "i < n"
  obtains m' where "cpu_set i m = Some m'" "list_ok n m'" "set (cpu_ids m') = insert i (set (cpu_ids m))"
proof -
  have ok: "map_ok m" "in_topology m" "topo_cpus m = n" using assms(1) by (auto simp: list_ok_def)
  have i: "i < MAX_CPUS" "i < 64 * map_size m" using ok assms(2) map_ok_size [OF ok(1)] by (auto simp: map_ok_def)
  obtain m' where m': "cpu_set i m = Some m'" "map_ok m'" "topo_cpus m' = topo_cpus m"
    "\<And>j. has_cpu m' j \<longleftrightarrow> (if j = i then i < 64 * map_size m else has_cpu m j)"
    by (rule cpu_set_spec [OF ok(1) i(1)]) blast
  have "set (cpu_ids m') = insert i (set (cpu_ids m))" using m'(4) i(2) by (auto split: if_splits)
  moreover have "in_topology m'" using ok m'(3, 4) assms(2) by (auto simp: in_topology_iff split: if_splits)
  ultimately show thesis using m'(1-3) ok(3) by (intro that [of m']) (simp_all add: list_ok_def)
qed

lemma init_ok:
  assumes "n \<le> MAX_CPUS" obtains m where "CpuMap_init n = Some m" "list_ok n m" "cpu_ids m = []"
proof -
  obtain m where m: "CpuMap_init n = Some m" "map_ok m" "topo_cpus m = n" "\<And>i. \<not> has_cpu m i"
    by (rule init_spec [OF assms]) blast
  then have "cpu_ids m = []" by (intro cpu_ids_eqI) auto
  then show thesis using m by (intro that [of m]) (auto simp: list_ok_def in_topology_iff)
qed

subsection \<open>NUMA nodes\<close>

definition nodes_ok :: "topology \<Rightarrow> bool" where
  "nodes_ok t \<longleftrightarrow> (\<forall>i < num_cpus t. 0 \<le> numa_node (cpus t ! i) \<and> numa_node (cpus t ! i) < int (length (cpus_on_node t)))
     \<and> (\<forall>v < length (cpus_on_node t). list_ok (num_cpus t) (cpus_on_node t ! v)
          \<and> set (cpu_ids (cpus_on_node t ! v)) = {i. i < num_cpus t \<and> numa_node (cpus t ! i) = int v})"

definition filed :: "topology \<Rightarrow> nat \<Rightarrow> nat \<Rightarrow> cpu_map list \<Rightarrow> bool" where
  "filed t k i ls \<longleftrightarrow> length ls = k \<and> (\<forall>j < i. 0 \<le> numa_node (cpus t ! j) \<and> numa_node (cpus t ! j) < int k)
     \<and> (\<forall>v < k. list_ok (num_cpus t) (ls ! v) \<and> set (cpu_ids (ls ! v)) = {j. j < i \<and> numa_node (cpus t ! j) = int v})"

lemma file_cpu:
  assumes "topo_ok t" and "i < num_cpus t" and "filed t k i ls"
  shows "(do { r \<leftarrow> cpu_rep t i; CHECK (0 \<le> numa_node r); CHECK (nat (numa_node r) < k);
      l \<leftarrow> cpu_set i (ls ! nat (numa_node r)); Some (ls[nat (numa_node r) := l]) }) =
     (if 0 \<le> numa_node (cpus t ! i) \<and> numa_node (cpus t ! i) < int k
      then Some (ls[nat (numa_node (cpus t ! i)) := the (cpu_set i (ls ! nat (numa_node (cpus t ! i))))]) else None)"
    and "0 \<le> numa_node (cpus t ! i) \<Longrightarrow> numa_node (cpus t ! i) < int k \<Longrightarrow>
      filed t k (Suc i) (ls[nat (numa_node (cpus t ! i)) := the (cpu_set i (ls ! nat (numa_node (cpus t ! i))))])"
proof -
  let ?v = "numa_node (cpus t ! i)"
  have r: "cpu_rep t i = Some (cpus t ! i)" using cpu_rep_ok [OF assms(1, 2)] by simp
  have set: "\<exists>m'. cpu_set i (ls ! nat ?v) = Some m' \<and> list_ok (num_cpus t) m'
      \<and> set (cpu_ids m') = insert i (set (cpu_ids (ls ! nat ?v)))" if "0 \<le> ?v" "?v < int k"
  proof -
    have "list_ok (num_cpus t) (ls ! nat ?v)" using assms(3) that by (simp add: filed_def)
    then show ?thesis using cpu_set_ok [OF _ assms(2)] by metis
  qed
  show "(do { r \<leftarrow> cpu_rep t i; CHECK (0 \<le> numa_node r); CHECK (nat (numa_node r) < k);
      l \<leftarrow> cpu_set i (ls ! nat (numa_node r)); Some (ls[nat (numa_node r) := l]) }) =
     (if 0 \<le> ?v \<and> ?v < int k then Some (ls[nat ?v := the (cpu_set i (ls ! nat ?v))]) else None)"
    using r set by (auto simp: CHECK_def nat_less_iff)
  assume v: "0 \<le> ?v" "?v < int k"
  then obtain m' where "cpu_set i (ls ! nat ?v) = Some m'" "list_ok (num_cpus t) m'"
    "set (cpu_ids m') = insert i (set (cpu_ids (ls ! nat ?v)))" using set by blast
  then show "filed t k (Suc i) (ls[nat ?v := the (cpu_set i (ls ! nat ?v))])"
    using assms(3) v unfolding filed_def
    by (auto simp: nth_list_update less_Suc_eq nat_less_iff simp del: set_cpu_ids)
qed

lemma filed_start:
  assumes "topo_ok t" obtains e where "CpuMap_init (num_cpus t) = Some e" "filed t k 0 (replicate k e)"
proof -
  have "num_cpus t \<le> MAX_CPUS" using assms by (simp add: topo_ok_def)
  then obtain e where "CpuMap_init (num_cpus t) = Some e" "list_ok (num_cpus t) e" "cpu_ids e = []"
    by (rule init_ok)
  then show thesis by (intro that) (auto simp: filed_def simp del: set_cpu_ids)
qed

lemma create_lists:
  assumes "topo_ok t" and "CreateCpuListsForNumaNodes k t = Some t'"
  obtains ls where "t' = t\<lparr>cpus_on_node := ls\<rparr>" "length ls = k" "nodes_ok t'"
proof -
  obtain e where e: "CpuMap_init (num_cpus t) = Some e" "filed t k 0 (replicate k e)" by (rule filed_start [OF assms(1)])
  obtain ls where ls: "mfold (\<lambda>c ls. do { r \<leftarrow> cpu_rep t c; CHECK (0 \<le> numa_node r); CHECK (nat (numa_node r) < k);
      l \<leftarrow> cpu_set c (ls ! nat (numa_node r)); Some (ls[nat (numa_node r) := l]) }) [0..<num_cpus t] (replicate k e) = Some ls"
    and t': "t' = t\<lparr>cpus_on_node := ls\<rparr>"
    using assms(2) unfolding CreateCpuListsForNumaNodes_def for_all_cpus [OF assms(1)] e(1)
    by (auto simp: bind_eq_Some_conv)
  have "filed t k (num_cpus t) ls"
    by (rule mfold_upt_inv [OF ls, of "filed t k", OF e(2)])
      (auto simp: file_cpu(1) [OF assms(1)] intro: file_cpu(2) [OF assms(1)] split: if_splits)
  then show thesis using t' by (intro that [of ls]) (auto simp: filed_def nodes_ok_def)
qed

lemma create_lists_total:
  assumes "topo_ok t" and "\<And>i. i < num_cpus t \<Longrightarrow> 0 \<le> numa_node (cpus t ! i) \<and> numa_node (cpus t ! i) < int k"
  shows "\<exists>t'. CreateCpuListsForNumaNodes k t = Some t'"
proof -
  obtain e where e: "CpuMap_init (num_cpus t) = Some e" "filed t k 0 (replicate k e)" by (rule filed_start [OF assms(1)])
  have "\<exists>ls. mfold (\<lambda>c ls. do { r \<leftarrow> cpu_rep t c; CHECK (0 \<le> numa_node r); CHECK (nat (numa_node r) < k);
      l \<leftarrow> cpu_set c (ls ! nat (numa_node r)); Some (ls[nat (numa_node r) := l]) }) [0..<num_cpus t] (replicate k e) = Some ls
      \<and> filed t k (num_cpus t) ls"
    by (rule mfold_upt_total [of "filed t k", OF e(2)])
      (simp add: file_cpu(1) [OF assms(1)] file_cpu(2) [OF assms(1)] assms(2))
  then show ?thesis unfolding CreateCpuListsForNumaNodes_def for_all_cpus [OF assms(1)] e(1) by auto
qed


subsection \<open>Filling in the CPUs\<close>

definition built :: "nat \<Rightarrow> nat \<Rightarrow> topology \<Rightarrow> bool" where
  "built n k t \<longleftrightarrow> num_cpus t = n \<and> length (cpus t) = k \<and> list_ok n (all_cpus t)
     \<and> set (cpu_ids (all_cpus t)) = {..<k} \<and> (\<forall>i < k. rep_ok n i (cpus t ! i))"

lemma built_topo_ok: assumes "built n n t" and "n \<le> MAX_CPUS" shows "topo_ok t"
proof -
  have "cpu_ids (all_cpus t) = [0..<n]" using assms(1) by (intro cpu_ids_eqI) (auto simp: built_def)
  then show ?thesis using assms by (simp add: topo_ok_def built_def)
qed

lemma built_step:
  assumes "built n k t" and "rep_ok n k rep" and "k < n"
  obtains all where "cpu_set k (all_cpus t) = Some all"
    "\<And>h. built n (Suc k) (t\<lparr>cpus := cpus t @ [rep], highest_node_idx := h, all_cpus := all\<rparr>)"
    "built n (Suc k) (t\<lparr>cpus := cpus t @ [rep], all_cpus := all\<rparr>)"
proof -
  obtain all where "cpu_set k (all_cpus t) = Some all" "list_ok n all"
    "set (cpu_ids all) = insert k (set (cpu_ids (all_cpus t)))"
    using cpu_set_ok [OF _ assms(3)] assms(1) unfolding built_def by metis
  then show thesis using assms(1, 2)
    by (intro that [of all]) (auto simp: built_def nth_append less_Suc_eq simp del: set_cpu_ids)
qed

definition raw_ok :: "nat \<Rightarrow> Raw \<Rightarrow> bool" where
  "raw_ok n r \<longleftrightarrow> (\<forall>s \<in> set (raw_siblings r). 0 \<le> s \<and> s < int n) \<and> (\<forall>s \<in> set (raw_l3_siblings r). 0 \<le> s \<and> s < int n)"

definition describes :: "Raw \<Rightarrow> CpuRep \<Rightarrow> bool" where
  "describes r rep \<longleftrightarrow> core rep = raw_core r \<and> smt_idx rep = raw_smt_idx r \<and> numa_node rep = raw_numa_node r
     \<and> set (cpu_ids (siblings rep)) = nat ` set (raw_siblings r)
     \<and> set (cpu_ids (l3_siblings rep)) = nat ` set (raw_l3_siblings r)
     \<and> (sorted_wrt (<) (raw_siblings r) \<longrightarrow> map int (cpu_ids (siblings rep)) = raw_siblings r)
     \<and> (sorted_wrt (<) (raw_l3_siblings r) \<longrightarrow> map int (cpu_ids (l3_siblings rep)) = raw_l3_siblings r)"

lemma to_cpu_list_sorted:
  assumes "n \<le> MAX_CPUS" and "\<forall>i \<in> set is. 0 \<le> i \<and> i < int n"
  obtains m where "ToCpuList n is = Some m" "list_ok n m" "set (cpu_ids m) = nat ` set is"
    "sorted_wrt (<) is \<longrightarrow> map int (cpu_ids m) = is"
proof -
  obtain m where m: "ToCpuList n is = Some m" "list_ok n m" "set (cpu_ids m) = nat ` set is"
    "\<And>js. is = map int js \<Longrightarrow> sorted_wrt (<) js \<Longrightarrow> cpu_ids m = js" by (rule to_cpu_list_ok [OF assms]) blast
  have "map int (map nat is) = is" using assms(2) by (induction "is") auto
  moreover have "sorted_wrt (<) (map nat is)" if "sorted_wrt (<) is"
    using that assms(2) by (induction "is") (auto simp: nat_less_eq_zless)
  ultimately have "sorted_wrt (<) is \<longrightarrow> map int (cpu_ids m) = is" using m(4) [of "map nat is"] by metis
  then show thesis using m(1-3) by (intro that [of m])
qed

lemma fill_rep_ok:
  assumes "n \<le> MAX_CPUS" and "raw_ok n r"
  obtains rep where "fill_rep n i r = Some rep" "rep_ok n i rep" "describes r rep"
proof -
  have range: "\<forall>s \<in> set (raw_siblings r). 0 \<le> s \<and> s < int n" "\<forall>s \<in> set (raw_l3_siblings r). 0 \<le> s \<and> s < int n"
    using assms(2) by (auto simp: raw_ok_def)
  obtain a where a: "ToCpuList n (raw_siblings r) = Some a" "list_ok n a" "set (cpu_ids a) = nat ` set (raw_siblings r)"
    "sorted_wrt (<) (raw_siblings r) \<longrightarrow> map int (cpu_ids a) = raw_siblings r"
    by (rule to_cpu_list_sorted [OF assms(1) range(1)])
  obtain b where b: "ToCpuList n (raw_l3_siblings r) = Some b" "list_ok n b"
    "set (cpu_ids b) = nat ` set (raw_l3_siblings r)"
    "sorted_wrt (<) (raw_l3_siblings r) \<longrightarrow> map int (cpu_ids b) = raw_l3_siblings r"
    by (rule to_cpu_list_sorted [OF assms(1) range(2)])
  show thesis
    by (rule that [of "\<lparr>rep_cpu = int i, core = raw_core r, smt_idx = raw_smt_idx r, siblings = a,
        l3_siblings = b, numa_node = raw_numa_node r\<rparr>"]) (simp_all add: fill_rep_def a(1) b(1) rep_ok_def describes_def a(2-4) b(2-4) del: set_cpu_ids)
qed

lemma fill_cpus_ok:
  assumes "n \<le> MAX_CPUS" and "\<forall>r \<in> set rs. raw_ok n r" and "k + length rs = n" and "built n k t"
  shows "\<exists>t'. fill_cpus n (enumerate k rs) t = Some t' \<and> built n n t' \<and> take k (cpus t') = cpus t
    \<and> (\<forall>i < length rs. describes (rs ! i) (cpus t' ! (k + i))) \<and> highest_node_idx t \<le> highest_node_idx t'
    \<and> (\<forall>i < length rs. numa_node (cpus t' ! (k + i)) \<le> highest_node_idx t')"
  using assms(2-)
proof (induction rs arbitrary: k t)
  case Nil
  then show ?case by (simp add: built_def)
next
  case (Cons r rs)
  obtain rep where rep: "fill_rep n k r = Some rep" "rep_ok n k rep" "describes r rep"
    using fill_rep_ok [OF assms(1)] Cons.prems(1) by (metis list.set_intros(1))
  have k: "k < n" "Suc k + length rs = n" using Cons.prems(2) by auto
  obtain all where all: "cpu_set k (all_cpus t) = Some all"
    "\<And>h. built n (Suc k) (t\<lparr>cpus := cpus t @ [rep], highest_node_idx := h, all_cpus := all\<rparr>)"
    by (rule built_step [OF Cons.prems(3) rep(2) k(1)]) blast
  let ?t = "t\<lparr>cpus := cpus t @ [rep], highest_node_idx := max (numa_node rep) (highest_node_idx t), all_cpus := all\<rparr>"
  obtain t' where t': "fill_cpus n (enumerate (Suc k) rs) ?t = Some t'" "built n n t'" "take (Suc k) (cpus t') = cpus ?t"
    "\<forall>i < length rs. describes (rs ! i) (cpus t' ! (Suc k + i))"
    and high: "max (numa_node rep) (highest_node_idx t) \<le> highest_node_idx t'"
      "\<forall>i < length rs. numa_node (cpus t' ! (Suc k + i)) \<le> highest_node_idx t'"
    using Cons.IH [OF _ k(2) all(2) [of "max (numa_node rep) (highest_node_idx t)"]] Cons.prems(1) by auto
  have pre: "take (Suc k) (cpus t') = cpus t @ [rep]" using t'(3) by simp
  have len: "length (cpus t') = n" "length (cpus t) = k" using t'(2) Cons.prems(3) by (auto simp: built_def)
  have hd: "cpus t' ! k = rep" using pre len by (metis nth_append_length nth_take lessI)
  have "describes ((r # rs) ! i) (cpus t' ! (k + i))" if "i < length (r # rs)" for i
    using that t'(4) rep(3) hd by (cases i) auto
  moreover have "numa_node (cpus t' ! (k + i)) \<le> highest_node_idx t'" if "i < length (r # rs)" for i
    using that high hd by (cases i) auto
  moreover have "take k (cpus t') = cpus t"
    using arg_cong [OF pre, of "take k"] len by (simp add: min_def)
  ultimately show ?case using rep(1) all(1) t'(1, 2) high(1) by (intro exI [of _ t']) simp
qed


lemma check_custom:
  "CheckCustomTopology raws = Some () \<longleftrightarrow> raws \<noteq> [] \<and> (\<forall>i < length raws. raw_cpu (raws ! i) = int i)
     \<and> (\<forall>r \<in> set raws. raw_ok (length raws) r)"
proof -
  let ?n = "length raws"
  have enum: "(\<forall>x \<in> set (enumerate 0 raws). P (fst x) (snd x)) \<longleftrightarrow> (\<forall>i < ?n. P i (raws ! i))" for P
    by (auto simp: in_set_enumerate_eq dest: bspec [of _ _ "(_, _)"])
  have "CheckCustomTopology raws = Some () \<longleftrightarrow> raws \<noteq> [] \<and>
      (\<forall>x \<in> set (enumerate 0 raws). raw_cpu (snd x) = int (fst x) \<and> raw_ok ?n (snd x))"
    by (simp add: CheckCustomTopology_def bind_unit_Some mfold_unit case_prod_beta list_all_iff raw_ok_def)
  also have "\<dots> \<longleftrightarrow> raws \<noteq> [] \<and> (\<forall>i < ?n. raw_cpu (raws ! i) = int i \<and> raw_ok ?n (raws ! i))"
    using enum [of "\<lambda>i r. raw_cpu r = int i \<and> raw_ok ?n r"] by simp
  finally show ?thesis by (metis in_set_conv_nth)
qed

lemma topo_ok_nodes [simp]: "topo_ok (t\<lparr>cpus_on_node := ls\<rparr>) = topo_ok t" "siblings_ok (t\<lparr>cpus_on_node := ls\<rparr>) = siblings_ok t"
  "topo_ok (t\<lparr>consecutive_smt_numbering := c\<rparr>) = topo_ok t" "siblings_ok (t\<lparr>consecutive_smt_numbering := c\<rparr>) = siblings_ok t"
  "nodes_ok (t\<lparr>consecutive_smt_numbering := c\<rparr>) = nodes_ok t"
  by (simp_all add: topo_ok_def siblings_ok_def nodes_ok_def)

lemma built_start:
  assumes "n \<le> MAX_CPUS" and "CpuMap_init n = Some e"
  shows "built n 0 \<lparr>num_cpus = n, all_cpus = e, cpus = [], highest_node_idx = h, consecutive_smt_numbering = c,
    cpus_on_node = ls\<rparr>"
proof -
  have "list_ok n e" "cpu_ids e = []" using init_ok [OF assms(1)] assms(2) by auto
  then show ?thesis by (simp add: built_def del: set_cpu_ids)
qed

lemma custom_topology:
  assumes "Topology_Custom raws = Some t"
  shows "topo_ok t" "siblings_ok t" "nodes_ok t" "num_cpus t = length raws"
    "\<And>i. i < length raws \<Longrightarrow> describes (sort_raws raws ! i) (cpus t ! i) \<and> raw_cpu (sort_raws raws ! i) = int i"
proof -
  let ?n = "length raws" and ?rs = "sort_raws raws"
  let ?t0 = "\<lambda>e. \<lparr>num_cpus = ?n, all_cpus = e, cpus = [], highest_node_idx = -1,
       consecutive_smt_numbering = False, cpus_on_node = []\<rparr>"
  obtain e t1 t2 c where n: "?n \<le> MAX_CPUS" and check: "CheckCustomTopology ?rs = Some ()"
    and e: "CpuMap_init ?n = Some e" and t1: "fill_cpus ?n (enumerate 0 ?rs) (?t0 e) = Some t1"
    and sib: "CheckSiblings t1 = Some ()"
    and t2: "CreateCpuListsForNumaNodes (nat (highest_node_idx t1 + 1)) t1 = Some t2"
    and t: "t = t2\<lparr>consecutive_smt_numbering := c\<rparr>"
    using assms by (auto simp: Topology_Custom_def Let_def bind_unit_Some bind_eq_Some_conv)
  have len: "length ?rs = ?n" by (simp add: sort_raws_def)
  have raws: "\<forall>r \<in> set ?rs. raw_ok ?n r" "\<forall>i < ?n. raw_cpu (?rs ! i) = int i" using check unfolding check_custom len by auto
  have fill: "built ?n ?n t1" "\<forall>i < ?n. describes (?rs ! i) (cpus t1 ! i)"
    using fill_cpus_ok [OF n raws(1) _ built_start [OF n e], of "-1" False "[]"] t1 len by auto
  have ok: "topo_ok t1" by (rule built_topo_ok [OF fill(1) n])
  obtain ls where ls: "t2 = t1\<lparr>cpus_on_node := ls\<rparr>" "nodes_ok t2" by (rule create_lists [OF ok t2])
  have "siblings_ok t1" using sib check_siblings [OF ok] by simp
  then show "topo_ok t" "siblings_ok t" "nodes_ok t" using ok ls t by simp_all
  show "num_cpus t = ?n" using fill(1) ls(1) t by (simp add: built_def)
  show "describes (?rs ! i) (cpus t ! i) \<and> raw_cpu (?rs ! i) = int i" if "i < ?n" for i
    using that fill(2) raws(2) ls(1) t by simp
qed

definition raw_of :: "CpuRep \<Rightarrow> Raw" where
  "raw_of r = \<lparr>raw_cpu = rep_cpu r, raw_core = core r, raw_smt_idx = smt_idx r,
     raw_siblings = map int (cpu_ids (siblings r)), raw_l3_siblings = map int (cpu_ids (l3_siblings r)),
     raw_numa_node = numa_node r\<rparr>"

lemma export_reps: assumes "topo_ok t" shows "Export t = Some (map raw_of (cpus t))"
proof -
  have len: "length (cpus t) = num_cpus t" using assms by (simp add: topo_ok_def)
  have "Export t = Some ([] @ map (\<lambda>i. raw_of (cpus t ! i)) [0..<num_cpus t])"
    unfolding Export_def for_all_cpus [OF assms]
  proof (rule mfold_collect)
    fix i acc assume "i \<in> set [0..<num_cpus t]"
    then have r: "cpu_rep t i = Some (cpus t ! i)" "rep_ok (num_cpus t) i (cpus t ! i)"
      using cpu_rep_ok [OF assms] by auto
    then show "(do { r \<leftarrow> cpu_rep t i; sib \<leftarrow> ToIntVector (siblings r); l3 \<leftarrow> ToIntVector (l3_siblings r);
       Some (acc @ [\<lparr>raw_cpu = rep_cpu r, raw_core = core r, raw_smt_idx = smt_idx r, raw_siblings = map int sib,
         raw_l3_siblings = map int l3, raw_numa_node = numa_node r\<rparr>]) }) = Some (acc @ [raw_of (cpus t ! i)])"
      by (simp add: raw_of_def rep_ok_def list_ok_def to_int_vector)
  qed
  moreover have "map (\<lambda>i. raw_of (cpus t ! i)) [0..<num_cpus t] = map raw_of (cpus t)"
    using len by (intro nth_equalityI) auto
  ultimately show ?thesis by simp
qed

lemma custom_export:
  assumes "Topology_Custom raws = Some t"
    and "\<forall>r \<in> set raws. sorted_wrt (<) (raw_siblings r) \<and> sorted_wrt (<) (raw_l3_siblings r)"
  shows "Export t = Some (sort_raws raws)"
proof -
  note c = custom_topology [OF assms(1)]
  have len: "length (sort_raws raws) = length raws" "length (cpus t) = length raws"
    using c(1, 4) by (auto simp: sort_raws_def topo_ok_def)
  have "raw_of (cpus t ! i) = sort_raws raws ! i" if "i < length raws" for i
  proof -
    have "sort_raws raws ! i \<in> set raws" using that nth_mem [of i "sort_raws raws"] by (simp add: sort_raws_def)
    moreover have "rep_cpu (cpus t ! i) = int i" using that c(1, 4) by (simp add: topo_ok_def rep_ok_def)
    ultimately show ?thesis using c(5) [OF that] assms(2) by (simp add: raw_of_def describes_def)
  qed
  then have "map raw_of (cpus t) = sort_raws raws" using len by (intro nth_equalityI) auto
  then show ?thesis using export_reps [OF c(1)] by simp
qed


section \<open>The topology of the machine\<close>

subsection \<open>Grouping the CPUs by their sibling lines\<close>

text \<open>The CPUs below \<open>k\<close> whose line is \<open>l\<close>.\<close>

definition line_group :: "string list \<Rightarrow> nat \<Rightarrow> string \<Rightarrow> nat list" where
  "line_group lines k l = filter (\<lambda>j. lines ! j = l) [0..<k]"

lemma group_Suc: "line_group lines (Suc k) l = line_group lines k l @ (if lines ! k = l then [k] else [])"
  by (simp add: line_group_def)

definition grouped :: "string list \<Rightarrow> nat \<Rightarrow> (string \<times> int list) list \<Rightarrow> bool" where
  "grouped lines k m \<longleftrightarrow> distinct (map fst m) \<and> fst ` set m = {lines ! j |j. j < k}
     \<and> (\<forall>(l, cs) \<in> set m. cs = map int (line_group lines k l))
     \<and> distinct (concat (map snd m)) \<and> set (concat (map snd m)) = int ` {..<k}"

lemma push_back_set:
  "distinct (map fst m) \<Longrightarrow> set (push_back_at l c m) =
     {(l', cs). l' \<noteq> l \<and> (l', cs) \<in> set m} \<union> {(l, (case map_of m l of None \<Rightarrow> [] | Some cs \<Rightarrow> cs) @ [c])}"
proof (induction l c m rule: push_back_at.induct)
  case (2 k c k' cs m)
  then show ?case by (cases "k = k'") (force split: option.splits dest: map_of_SomeD)+
qed auto

lemma push_back_keys: "map fst (push_back_at l c m) = (if l \<in> fst ` set m then map fst m else map fst m @ [l])"
  by (induction l c m rule: push_back_at.induct) auto

lemma push_back_concat_set: "set (concat (map snd (push_back_at l c m))) = insert c (set (concat (map snd m)))"
  by (induction l c m rule: push_back_at.induct) auto

lemma push_back_concat_distinct:
  "c \<notin> set (concat (map snd m)) \<Longrightarrow> distinct (concat (map snd m)) \<Longrightarrow> distinct (concat (map snd (push_back_at l c m)))"
proof (induction l c m rule: push_back_at.induct)
  case (2 k c k' cs m)
  show ?case
  proof (cases "k = k'")
    case False
    have "distinct (concat (map snd (push_back_at k c m)))" using 2 False by (simp del: set_concat)
    then show ?thesis using "2.prems" False by (simp add: push_back_concat_set del: set_concat)
  qed (use "2.prems" in \<open>simp del: set_concat\<close>)
qed simp

lemma grouped_step:
  assumes "grouped lines k m" shows "grouped lines (Suc k) (push_back_at (lines ! k) (int k) m)"
proof -
  have d: "distinct (map fst m)" and keys: "fst ` set m = {lines ! j |j. j < k}"
    and val: "\<forall>(l, cs) \<in> set m. cs = map int (line_group lines k l)"
    and cc: "distinct (concat (map snd m))" "set (concat (map snd m)) = int ` {..<k}"
    using assms by (auto simp: grouped_def)
  let ?m = "push_back_at (lines ! k) (int k) m"
  have keys': "distinct (map fst ?m)" "fst ` set ?m = {lines ! j |j. j < Suc k}"
  proof -
    show "distinct (map fst ?m)" using d by (simp add: push_back_keys)
    have "fst ` set ?m = insert (lines ! k) (fst ` set m)"
      using arg_cong [OF push_back_keys [of "lines ! k" "int k" m], of set] by auto
    then show "fst ` set ?m = {lines ! j |j. j < Suc k}" unfolding keys by (auto simp: less_Suc_eq)
  qed
  have "(case map_of m (lines ! k) of None \<Rightarrow> [] | Some cs \<Rightarrow> cs) = map int (line_group lines k (lines ! k))"
  proof (cases "map_of m (lines ! k)")
    case None
    then have "lines ! k \<notin> {lines ! j |j. j < k}" unfolding keys [symmetric] by (simp add: map_of_eq_None_iff)
    then have "line_group lines k (lines ! k) = []" by (auto simp: line_group_def filter_empty_conv)
    then show ?thesis using None by simp
  next
    case (Some cs)
    then show ?thesis using val by (auto dest: map_of_SomeD)
  qed
  then have "\<forall>(l, cs) \<in> set ?m. cs = map int (line_group lines (Suc k) l)"
    unfolding push_back_set [OF d] using val by (auto simp: group_Suc)
  moreover have "distinct (concat (map snd ?m))"
    by (rule push_back_concat_distinct [OF _ cc(1)]) (auto simp: cc(2) simp del: set_concat)
  moreover have "set (concat (map snd ?m)) = int ` {..<Suc k}"
    unfolding push_back_concat_set cc(2) by (auto simp: less_Suc_eq)
  ultimately show ?thesis using keys' by (simp add: grouped_def)
qed

lemma sibling_map:
  assumes "\<forall>l \<in> set lines. l \<noteq> []"
  obtains m where "sibling_map_loop 0 lines [] = Some m" "grouped lines (length lines) m"
proof -
  have "\<exists>m'. sibling_map_loop k (drop k lines) m = Some m' \<and> grouped lines (length lines) m'"
    if "grouped lines k m" "k \<le> length lines" for k m
    using that
  proof (induction "length lines - k" arbitrary: k m)
    case (Suc d)
    then have k: "k < length lines" by simp
    then have "lines ! k \<noteq> []" using assms by simp
    then show ?case using Suc.hyps(1) [of "Suc k"] Suc.hyps(2) grouped_step [OF Suc.prems(1)] k
      by (simp add: Cons_nth_drop_Suc [symmetric])
  qed simp
  from this [of 0 "[]"] show thesis using that by (auto simp: grouped_def)
qed

lemma insert_group:
  assumes "ToCpuList n cs' = Some l" and "distinct cs" and "set cs \<inter> fst ` set r = {}"
  shows "mfold (\<lambda>c m. do { l \<leftarrow> ToCpuList n cs'; insert_new c l m }) cs r = Some (rev (map (\<lambda>c. (c, l)) cs) @ r)"
  using assms(2, 3)
proof (induction cs arbitrary: r)
  case (Cons c cs)
  then have "map_of r c = None" by (simp add: map_of_eq_None_iff)
  then show ?case using Cons.IH [of "(c, l) # r"] Cons.prems by (simp add: assms(1) insert_new_def)
qed simp

lemma insert_groups:
  assumes "\<forall>cs \<in> set (map snd m). \<exists>l. ToCpuList n cs = Some l" and "distinct (concat (map snd m))"
    and "set (concat (map snd m)) \<inter> fst ` set r = {}"
  shows "\<exists>r'. mfold (\<lambda>(_, cpus). mfold (\<lambda>c m. do { l \<leftarrow> ToCpuList n cpus; insert_new c l m }) cpus) m r = Some r'
    \<and> length r' = length r + length (concat (map snd m))
    \<and> (\<forall>cs \<in> set (map snd m). \<forall>c \<in> set cs. map_of r' c = ToCpuList n cs)
    \<and> (\<forall>c. c \<notin> set (concat (map snd m)) \<longrightarrow> map_of r' c = map_of r c)"
  using assms
proof (induction m arbitrary: r)
  case (Cons x m)
  obtain l0 cs where x: "x = (l0, cs)" by force
  obtain l where l: "ToCpuList n cs = Some l" using Cons.prems(1) x by auto
  let ?r = "rev (map (\<lambda>c. (c, l)) cs) @ r"
  have step: "mfold (\<lambda>c m. do { l \<leftarrow> ToCpuList n cs; insert_new c l m }) cs r = Some ?r"
    using insert_group [OF l] Cons.prems(2, 3) x by auto
  have look: "map_of ?r c = (if c \<in> set cs then Some l else map_of r c)" for c
  proof -
    have "map_of (rev (map (\<lambda>c. (c, l)) cs)) c = (if c \<in> set cs then Some l else None)"
      by (induction cs) (auto simp: map_add_def split: option.splits)
    then show ?thesis by (simp add: map_add_def)
  qed
  have "\<exists>r'. mfold (\<lambda>(_, cpus). mfold (\<lambda>c m. do { l \<leftarrow> ToCpuList n cpus; insert_new c l m }) cpus) m ?r = Some r'
    \<and> length r' = length ?r + length (concat (map snd m))
    \<and> (\<forall>cs \<in> set (map snd m). \<forall>c \<in> set cs. map_of r' c = ToCpuList n cs)
    \<and> (\<forall>c. c \<notin> set (concat (map snd m)) \<longrightarrow> map_of r' c = map_of ?r c)"
  proof (rule Cons.IH)
    show "set (concat (map snd m)) \<inter> fst ` set ?r = {}"
    proof -
      have "fst ` set ?r = set cs \<union> fst ` set r" by force
      moreover have "set cs \<inter> set (concat (map snd m)) = {}" "set (concat (map snd m)) \<inter> fst ` set r = {}"
        using Cons.prems(2, 3) x by (simp_all del: set_concat) blast
      ultimately show ?thesis by blast
    qed
  qed (use Cons.prems x in \<open>simp_all del: set_concat\<close>)
  then obtain r' where r': "mfold (\<lambda>(_, cpus). mfold (\<lambda>c m. do { l \<leftarrow> ToCpuList n cpus; insert_new c l m }) cpus) m ?r = Some r'"
    "length r' = length ?r + length (concat (map snd m))"
    "\<forall>cs \<in> set (map snd m). \<forall>c \<in> set cs. map_of r' c = ToCpuList n cs"
    "\<forall>c. c \<notin> set (concat (map snd m)) \<longrightarrow> map_of r' c = map_of ?r c" by blast
  have "c \<notin> set (concat (map snd m))" if "c \<in> set cs" for c using that Cons.prems(2) x by auto
  then have "map_of r' c = ToCpuList n cs" if "c \<in> set cs" for c using that r'(4) look l by simp
  moreover have "map_of r' c = map_of r c" if "c \<notin> set (concat (map snd (x # m)))" for c
    using that r'(4) look x by auto
  ultimately show ?case using r'(1-3) step x by (intro exI [of _ r']) auto
qed simp


lemma all_siblings:
  assumes "n \<le> MAX_CPUS" and "length lines = n" and "\<forall>l \<in> set lines. l \<noteq> []"
  obtains r where "GetAllSiblings n lines = Some r" "length r = n"
    "\<And>i. i < n \<Longrightarrow> \<exists>l. map_of r (int i) = Some l \<and> list_ok n l \<and> cpu_ids l = line_group lines n (lines ! i)"
proof -
  obtain m where m: "sibling_map_loop 0 lines [] = Some m" "grouped lines n m"
    using sibling_map [OF assms(3)] assms(2) by metis
  have cc: "distinct (concat (map snd m))" "set (concat (map snd m)) = int ` {..<n}"
    and val: "\<And>l cs. (l, cs) \<in> set m \<Longrightarrow> cs = map int (line_group lines n l)" using m(2) by (auto simp: grouped_def)
  have list: "\<exists>l. ToCpuList n (map int (line_group lines n k)) = Some l \<and> list_ok n l \<and> cpu_ids l = line_group lines n k" for k
  proof -
    have "\<forall>i \<in> set (map int (line_group lines n k)). 0 \<le> i \<and> i < int n" by (auto simp: line_group_def)
    moreover have "sorted_wrt (<) (line_group lines n k)" by (simp add: line_group_def sorted_wrt_filter)
    ultimately show ?thesis using to_cpu_list_ok [OF assms(1)] by metis
  qed
  have "\<forall>cs \<in> set (map snd m). \<exists>l. ToCpuList n cs = Some l" using val list by fastforce
  then obtain r where r: "mfold (\<lambda>(_, cpus). mfold (\<lambda>c m. do { l \<leftarrow> ToCpuList n cpus; insert_new c l m }) cpus) m [] = Some r"
    "length r = length (concat (map snd m))" "\<And>cs c. cs \<in> set (map snd m) \<Longrightarrow> c \<in> set cs \<Longrightarrow> map_of r c = ToCpuList n cs"
    using insert_groups [of m n "[]"] cc(1) by auto
  have "length (concat (map snd m)) = n"
    using distinct_card [OF cc(1)] by (simp add: cc(2) card_image del: set_concat)
  moreover have "\<exists>l. map_of r (int i) = Some l \<and> list_ok n l \<and> cpu_ids l = line_group lines n (lines ! i)" if i: "i < n" for i
  proof -
    have "int i \<in> set (concat (map snd m))" using i cc(2) by simp
    then obtain l cs where lcs: "(l, cs) \<in> set m" "int i \<in> set cs" by auto
    then have "lines ! i = l" "cs = map int (line_group lines n l)" using val [OF lcs(1)] by (auto simp: line_group_def)
    moreover have "map_of r (int i) = ToCpuList n cs" using r(3) lcs by force
    ultimately show ?thesis using list by simp
  qed
  ultimately show thesis using m(1) r(1, 2) by (intro that [of r]) (simp_all add: GetAllSiblings_def)
qed

lemma no_siblings: "lines = [] # ls \<Longrightarrow> GetAllSiblings n lines = Some []"
  by (simp add: GetAllSiblings_def)

lemma smt_index:
  assumes "list_ok n sib" and "i < n" and "has_cpu sib i" and "k \<le> i"
  shows "smt_loop sib i [k..<MAX_CPUS] idx = Some (idx + int (length (filter (has_cpu sib) [k..<Suc i])))"
  using assms(4)
proof (induction "i - k" arbitrary: k idx)
  case (Suc d)
  have n: "n \<le> MAX_CPUS" using assms(1) by (auto simp: list_ok_def map_ok_def)
  have k: "k < i" "k < MAX_CPUS" using Suc.hyps(2) assms(2) n by auto
  have "IsSet sib k = Some (has_cpu sib k)" using list_ok_is_set [OF assms(1), of k] k assms(2) by simp
  then show ?case using Suc.hyps(1) [of "Suc k"] Suc.hyps(2) k by (simp add: upt_conv_Cons)
next
  case 0
  have "n \<le> MAX_CPUS" using assms(1) by (auto simp: list_ok_def map_ok_def)
  moreover have "k = i" using 0 by simp
  moreover have "IsSet sib i = Some True" using list_ok_is_set [OF assms(1, 2)] assms(3) by simp
  ultimately show ?case using assms(2, 3) by (simp add: upt_conv_Cons)
qed

text \<open>What the host constructor makes of CPU \<open>i\<close>.\<close>

definition host_cpu :: "nat \<Rightarrow> string list \<Rightarrow> string list \<Rightarrow> (nat \<Rightarrow> int) \<Rightarrow> nat \<Rightarrow> CpuRep \<Rightarrow> bool" where
  "host_cpu n lines l3 numa i r \<longleftrightarrow> rep_ok n i r \<and> cpu_ids (siblings r) = line_group lines n (lines ! i)
     \<and> cpu_ids (l3_siblings r) = (if hd l3 = [] then [] else line_group l3 n (l3 ! i))
     \<and> core r = int (hd (line_group lines n (lines ! i))) \<and> numa_node r = numa i
     \<and> smt_idx r = int (length (line_group lines i (lines ! i)))"

lemma group_has: "i < n \<Longrightarrow> i \<in> set (line_group lines n (lines ! i))"
  by (simp add: line_group_def)

lemma host_rep_ok:
  assumes "n \<le> MAX_CPUS" and "i < n" and "0 \<le> numa i"
    and sib: "map_of sibs (int i) = Some sib" "list_ok n sib" "cpu_ids sib = line_group lines n (lines ! i)"
    and l3: "if hd l3 = [] then l3s = [] else l3s \<noteq> [] \<and> (\<exists>l. map_of l3s (int i) = Some l \<and> list_ok n l \<and> cpu_ids l = line_group l3 n (l3 ! i))"
  shows "\<exists>r. host_rep n sibs l3s numa i = Some r \<and> host_cpu n lines l3 numa i r"
proof -
  obtain e where e: "CpuMap_init n = Some e" "list_ok n e" "cpu_ids e = []" by (rule init_ok [OF assms(1)])
  obtain l where l: "(if l3s = [] then Some e else map_of l3s (int i)) = Some l" "list_ok n l"
    "cpu_ids l = (if hd l3 = [] then [] else line_group l3 n (l3 ! i))"
    using l3 e by (cases "hd l3 = []") auto
  have g: "line_group lines n (lines ! i) \<noteq> []" using group_has [OF assms(2)] by (metis empty_iff empty_set)
  have it: "iter_begin sib = Some (iter_at sib (line_group lines n (lines ! i)))"
    using iter_ends(1) [of sib] sib(2, 3) by (simp add: list_ok_def)
  then have it_cpu: "it_cpu (iter_at sib (line_group lines n (lines ! i))) = Some (hd (line_group lines n (lines ! i)))"
    using g by (cases "line_group lines n (lines ! i)") (simp_all add: iter_at_def)
  have has: "has_cpu sib j \<longleftrightarrow> j < n \<and> lines ! j = lines ! i" for j
  proof -
    have "j \<in> set (cpu_ids sib) \<longleftrightarrow> j \<in> set (line_group lines n (lines ! i))" by (simp only: sib(3))
    then show ?thesis by (simp add: line_group_def)
  qed
  have "filter (has_cpu sib) [0..<i] = line_group lines i (lines ! i)"
    unfolding line_group_def by (rule filter_cong) (use has assms(2) in auto)
  then have "filter (has_cpu sib) [0..<Suc i] = line_group lines i (lines ! i) @ [i]"
    using has assms(2) by simp
  then have "smt_loop sib i [0..<MAX_CPUS] (-1) = Some (int (length (line_group lines i (lines ! i))))"
    using smt_index [OF sib(2) assms(2), of 0 "-1"] has assms(2) by simp
  then show ?thesis using e(1) l it it_cpu assms(3) sib
    by (simp add: host_rep_def host_cpu_def rep_ok_def)
qed

lemma host_cpus_ok:
  assumes "n \<le> MAX_CPUS" and "\<And>i. i < n \<Longrightarrow> \<exists>r. rep_of i = Some r \<and> rep_ok n i r" and "built n k t" and "k \<le> n"
  shows "\<exists>t'. host_cpus rep_of [k..<n] t = Some t' \<and> built n n t' \<and> take k (cpus t') = cpus t
    \<and> (\<forall>i. k \<le> i \<longrightarrow> i < n \<longrightarrow> rep_of i = Some (cpus t' ! i))"
  using assms(3, 4)
proof (induction "n - k" arbitrary: k t)
  case 0
  then show ?case by (simp add: built_def)
next
  case (Suc d)
  then have k: "k < n" by simp
  obtain rep where rep: "rep_of k = Some rep" "rep_ok n k rep" using assms(2) [OF k] by blast
  obtain all where all: "cpu_set k (all_cpus t) = Some all"
    "built n (Suc k) (t\<lparr>cpus := cpus t @ [rep], all_cpus := all\<rparr>)"
    by (rule built_step [OF Suc.prems(1) rep(2) k]) blast
  let ?t = "t\<lparr>cpus := cpus t @ [rep], all_cpus := all\<rparr>"
  have "d = n - Suc k" "Suc k \<le> n" using Suc.hyps(2) k by auto
  then obtain t' where t': "host_cpus rep_of [Suc k..<n] ?t = Some t'" "built n n t'" "take (Suc k) (cpus t') = cpus t @ [rep]"
    "\<forall>i. Suc k \<le> i \<longrightarrow> i < n \<longrightarrow> rep_of i = Some (cpus t' ! i)"
    using Suc.hyps(1) [of "Suc k" ?t] all(2) by auto
  have len: "length (cpus t') = n" "length (cpus t) = k" using t'(2) Suc.prems(1) by (auto simp: built_def)
  have "rep_of k = Some (cpus t' ! k)" using t'(3) len rep(1) by (metis nth_append_length nth_take lessI)
  then have "rep_of i = Some (cpus t' ! i)" if "k \<le> i" "i < n" for i
    using that t'(4) by (cases "i = k") auto
  moreover have "take k (cpus t') = cpus t" using arg_cong [OF t'(3), of "take k"] len by (simp add: min_def)
  ultimately show ?case using rep(1) all(1) t'(1, 2) k by (intro exI [of _ t']) (simp add: upt_conv_Cons)
qed


subsection \<open>The numbering of the hardware threads\<close>

lemma set_core:
  assumes "n \<le> MAX_CPUS" and "0 \<le> c" and "c < int n" and "list_ok n m"
  obtains m' where "cpu_set (unat (of_int c :: u32)) m = Some m'" "list_ok n m'" "set (cpu_ids m') = insert (nat c) (set (cpu_ids m))"
proof -
  have "c < 512" using assms(1, 3) by (simp add: MAX_CPUS_def)
  also have "(512 :: int) < 2 ^ 32" by simp
  finally have "unat (of_int c :: u32) = nat c"
    using assms(2) by (simp only: unat_eq_nat_uint uint_word_of_int_eq) (simp add: take_bit_int_eq_self)
  moreover have "nat c < n" using assms(2, 3) by linarith
  ultimately show thesis using cpu_set_ok [OF assms(4), of "nat c"] that by metis
qed

lemma cores_of_all:
  assumes "topo_ok t" and "\<And>i. i < num_cpus t \<Longrightarrow> 0 \<le> core (cpus t ! i) \<and> core (cpus t ! i) < int (num_cpus t)"
  obtains m where "Cores t (all_cpus t) = Some m" "list_ok (num_cpus t) m"
    "set (cpu_ids m) = (\<lambda>i. nat (core (cpus t ! i))) ` {..<num_cpus t}"
proof -
  let ?n = "num_cpus t"
  let ?f = "\<lambda>c (result, cores). do { r \<leftarrow> cpu_rep t c; if core r \<in> set cores then Some (result, cores)
     else do { result \<leftarrow> cpu_set (unat (of_int (core r) :: u32)) result; Some (result, core r # cores) } }"
  let ?P = "\<lambda>i (result, cores). list_ok ?n result \<and> set cores = (\<lambda>i. core (cpus t ! i)) ` {..<i}
     \<and> set (cpu_ids result) = (\<lambda>i. nat (core (cpus t ! i))) ` {..<i}"
  have n: "?n \<le> MAX_CPUS" using assms(1) by (simp add: topo_ok_def)
  obtain e where e: "CpuMap_init ?n = Some e" "list_ok ?n e" "cpu_ids e = []" by (rule init_ok [OF n])
  have "\<exists>s'. mfold ?f [0..<?n] (e, []) = Some s' \<and> ?P ?n s'"
  proof (rule mfold_upt_total [of ?P])
    show "?P 0 (e, [])" using e(2, 3) by (simp del: set_cpu_ids)
    fix i s assume i: "i < ?n" and "?P i s"
    then obtain result cores where s: "s = (result, cores)" "list_ok ?n result"
      "set cores = (\<lambda>i. core (cpus t ! i)) ` {..<i}" "set (cpu_ids result) = (\<lambda>i. nat (core (cpus t ! i))) ` {..<i}"
      by (cases s) auto
    have r: "cpu_rep t i = Some (cpus t ! i)" using cpu_rep_ok [OF assms(1) i] by simp
    show "\<exists>s'. ?f i s = Some s' \<and> ?P (Suc i) s'"
    proof (cases "core (cpus t ! i) \<in> set cores")
      case True
      then have "nat (core (cpus t ! i)) \<in> set (cpu_ids result)" unfolding s(3, 4) by auto
      then show ?thesis using True s r by (simp add: lessThan_Suc insert_absorb del: set_cpu_ids)
    next
      case False
      obtain m' where "cpu_set (unat (of_int (core (cpus t ! i)) :: u32)) result = Some m'" "list_ok ?n m'"
        "set (cpu_ids m') = insert (nat (core (cpus t ! i))) (set (cpu_ids result))"
        using set_core [OF n _ _ s(2)] assms(2) [OF i] by metis
      then show ?thesis using False s r by (simp add: lessThan_Suc del: set_cpu_ids)
    qed
  qed
  then obtain result cores where "mfold ?f [0..<?n] (e, []) = Some (result, cores)" "?P ?n (result, cores)" by auto
  then show thesis using e(1) by (intro that [of result]) (simp_all add: Cores_def for_all_cpus [OF assms(1)])
qed

text \<open>
  What \<open>CheckConsecutiveSmtNumbering\<close> accepts: one thread per core, neighbouring siblings, or
  siblings that are as far apart as there are cores.
\<close>

definition smt_layout :: "nat \<Rightarrow> string list \<Rightarrow> bool" where
  "smt_layout n lines \<longleftrightarrow> line_group lines n (lines ! 0) \<in> {[0], [0, 1], [0, card (set lines)]}"

lemma card_cores:
  assumes "length lines = n"
  shows "card ((\<lambda>i. hd (line_group lines n (lines ! i))) ` {..<n}) = card (set lines)"
proof -
  have "(\<lambda>i. hd (line_group lines n (lines ! i))) ` {..<n} = (\<lambda>l. hd (line_group lines n l)) ` set lines"
  proof -
    have "set lines = (!) lines ` {..<n}" using assms by (auto simp: set_conv_nth)
    then show ?thesis by (simp add: image_image)
  qed
  moreover have "inj_on (\<lambda>l. hd (line_group lines n l)) (set lines)"
  proof (rule inj_onI)
    have "lines ! hd (line_group lines n l) = l" if "l \<in> set lines" for l
    proof -
      obtain i where "i < n" "lines ! i = l" using \<open>l \<in> set lines\<close> assms by (auto simp: in_set_conv_nth)
      then have "line_group lines n l \<noteq> []" using group_has [of i n lines] by (metis empty_iff empty_set)
      then have "hd (line_group lines n l) \<in> set (line_group lines n l)" by simp
      then show ?thesis unfolding line_group_def by (metis (mono_tags, lifting) mem_Collect_eq set_filter)
    qed
    then show "l = l'" if "l \<in> set lines" "l' \<in> set lines" "hd (line_group lines n l) = hd (line_group lines n l')" for l l'
      using that by metis
  qed
  ultimately show ?thesis by (simp add: card_image)
qed

lemma consecutive_check:
  assumes "topo_ok t" and "num_cpus t = n" and "0 < n" and "length lines = n"
    and "\<And>i. i < n \<Longrightarrow> host_cpu n lines l3 numa i (cpus t ! i)"
  shows "CheckConsecutiveSmtNumbering t =
    (if smt_layout n lines then Some (line_group lines n (lines ! 0) = [0, 1]) else None)"
proof -
  let ?s = "siblings (cpus t ! 0)"
  have r: "cpu_rep t 0 = Some (cpus t ! 0)" using cpu_rep_ok [OF assms(1)] assms(2, 3) by simp
  have s: "map_ok ?s" "in_topology ?s" "cpu_ids ?s = line_group lines n (lines ! 0)"
    using assms(5) [OF assms(3)] by (auto simp: host_cpu_def rep_ok_def list_ok_def)
  have core: "core (cpus t ! i) = int (hd (line_group lines n (lines ! i)))" "hd (line_group lines n (lines ! i)) < n" if "i < n" for i
  proof -
    show "core (cpus t ! i) = int (hd (line_group lines n (lines ! i)))" using assms(5) [OF that] by (simp add: host_cpu_def)
    have "line_group lines n (lines ! i) \<noteq> []" using group_has [OF that] by (metis empty_iff empty_set)
    then have "hd (line_group lines n (lines ! i)) \<in> set (line_group lines n (lines ! i))" by simp
    then show "hd (line_group lines n (lines ! i)) < n" unfolding line_group_def by simp
  qed
  have "0 \<le> core (cpus t ! i) \<and> core (cpus t ! i) < int (num_cpus t)" if "i < num_cpus t" for i
    using core [of i] that assms(2) by simp
  from cores_of_all [OF assms(1) this] obtain m where m: "Cores t (all_cpus t) = Some m" "list_ok n m"
    "set (cpu_ids m) = (\<lambda>i. nat (core (cpus t ! i))) ` {..<n}" unfolding assms(2) by blast
  have "(\<lambda>i. nat (core (cpus t ! i))) ` {..<n} = (\<lambda>i. hd (line_group lines n (lines ! i))) ` {..<n}"
    by (rule image_cong) (use core(1) in auto)
  then have "length (cpu_ids m) = card (set lines)"
    using m(3) card_cores [OF assms(4)] distinct_card [OF distinct_cpu_ids, of m] by (simp del: set_cpu_ids)
  then have "CountSetCpus m = card (set lines)" using m(2) by (simp add: list_ok_def size_cpu_ids)
  moreover obtain g where g: "line_group lines n (lines ! 0) = 0 # g" using assms(3) by (simp add: line_group_def upt_conv_Cons)
  ultimately have c: "CountSetCpus m = card (set lines)" "line_group lines n (lines ! 0) = 0 # g" by simp_all
  have sz: "CountSetCpus ?s = length (0 # g)" using size_cpu_ids [OF s(1)] s(3) c(2) by simp
  note d = CheckConsecutiveSmtNumbering_def r smt_layout_def Let_def sz c m(1) nth_cpu_ids [OF s(1, 2)] s(3)
  show ?thesis
  proof (cases g)
    case (Cons k g')
    then show ?thesis by (cases g') (simp_all add: d)
  qed (simp add: d)
qed

lemma host_siblings_ok:
  assumes "num_cpus t = n" and "\<And>i. i < n \<Longrightarrow> host_cpu n lines l3 numa i (cpus t ! i)"
  shows "siblings_ok t"
proof -
  have g: "j < n \<and> ls ! j = ls ! i" if "j \<in> set (line_group ls n (ls ! i))" for i j ls
    using that by (simp add: line_group_def)
  show ?thesis unfolding siblings_ok_def assms(1)
  proof (intro allI impI conjI ballI)
    fix i assume i: "i < n"
    show "i \<in> set (cpu_ids (siblings (cpus t ! i)))"
      using assms(2) [OF i] group_has [OF i] by (simp add: host_cpu_def del: set_cpu_ids)
    show "cpu_ids (siblings (cpus t ! j)) = cpu_ids (siblings (cpus t ! i))" if "j \<in> set (cpu_ids (siblings (cpus t ! i)))" for j
      using that assms(2) i g [of j lines i] by (simp add: host_cpu_def del: set_cpu_ids)
    show "cpu_ids (l3_siblings (cpus t ! j)) = cpu_ids (l3_siblings (cpus t ! i))" if "j \<in> set (cpu_ids (l3_siblings (cpus t ! i)))" for j
      using that assms(2) i g [of j l3 i] by (simp add: host_cpu_def del: set_cpu_ids split: if_splits)
  qed
qed


section \<open>The parser for CPU lists\<close>

text \<open>The kernel's format: decimal numbers and ranges, separated by commas, and maybe a newline.\<close>

definition fmt_range :: "nat \<times> nat \<Rightarrow> string" where
  "fmt_range r = (if fst r = snd r then dec (fst r) else dec (fst r) @ CHR ''-'' # dec (snd r))"

fun fmt_list :: "string \<Rightarrow> (nat \<times> nat) list \<Rightarrow> string" where
  "fmt_list nl [] = nl"
| "fmt_list nl [r] = fmt_range r @ nl"
| "fmt_list nl (r # rs) = fmt_range r @ CHR '','' # fmt_list nl rs"

text \<open>What \<open>absl::SimpleAtoi\<close> documents, for the strings of that format.\<close>

definition atoi_spec :: "(string \<Rightarrow> int option) \<Rightarrow> bool" where
  "atoi_spec atoi \<longleftrightarrow> (\<forall>k nl. k < 2 ^ 31 \<longrightarrow> nl \<in> {[], [CHR 0x0A]} \<longrightarrow> atoi (dec k @ nl) = Some (int k))
     \<and> (\<forall>a b nl. atoi (dec a @ CHR ''-'' # dec b @ nl) = None)"

lemma digit_char: "d < 10 \<Longrightarrow> is_digit (char_of (48 + d :: nat)) \<and> of_char (char_of (48 + d :: nat)) = 48 + d"
  by (simp add: is_digit_def)

lemma dec_digits: "list_all is_digit (dec n) \<and> dec n \<noteq> []"
proof (induction n rule: dec.induct)
  case (1 n)
  then show ?case using digit_char [of n] digit_char [of "n mod 10"] by (subst (1 2) dec.simps) simp
qed

lemma not_digit: "\<not> is_digit (CHR '','')" "\<not> is_digit (CHR ''-'')" "\<not> is_digit (CHR 0x0A)"
  by (simp_all add: is_digit_def)

lemma take_digits:
  assumes "list_all is_digit xs" and "ys = [] \<or> \<not> is_digit (hd ys)"
  shows "takeWhile is_digit (xs @ ys) = xs" "dropWhile is_digit (xs @ ys) = ys"
  using assms by (induction xs; cases ys; simp)+

lemma match_fmt:
  assumes "nl \<in> {[], [CHR 0x0A]}"
  shows "match_range (dec a @ CHR ''-'' # dec b @ nl) = Some (dec a, dec b)"
proof -
  have "takeWhile is_digit (dec a @ CHR ''-'' # dec b @ nl) = dec a"
    "dropWhile is_digit (dec a @ CHR ''-'' # dec b @ nl) = CHR ''-'' # dec b @ nl"
    using take_digits [of "dec a" "CHR ''-'' # dec b @ nl"] dec_digits [of a] not_digit(2) by auto
  moreover have "takeWhile is_digit (dec b @ nl) = dec b" "dropWhile is_digit (dec b @ nl) = nl"
    using take_digits [of "dec b" nl] dec_digits [of b] not_digit(3) assms by auto
  ultimately show ?thesis using assms dec_digits [of a] dec_digits [of b]
    by (auto simp: match_range_def Let_def)
qed

lemma getlines_field:
  "CHR '','' \<notin> set f \<Longrightarrow> getlines acc (f @ CHR '','' # rest) = (acc @ f) # getlines [] rest"
  "CHR '','' \<notin> set f \<Longrightarrow> acc @ f \<noteq> [] \<Longrightarrow> getlines acc f = [acc @ f]"
  by (induction f arbitrary: acc) auto

lemma fmt_range_chars: "CHR '','' \<notin> set (fmt_range r)" "fmt_range r \<noteq> []"
  using dec_digits [of "fst r"] dec_digits [of "snd r"] not_digit(1)
  by (auto simp: fmt_range_def list_all_iff)

fun fmt_fields :: "string \<Rightarrow> (nat \<times> nat) list \<Rightarrow> string list" where
  "fmt_fields nl [] = (if nl = [] then [] else [nl])"
| "fmt_fields nl [r] = [fmt_range r @ nl]"
| "fmt_fields nl (r # rs) = fmt_range r # fmt_fields nl rs"

lemma getlines_fmt: "nl \<in> {[], [CHR 0x0A]} \<Longrightarrow> getlines [] (fmt_list nl rs) = fmt_fields nl rs"
proof (induction nl rs rule: fmt_list.induct)
  case (1 nl)
  then show ?case by auto
next
  case (2 nl r)
  then show ?case using fmt_range_chars [of r] getlines_field(2) [of "fmt_range r @ nl" "[]"] by auto
next
  case (3 nl r r' rs)
  then show ?case using fmt_range_chars(1) [of r] getlines_field(1) [of "fmt_range r" "[]"] by simp
qed

lemma parse_range:
  assumes "atoi_spec atoi" and "nl \<in> {[], [CHR 0x0A]}" and "a \<le> b" and "b < n" and "list_ok n m"
  shows "\<exists>m'. parse_field atoi n (fmt_range (a, b) @ nl) m = Some m' \<and> list_ok n m'
    \<and> set (cpu_ids m') = set (cpu_ids m) \<union> {a..b}"
proof -
  have ok: "map_ok m" "in_topology m" "topo_cpus m = n" using assms(5) by (auto simp: list_ok_def)
  have n: "n \<le> 512" "n \<le> 64 * map_size m" using ok map_ok_size [OF ok(1)] by (auto simp: map_ok_def MAX_CPUS_def)
  have small: "a < 2 ^ 31" "b < 2 ^ 31"
  proof -
    have "b < 512" using n(1) assms(4) by simp
    also have "(512 :: nat) < 2 ^ 31" by simp
    finally show "b < 2 ^ 31" .
    then show "a < 2 ^ 31" using assms(3) by simp
  qed
  obtain m' where m': "set_all [int a..int b] m = Some m'" "map_ok m'" "topo_cpus m' = topo_cpus m"
    "\<forall>j. has_cpu m' j \<longleftrightarrow> has_cpu m j \<or> int j \<in> set [int a..int b]"
    using set_all_spec [OF ok(1), of "[int a..int b]"] n(2) assms(4) by auto
  have list: "list_ok n m'" "set (cpu_ids m') = set (cpu_ids m) \<union> {a..b}"
    using m' ok assms(4) by (auto simp: list_ok_def in_topology_iff)
  have atoi: "atoi (dec k @ l) = Some (int k)" if "k < 2 ^ 31" "l \<in> {[], [CHR 0x0A]}" for k l
    using assms(1) that unfolding atoi_spec_def by blast
  have none: "atoi (dec a @ CHR ''-'' # dec b @ nl) = None" using assms(1) unfolding atoi_spec_def by blast
  have ne: "fmt_range (a, b) @ nl \<noteq> [CHR 0x0A]"
    using dec_digits [of a] not_digit(3) by (cases "dec a") (auto simp: fmt_range_def)
  have "parse_field atoi n (fmt_range (a, b) @ nl) m = Some m'"
  proof (cases "a = b")
    case True
    then have "atoi (fmt_range (a, b) @ nl) = Some (int a)" using atoi [OF small(1) assms(2)] by (simp add: fmt_range_def)
    then show ?thesis using ne True assms(4) m'(1) by (simp add: parse_field_def)
  next
    case False
    then have "fmt_range (a, b) @ nl = dec a @ CHR ''-'' # dec b @ nl" by (simp add: fmt_range_def)
    moreover have "atoi (dec a) = Some (int a)" "atoi (dec b) = Some (int b)"
      using atoi [OF small(1), of "[]"] atoi [OF small(2), of "[]"] by auto
    ultimately show ?thesis using ne none match_fmt [OF assms(2)] assms(3, 4) m'(1) by (simp add: parse_field_def)
  qed
  then show ?thesis using list by blast
qed

lemma parse_fields:
  assumes "atoi_spec atoi" and "nl \<in> {[], [CHR 0x0A]}" and "\<forall>(a, b) \<in> set rs. a \<le> b \<and> b < n" and "list_ok n m"
  shows "\<exists>m'. mfold (parse_field atoi n) (fmt_fields nl rs) m = Some m' \<and> list_ok n m'
    \<and> set (cpu_ids m') = set (cpu_ids m) \<union> (\<Union>(a, b) \<in> set rs. {a..b})"
  using assms(2-)
proof (induction nl rs arbitrary: m rule: fmt_fields.induct)
  case (1 nl)
  then show ?case by (auto simp: parse_field_def)
next
  case (2 nl r)
  then show ?case using parse_range [OF assms(1) 2(1), of "fst r" "snd r" n m] by (cases r) auto
next
  case (3 nl r r' rs)
  obtain a b where r: "r = (a, b)" by force
  obtain m1 where m1: "parse_field atoi n (fmt_range (a, b)) m = Some m1" "list_ok n m1"
    "set (cpu_ids m1) = set (cpu_ids m) \<union> {a..b}"
    using parse_range [OF assms(1), of "[]" a b n m] "3.prems" r by auto
  obtain m' where m': "mfold (parse_field atoi n) (fmt_fields nl (r' # rs)) m1 = Some m'" "list_ok n m'"
    "set (cpu_ids m') = set (cpu_ids m1) \<union> (\<Union>(a, b) \<in> set (r' # rs). {a..b})"
    using "3.IH" [OF "3.prems"(1) _ m1(2)] "3.prems"(2) by auto
  then show ?case using m1 r by (intro exI [of _ m']) (auto simp del: set_cpu_ids)
qed


section \<open>Properties\<close>

lemma described_siblings:
  assumes "num_cpus t = n" and "\<And>i. i < n \<Longrightarrow> describes (rs ! i) (cpus t ! i)" and "length rs = n"
    and "\<forall>r \<in> set rs. raw_ok n r"
    and "\<And>i. i < n \<Longrightarrow> int i \<in> set (raw_siblings (rs ! i))"
    and "\<And>i s. i < n \<Longrightarrow> s \<in> set (raw_siblings (rs ! i)) \<Longrightarrow> raw_siblings (rs ! nat s) = raw_siblings (rs ! i)"
    and "\<And>i s. i < n \<Longrightarrow> s \<in> set (raw_l3_siblings (rs ! i)) \<Longrightarrow> raw_l3_siblings (rs ! nat s) = raw_l3_siblings (rs ! i)"
  shows "siblings_ok t"
  unfolding siblings_ok_def assms(1)
proof (intro allI impI conjI ballI)
  fix i assume i: "i < n"
  have sib: "set (cpu_ids (siblings (cpus t ! k))) = nat ` set (raw_siblings (rs ! k))"
    and l3: "set (cpu_ids (l3_siblings (cpus t ! k))) = nat ` set (raw_l3_siblings (rs ! k))" if "k < n" for k
    using assms(2) [OF that] by (simp_all only: describes_def)
  have less: "nat s < n" if "s \<in> set (raw_siblings (rs ! i)) \<or> s \<in> set (raw_l3_siblings (rs ! i))" for s
  proof -
    have "raw_ok n (rs ! i)" using assms(3, 4) i by simp
    then show ?thesis using that unfolding raw_ok_def by (metis nat_less_iff)
  qed
  show "i \<in> set (cpu_ids (siblings (cpus t ! i)))" unfolding sib [OF i] using assms(5) [OF i] by force
  fix j
  { assume "j \<in> set (cpu_ids (siblings (cpus t ! i)))"
    then obtain s where s: "s \<in> set (raw_siblings (rs ! i))" "j = nat s" unfolding sib [OF i] by blast
    then have "set (cpu_ids (siblings (cpus t ! j))) = set (cpu_ids (siblings (cpus t ! i)))"
      using sib [OF i] sib [of j] less assms(6) [OF i] by simp
    then show "cpu_ids (siblings (cpus t ! j)) = cpu_ids (siblings (cpus t ! i))"
      by (rule strict_sorted_equal [OF sorted_cpu_ids sorted_cpu_ids]) }
  { assume "j \<in> set (cpu_ids (l3_siblings (cpus t ! i)))"
    then obtain s where s: "s \<in> set (raw_l3_siblings (rs ! i))" "j = nat s" unfolding l3 [OF i] by blast
    then have "set (cpu_ids (l3_siblings (cpus t ! j))) = set (cpu_ids (l3_siblings (cpus t ! i)))"
      using l3 [OF i] l3 [of j] less assms(7) [OF i] by simp
    then show "cpu_ids (l3_siblings (cpus t ! j)) = cpu_ids (l3_siblings (cpus t ! i))"
      by (rule strict_sorted_equal [OF sorted_cpu_ids sorted_cpu_ids]) }
qed

text \<open>Descriptions with one thread per core or neighbouring threads that the constructor accepts.\<close>

lemma custom_accepts:
  assumes "length raws \<le> MAX_CPUS" and "raws \<noteq> []" and "\<forall>i < length raws. raw_cpu (sort_raws raws ! i) = int i"
    and "\<forall>r \<in> set raws. raw_ok (length raws) r \<and> 0 \<le> raw_numa_node r"
    and "\<forall>i < length raws. int i \<in> set (raw_siblings (sort_raws raws ! i))
      \<and> (\<forall>s \<in> set (raw_siblings (sort_raws raws ! i)). raw_siblings (sort_raws raws ! nat s) = raw_siblings (sort_raws raws ! i))
      \<and> (\<forall>s \<in> set (raw_l3_siblings (sort_raws raws ! i)). raw_l3_siblings (sort_raws raws ! nat s) = raw_l3_siblings (sort_raws raws ! i))"
    and "raw_siblings (sort_raws raws ! 0) \<in> {[0], [0, 1]}"
  shows "\<exists>t. Topology_Custom raws = Some t"
proof -
  let ?n = "length raws" and ?rs = "sort_raws raws"
  have len: "length ?rs = ?n" "set ?rs = set raws" by (simp_all add: sort_raws_def)
  have check: "CheckCustomTopology ?rs = Some ()" 
    using assms(2-4) len unfolding check_custom by (metis length_0_conv)
  obtain e where e: "CpuMap_init ?n = Some e" by (rule init_ok [OF assms(1)])
  let ?t0 = "\<lparr>num_cpus = ?n, all_cpus = e, cpus = [], highest_node_idx = -1,
       consecutive_smt_numbering = False, cpus_on_node = []\<rparr>"
  obtain t where t: "fill_cpus ?n (enumerate 0 ?rs) ?t0 = Some t" "built ?n ?n t"
    "\<forall>i < ?n. describes (?rs ! i) (cpus t ! i)" "\<forall>i < ?n. numa_node (cpus t ! i) \<le> highest_node_idx t"
    using fill_cpus_ok [OF assms(1) _ _ built_start [OF assms(1) e], of ?rs "-1" False "[]"] assms(4) len by auto
  have num: "num_cpus t = ?n" using t(2) by (simp add: built_def)
  have ok: "topo_ok t" by (rule built_topo_ok [OF t(2) assms(1)])
  have "siblings_ok t" by (rule described_siblings [OF num, of ?rs]) (use t(3) assms(4, 5) len in auto)
  then have sib: "CheckSiblings t = Some ()" using check_siblings [OF ok] by simp
  have "0 \<le> numa_node (cpus t ! i) \<and> numa_node (cpus t ! i) < int (nat (highest_node_idx t + 1))" if "i < num_cpus t" for i
  proof -
    have "0 \<le> raw_numa_node (?rs ! i)" using assms(4) len nth_mem [of i ?rs] that num by metis
    then show ?thesis using t(3, 4) that num unfolding describes_def by fastforce
  qed
  from create_lists_total [OF ok this] obtain t2 where t2: "CreateCpuListsForNumaNodes (nat (highest_node_idx t + 1)) t = Some t2" by blast
  obtain ls where ls: "t2 = t\<lparr>cpus_on_node := ls\<rparr>" by (rule create_lists [OF ok t2])
  let ?s = "siblings (cpus t ! 0)"
  have 0: "0 < ?n" using assms(2) by simp
  have s: "map_ok ?s" "in_topology ?s" using ok num 0 by (auto simp: topo_ok_def rep_ok_def list_ok_def)
  have "map int (cpu_ids ?s) = raw_siblings (?rs ! 0)" using t(3) 0 assms(6) unfolding describes_def by auto
  then have "cpu_ids ?s \<in> {[0], [0, 1]}" using assms(6) by (auto simp: map_eq_Cons_conv)
  then have "\<exists>c. CheckConsecutiveSmtNumbering t2 = Some c"
    using nth_cpu_ids [OF s] size_cpu_ids [OF s(1)] num 0 ls ok
    by (auto simp: CheckConsecutiveSmtNumbering_def cpu_rep_def topo_ok_def Let_def)
  then show ?thesis using assms(1) check e t(1) sib t2 by (auto simp: Topology_Custom_def Let_def)
qed

text \<open>Two cores with two hardware threads each, described out of order.\<close>

definition ex_raw :: "int \<Rightarrow> Raw" where
  "ex_raw i = \<lparr>raw_cpu = i, raw_core = i div 2, raw_smt_idx = i mod 2, raw_siblings = [2 * (i div 2), 2 * (i div 2) + 1],
     raw_l3_siblings = [0, 1, 2, 3], raw_numa_node = i div 2\<rparr>"

definition ex_raws :: "Raw list" where
  "ex_raws = [ex_raw 2, ex_raw 0, ex_raw 3, ex_raw 1]"

lemma ex_sort: "sort_raws ex_raws = [ex_raw 0, ex_raw 1, ex_raw 2, ex_raw 3]"
  by (simp add: sort_raws_def ex_raws_def ex_raw_def)

lemma ex_custom: "\<exists>t. Topology_Custom ex_raws = Some t"
proof (rule custom_accepts)
  have less4: "i < length ex_raws \<longleftrightarrow> i = 0 \<or> i = 1 \<or> i = 2 \<or> i = 3" for i by (auto simp: ex_raws_def)
  show "\<forall>i < length ex_raws. raw_cpu (sort_raws ex_raws ! i) = int i"
    "\<forall>i < length ex_raws. int i \<in> set (raw_siblings (sort_raws ex_raws ! i))
      \<and> (\<forall>s \<in> set (raw_siblings (sort_raws ex_raws ! i)). raw_siblings (sort_raws ex_raws ! nat s) = raw_siblings (sort_raws ex_raws ! i))
      \<and> (\<forall>s \<in> set (raw_l3_siblings (sort_raws ex_raws ! i)). raw_l3_siblings (sort_raws ex_raws ! nat s) = raw_l3_siblings (sort_raws ex_raws ! i))"
    unfolding less4 ex_sort by (auto simp: ex_raw_def)
qed (simp_all add: ex_sort, simp_all add: ex_raws_def ex_raw_def raw_ok_def MAX_CPUS_def)

lemma ex_raws_sorted: "\<forall>r \<in> set ex_raws. sorted_wrt (<) (raw_siblings r) \<and> sorted_wrt (<) (raw_l3_siblings r)"
  by (simp add: ex_raws_def ex_raw_def)

text \<open>
  C33. Exporting a topology that was built from a raw description gives back that description, in
  the order of the CPU ids, when the sibling vectors are ascending.
\<close>

theorem custom_export_round_trip:
  assumes "Topology_Custom raws = Some t"
    and "\<forall>r \<in> set raws. sorted_wrt (<) (raw_siblings r) \<and> sorted_wrt (<) (raw_l3_siblings r)"
  shows "Export t = Some (sort_raws raws)"
  using custom_export [OF assms] .

theorem custom_export_round_trip_witness:
  "\<exists>t. Topology_Custom ex_raws = Some t \<and> Export t = Some [ex_raw 0, ex_raw 1, ex_raw 2, ex_raw 3]"
proof -
  obtain t where t: "Topology_Custom ex_raws = Some t" using ex_custom by blast
  then show ?thesis using custom_export_round_trip [OF t ex_raws_sorted] ex_sort by simp
qed

text \<open>
  C14. In every topology the constructor accepts, being siblings is an equivalence relation on the
  CPUs, every CPU is its own sibling, and the CPU lists of the NUMA nodes partition the CPUs by
  their node.
\<close>

theorem custom_topology_consistent:
  assumes "Topology_Custom raws = Some t"
  defines "sib i \<equiv> set (cpu_ids (siblings (cpus t ! i)))"
  shows "(\<forall>i < length raws. i \<in> sib i \<and> sib i \<subseteq> {..<length raws})
    \<and> (\<forall>i < length raws. \<forall>j < length raws. j \<in> sib i \<longleftrightarrow> sib i = sib j)
    \<and> (\<forall>i < length raws. \<forall>v < length (cpus_on_node t).
         i \<in> set (cpu_ids (cpus_on_node t ! v)) \<longleftrightarrow> numa_node (cpus t ! i) = int v)
    \<and> (\<forall>i < length raws. \<exists>v < length (cpus_on_node t). numa_node (cpus t ! i) = int v)"
proof (intro conjI)
  note c = custom_topology [OF assms(1)]
  have sib: "i \<in> sib i" "\<And>j. j \<in> sib i \<Longrightarrow> sib j = sib i" "\<And>j. j \<in> sib i \<Longrightarrow> j < length raws" if "i < length raws" for i
  proof -
    have "i < num_cpus t" using that c(4) by simp
    then show "i \<in> sib i" "\<And>j. j \<in> sib i \<Longrightarrow> sib j = sib i" using c(2) unfolding siblings_ok_def sib_def by metis+
    have "list_ok (num_cpus t) (siblings (cpus t ! i))" using c(1, 4) that by (simp add: topo_ok_def rep_ok_def)
    then show "\<And>j. j \<in> sib i \<Longrightarrow> j < length raws" unfolding sib_def using list_ok_less c(4) by metis
  qed
  show "\<forall>i < length raws. i \<in> sib i \<and> sib i \<subseteq> {..<length raws}" using sib(1, 3) by auto
  show "\<forall>i < length raws. \<forall>j < length raws. j \<in> sib i \<longleftrightarrow> sib i = sib j" using sib(1, 2) by metis
  show "\<forall>i < length raws. \<forall>v < length (cpus_on_node t).
      i \<in> set (cpu_ids (cpus_on_node t ! v)) \<longleftrightarrow> numa_node (cpus t ! i) = int v"
    using c(3, 4) by (simp add: nodes_ok_def del: set_cpu_ids)
  show "\<forall>i < length raws. \<exists>v < length (cpus_on_node t). numa_node (cpus t ! i) = int v"
    using c(3, 4) unfolding nodes_ok_def by (metis int_nat_eq of_nat_less_iff)
qed

theorem custom_topology_consistent_witness:
  "\<exists>t. Topology_Custom ex_raws = Some t \<and> 2 \<in> set (cpu_ids (siblings (cpus t ! 2)))"
proof -
  obtain t where t: "Topology_Custom ex_raws = Some t" using ex_custom by blast
  then show ?thesis using custom_topology_consistent [OF t] by (auto simp: ex_raws_def)
qed

text \<open>
  C34. The construction refuses a raw description without CPUs, with more than \<open>MAX_CPUS\<close> CPUs,
  with ids other than 0 to N - 1, with an id twice, or with a sibling that is not one of its CPUs.
\<close>

theorem custom_topology_rejects:
  assumes "raws = [] \<or> MAX_CPUS < length raws \<or> \<not> distinct (map raw_cpu raws)
    \<or> (\<exists>r \<in> set raws. raw_cpu r < 0 \<or> int (length raws) \<le> raw_cpu r
         \<or> (\<exists>s \<in> set (raw_siblings r) \<union> set (raw_l3_siblings r). s < 0 \<or> int (length raws) \<le> s))"
  shows "Topology_Custom raws = None"
proof (rule ccontr)
  let ?n = "length raws"
  assume "Topology_Custom raws \<noteq> None"
  then have n: "?n \<le> MAX_CPUS" and check: "CheckCustomTopology (sort_raws raws) = Some ()"
    by (auto simp: Topology_Custom_def Let_def bind_unit_Some bind_eq_Some_conv)
  have len: "length (sort_raws raws) = ?n" "set (sort_raws raws) = set raws" by (simp_all add: sort_raws_def)
  have ids: "map raw_cpu (sort_raws raws) = map int [0..<?n]" and ok: "\<forall>r \<in> set raws. raw_ok ?n r" "raws \<noteq> []"
    using check len unfolding check_custom by (auto intro: nth_equalityI simp: sort_raws_def)
  have img: "raw_cpu ` set raws = int ` {..<?n}"
    using arg_cong [OF ids, of set] len(2) by (simp add: atLeast0LessThan)
  have "card (set (map raw_cpu raws)) = length (map raw_cpu raws)" by (simp add: img card_image)
  then have "distinct (map raw_cpu raws)" by (rule card_distinct)
  moreover have "0 \<le> raw_cpu r \<and> raw_cpu r < int ?n" if "r \<in> set raws" for r
    using that img by (metis image_eqI imageE lessThan_iff of_nat_0_le_iff of_nat_less_iff)
  ultimately show False using assms n ok unfolding raw_ok_def by (metis Un_iff leD)
qed

theorem custom_topology_rejects_witness: "Topology_Custom [ex_raw 0, ex_raw 0] = None"
  using custom_topology_rejects [of "[ex_raw 0, ex_raw 0]"] by simp

text \<open>
  What \<open>absl::StrSplit\<close> documents for \<open>ByAnyChar\<close> with a comma and a dash: the text before the first
  separator, then the fields of the rest.
\<close>

definition split_spec :: "(string \<Rightarrow> string list) \<Rightarrow> bool" where
  "split_spec split \<longleftrightarrow> (\<forall>f. set f \<inter> {CHR '','', CHR ''-''} = {} \<longrightarrow> split f = [f]
     \<and> (\<forall>c s. c \<in> {CHR '','', CHR ''-''} \<longrightarrow> split (f @ c # s) = f # split s))"

lemma split_dec:
  assumes "split_spec split"
  shows "split (dec k) = [dec k]" "split (dec k @ CHR '','' # s) = dec k # split s"
    "split (dec k @ CHR ''-'' # s) = dec k # split s"
proof -
  have "list_all is_digit (dec k)" using dec_digits by simp
  then have "set (dec k) \<inter> {CHR '','', CHR ''-''} = {}" using not_digit(1, 2) unfolding list_all_iff by blast
  then have *: "split (dec k) = [dec k] \<and> (\<forall>c s. c \<in> {CHR '','', CHR ''-''} \<longrightarrow> split (dec k @ c # s) = dec k # split s)"
    using assms unfolding split_spec_def by (elim allE [of _ "dec k"] impE)
  then show "split (dec k) = [dec k]" by (rule conjunct1)
  show "split (dec k @ CHR '','' # s) = dec k # split s" "split (dec k @ CHR ''-'' # s) = dec k # split s"
    using conjunct2 [OF *] by (metis insertCI)+
qed

text \<open>The numbers of a list of ranges, as they are printed.\<close>

definition range_ends :: "nat \<times> nat \<Rightarrow> nat list" where
  "range_ends r = (if fst r = snd r then [fst r] else [fst r, snd r])"

lemma split_fmt:
  assumes "split_spec split" and "rs \<noteq> []"
  shows "split (fmt_list [] rs) = map dec (concat (map range_ends rs))"
  using assms(2)
proof (induction "[] :: string" rs rule: fmt_list.induct)
  case (2 r)
  then show ?case by (simp add: fmt_range_def range_ends_def split_dec [OF assms(1)])
next
  case (3 r r' rs)
  then show ?case by (simp add: fmt_range_def range_ends_def split_dec [OF assms(1)])
qed simp

lemma fmt_first_line:
  assumes "nl \<in> {[], [CHR 0x0A]}" and "rs \<noteq> []"
  shows "getline_first (fmt_list nl rs) = Some (fmt_list [] rs)"
proof -
  have r: "CHR 0x0A \<notin> set (fmt_range r)" for r
    using dec_digits [of "fst r"] dec_digits [of "snd r"] not_digit(3) by (auto simp: fmt_range_def list_all_iff)
  have line: "takeWhile (\<lambda>c. c \<noteq> CHR 0x0A) (f @ s) = f @ takeWhile (\<lambda>c. c \<noteq> CHR 0x0A) s"
    if "CHR 0x0A \<notin> set f" for f s using that by (induction f) auto
  have "takeWhile (\<lambda>c. c \<noteq> CHR 0x0A) (fmt_list nl rs) = fmt_list [] rs \<and> fmt_list nl rs \<noteq> []"
    using assms
  proof (induction nl rs rule: fmt_list.induct)
    case (2 nl r)
    then show ?case using line [of "fmt_range r"] r [of r] fmt_range_chars(2) [of r] by auto
  next
    case (3 nl r r' rs)
    then show ?case using line [of "fmt_range r"] r [of r] by simp
  qed simp
  then show ?thesis by (simp add: getline_first_def)
qed

lemma highest_loop:
  assumes "atoi_spec atoi" and "\<forall>k \<in> set ks. k < 2 ^ 31"
  shows "mfold (\<lambda>s h. do { i \<leftarrow> atoi s; Some (max h i) }) (map dec ks) (int h) = Some (int (Max (insert h (set ks))))"
  using assms(2)
proof (induction ks arbitrary: h)
  case (Cons k ks)
  have "atoi (dec k @ []) = Some (int k)" using assms(1) Cons.prems unfolding atoi_spec_def by simp
  moreover have "Max (insert (max h k) (set ks)) = Max (insert h (set (k # ks)))"
    by (cases "ks = []") (simp_all add: max.assoc max.left_commute)
  ultimately show ?case using Cons.IH [of "max h k"] Cons.prems by (simp add: of_nat_max)
qed simp

lemma highest_node:
  assumes "atoi_spec atoi" and "split_spec split" and "nl \<in> {[], [CHR 0x0A]}" and "rs \<noteq> []"
    and "\<forall>(a, b) \<in> set rs. a \<le> b \<and> b < 2 ^ 31"
  shows "GetHighestNodeIdx atoi split (Some (fmt_list nl rs)) = Some (int (Max (snd ` set rs)))"
proof -
  let ?ks = "concat (map range_ends rs)"
  have r: "fst r \<le> snd r" "snd r < 2 ^ 31" if "r \<in> set rs" for r
    using assms(5) that by (simp_all add: case_prod_beta)
  have ends: "\<exists>r \<in> set rs. y \<le> snd r" if "y \<in> set ?ks" for y
  proof -
    from that obtain x where "x \<in> set rs" "y \<in> set (range_ends x)" by auto
    then have "x \<in> set rs \<and> y \<le> snd x" using r(1) [of x] by (auto simp: range_ends_def split: if_splits)
    then show ?thesis by blast
  qed
  have in_max: "Max (snd ` set rs) \<in> snd ` set rs" using assms(4) by (intro Max_in) simp_all
  have "Max (insert 0 (set ?ks)) = Max (snd ` set rs)"
  proof (rule Max_eqI)
    show "y \<le> Max (snd ` set rs)" if y: "y \<in> insert 0 (set ?ks)" for y
    proof (cases "y = 0")
      case False
      then obtain r where "r \<in> set rs" "y \<le> snd r" using y ends by blast
      then show ?thesis by (meson Max_ge finite_imageI finite_set image_eqI le_trans)
    qed simp
    have "snd ` set rs \<subseteq> set ?ks" by (auto simp: range_ends_def)
    then show "Max (snd ` set rs) \<in> insert 0 (set ?ks)" using in_max by (meson insertI2 subsetD)
  qed simp
  moreover have "\<forall>k \<in> set ?ks. k < 2 ^ 31" using ends r(2) by (meson le_less_trans)
  ultimately show ?thesis using highest_loop [OF assms(1), of ?ks 0]
    by (simp add: GetHighestNodeIdx_def fmt_first_line [OF assms(3, 4)] split_fmt [OF assms(2, 4)])
qed

definition ex_atoi :: "string \<Rightarrow> int option" where
  "ex_atoi s = (let d = takeWhile is_digit s; r = dropWhile is_digit s in
     if d \<noteq> [] \<and> (r = [] \<or> r = [CHR 0x0A]) then Some (int (foldl (\<lambda>v c. 10 * v + (of_char c - 48)) 0 d)) else None)"

lemma dec_value: "foldl (\<lambda>v c. 10 * v + (of_char c - 48)) 0 (dec n) = n"
proof (induction n rule: dec.induct)
  case (1 n)
  then show ?case using digit_char [of n] digit_char [of "n mod 10"] by (subst dec.simps) simp
qed

lemma ex_atoi_spec: "atoi_spec ex_atoi"
proof -
  have split: "takeWhile is_digit (dec k @ nl) = dec k" "dropWhile is_digit (dec k @ nl) = nl"
    if "nl = [] \<or> \<not> is_digit (hd nl)" for k nl using take_digits [OF _ that] dec_digits [of k] by auto
  have "ex_atoi (dec k @ nl) = Some (int k)" if "nl \<in> {[], [CHR 0x0A]}" for k nl
  proof -
    have "nl = [] \<or> \<not> is_digit (hd nl)" using that not_digit(3) by auto
    then show ?thesis using that split [of nl k] dec_digits [of k] by (auto simp: ex_atoi_def dec_value Let_def)
  qed
  moreover have "ex_atoi (dec a @ CHR ''-'' # dec b @ nl) = None" for a b nl
    using split [of "CHR ''-'' # dec b @ nl" a] not_digit(2) by (auto simp: ex_atoi_def Let_def)
  ultimately show ?thesis by (simp add: atoi_spec_def)
qed

fun ex_split :: "string \<Rightarrow> string list" where
  "ex_split [] = [[]]"
| "ex_split (c # cs) = (if c \<in> {CHR '','', CHR ''-''} then [] # ex_split cs
     else (c # hd (ex_split cs)) # tl (ex_split cs))"

lemma ex_split_spec: "split_spec ex_split"
proof -
  have "ex_split f = [f] \<and> (\<forall>c s. c \<in> {CHR '','', CHR ''-''} \<longrightarrow> ex_split (f @ c # s) = f # ex_split s)"
    if "set f \<inter> {CHR '','', CHR ''-''} = {}" for f
    using that by (induction f) auto
  then show ?thesis by (simp add: split_spec_def)
qed

lemma host_l3_groups:
  assumes "0 < n" and "n \<le> MAX_CPUS" and "length l3 = n" and "hd l3 = [] \<or> (\<forall>l \<in> set l3. l \<noteq> [])"
  obtains q where "GetAllSiblings n l3 = Some q" "q = [] \<or> length q = n"
    "\<And>i. i < n \<Longrightarrow> if hd l3 = [] then q = [] else q \<noteq> [] \<and> (\<exists>l. map_of q (int i) = Some l \<and> list_ok n l \<and> cpu_ids l = line_group l3 n (l3 ! i))"
proof (cases "hd l3 = []")
  case True
  then show thesis using no_siblings [of l3 "tl l3" n] assms(1, 3) that [of "[]"] by (cases l3) auto
next
  case False
  then have ne: "\<forall>l \<in> set l3. l \<noteq> []" using assms(4) by simp
  obtain q where q: "GetAllSiblings n l3 = Some q" "length q = n"
    "\<And>i. i < n \<Longrightarrow> \<exists>l. map_of q (int i) = Some l \<and> list_ok n l \<and> cpu_ids l = line_group l3 n (l3 ! i)"
    by (rule all_siblings [OF assms(2, 3) ne]) blast
  then show thesis using False assms(1) by (intro that [of q]) auto
qed

text \<open>
  C35. The construction from the files of the kernel, when the files of the CPUs group them into
  cores and the file of the possible NUMA nodes is a list of numbers and ranges in the kernel's
  format that covers the nodes of the CPUs.  It succeeds if CPU 0 is alone in its core, has CPU 1
  as its only sibling, or has one sibling that is as far apart as there are cores, and it aborts
  on every other layout.  In the result the siblings of a CPU are the CPUs with the same line,
  its core is the first of them, its thread index the number of siblings before it, the highest
  node is the largest number of the file, the numbering counts as consecutive exactly in the
  second layout, and the sibling check passes.  Without the file of the nodes it aborts.
\<close>

theorem host_topology_built:
  assumes "0 < n" and "n \<le> MAX_CPUS" and "length lines = n" and "\<forall>l \<in> set lines. l \<noteq> []"
    and "length l3 = n" and "hd l3 = [] \<or> (\<forall>l \<in> set l3. l \<noteq> [])"
    and "atoi_spec atoi" and "split_spec split" and "nl \<in> {[], [CHR 0x0A]}"
    and "rs \<noteq> []" and "\<forall>(a, b) \<in> set rs. a \<le> b \<and> b < 2 ^ 31"
    and "\<forall>i < n. 0 \<le> numa i \<and> numa i \<le> int (Max (snd ` set rs))"
  shows "(if smt_layout n lines
    then \<exists>t. Topology_Host atoi split n lines l3 numa (Some (fmt_list nl rs)) = Some t \<and> topo_ok t \<and> siblings_ok t \<and> nodes_ok t
      \<and> (\<forall>i < n. host_cpu n lines l3 numa i (cpus t ! i)) \<and> highest_node_idx t = int (Max (snd ` set rs))
      \<and> consecutive_smt_numbering t = (line_group lines n (lines ! 0) = [0, 1])
    else Topology_Host atoi split n lines l3 numa (Some (fmt_list nl rs)) = None)
    \<and> Topology_Host atoi split n lines l3 numa None = None"
proof -
  let ?h = "int (Max (snd ` set rs))"
  obtain r where r: "GetAllSiblings n lines = Some r" "length r = n"
    "\<And>i. i < n \<Longrightarrow> \<exists>l. map_of r (int i) = Some l \<and> list_ok n l \<and> cpu_ids l = line_group lines n (lines ! i)"
    by (rule all_siblings [OF assms(2, 3, 4)]) blast
  obtain q where q: "GetAllSiblings n l3 = Some q" "q = [] \<or> length q = n"
    "\<And>i. i < n \<Longrightarrow> if hd l3 = [] then q = [] else q \<noteq> [] \<and> (\<exists>l. map_of q (int i) = Some l \<and> list_ok n l \<and> cpu_ids l = line_group l3 n (l3 ! i))"
    by (rule host_l3_groups [OF assms(1, 2, 5, 6)]) blast
  obtain e where e: "CpuMap_init n = Some e" by (rule init_ok [OF assms(2)])
  let ?t0 = "\<lparr>num_cpus = n, all_cpus = e, cpus = [], highest_node_idx = -1, consecutive_smt_numbering = False, cpus_on_node = []\<rparr>"
  have rep: "\<exists>x. host_rep n r q numa i = Some x \<and> host_cpu n lines l3 numa i x" if i: "i < n" for i
    using host_rep_ok [OF assms(2) i] r(3) [OF i] q(3) [OF i] assms(12) i by blast
  obtain t where t: "host_cpus (host_rep n r q numa) [0..<n] ?t0 = Some t" "built n n t"
    "\<And>i. i < n \<Longrightarrow> host_rep n r q numa i = Some (cpus t ! i)"
    using host_cpus_ok [OF assms(2), of "host_rep n r q numa" 0 ?t0] rep built_start [OF assms(2) e]
    unfolding host_cpu_def by (metis le0)
  let ?t = "t\<lparr>highest_node_idx := ?h\<rparr>"
  have cpu: "host_cpu n lines l3 numa i (cpus t ! i)" if "i < n" for i using rep [OF that] t(3) [OF that] by simp
  have ok: "topo_ok ?t" using built_topo_ok [OF t(2) assms(2)] by (simp add: topo_ok_def)
  have num: "num_cpus ?t = n" using t(2) by (simp add: built_def)
  have sib: "siblings_ok ?t" using host_siblings_ok [OF num, of lines l3 numa] cpu by simp
  have "0 \<le> numa_node (cpus ?t ! i) \<and> numa_node (cpus ?t ! i) < int (nat (?h + 1))" if "i < num_cpus ?t" for i
    using cpu [of i] assms(12) that num by (simp add: host_cpu_def)
  from create_lists_total [OF ok this] obtain t2 where t2: "CreateCpuListsForNumaNodes (nat (?h + 1)) ?t = Some t2" by blast
  obtain ls where ls: "t2 = ?t\<lparr>cpus_on_node := ls\<rparr>" "nodes_ok t2" by (rule create_lists [OF ok t2])
  have c: "CheckConsecutiveSmtNumbering t2 = (if smt_layout n lines then Some (line_group lines n (lines ! 0) = [0, 1]) else None)"
    by (rule consecutive_check [of t2 n lines l3 numa]) (use ls(1) ok num assms(1, 3) cpu in simp_all)
  note steps = r(1, 2) q(1, 2) e t(1) t2 c sib check_siblings [OF ok] highest_node [OF assms(7-11)] assms(2)
  have "Topology_Host atoi split n lines l3 numa None = None"
    using steps by (simp add: Topology_Host_def GetHighestNodeIdx_def)
  then show ?thesis using ok sib ls cpu steps by (simp add: Topology_Host_def Let_def)
qed

theorem host_topology_built_witness:
  "\<exists>t. Topology_Host ex_atoi ex_split 4 [''5'', ''a'', ''5'', ''a''] [''0-3'', ''0-3'', ''0-3'', ''0-3''] (\<lambda>_. 0)
       (Some (fmt_list [CHR 0x0A] [(0, 1)])) = Some t
     \<and> cpu_ids (siblings (cpus t ! 3)) = [1, 3] \<and> highest_node_idx t = 1"
proof -
  have g: "line_group [''5'', ''a'', ''5'', ''a''] 4 ''5'' = [0, 2]" "line_group [''5'', ''a'', ''5'', ''a''] 4 ''a'' = [1, 3]"
    by (simp_all add: line_group_def upt_rec)
  have "card (set [''5'', ''a'', ''5'', ''a'']) = 2" by (simp add: card_insert_if)
  then have "smt_layout 4 [''5'', ''a'', ''5'', ''a'']" using g(1) by (simp add: smt_layout_def)
  then show ?thesis
    using host_topology_built [of 4 "[''5'', ''a'', ''5'', ''a'']" "[''0-3'', ''0-3'', ''0-3'', ''0-3'']"
        ex_atoi ex_split "[CHR 0x0A]" "[(0, 1)]" "\<lambda>_. 0"] g(2) ex_atoi_spec ex_split_spec
    by (force simp: MAX_CPUS_def host_cpu_def)
qed

text \<open>
  C16. A list of CPUs and ranges of CPUs printed in the kernel's format, with or without a newline
  at its end, is parsed to the CPU list with exactly these CPUs, for every conversion of decimal
  numbers that does what \<open>absl::SimpleAtoi\<close> documents.
\<close>

theorem parse_cpu_str_round_trip:
  assumes "atoi_spec atoi" and "nl \<in> {[], [CHR 0x0A]}" and "n \<le> MAX_CPUS"
    and "\<forall>(a, b) \<in> set rs. a \<le> b \<and> b < n"
  shows "\<exists>m. ParseCpuStr atoi n (fmt_list nl rs) = Some m \<and> set (cpu_ids m) = (\<Union>(a, b) \<in> set rs. {a..b})"
proof -
  obtain e where e: "CpuMap_init n = Some e" "list_ok n e" "cpu_ids e = []" by (rule init_ok [OF assms(3)])
  then show ?thesis using parse_fields [OF assms(1, 2, 4) e(2)]
    by (auto simp: ParseCpuStr_def getlines_fmt [OF assms(2)] simp del: set_cpu_ids)
qed

theorem parse_cpu_str_round_trip_witness:
  "\<exists>m. ParseCpuStr ex_atoi 112 (fmt_list [CHR 0x0A] [(0, 3), (6, 6), (8, 8)]) = Some m \<and> set (cpu_ids m) = {0, 1, 2, 3, 6, 8}"
proof -
  have "{0..3} = {0, 1, 2, 3 :: nat}" by auto
  then show ?thesis using parse_cpu_str_round_trip [OF ex_atoi_spec, of "[CHR 0x0A]" 112 "[(0, 3), (6, 6), (8, 8)]"]
    by (auto simp: MAX_CPUS_def simp del: set_cpu_ids)
qed

end
