(* ===== verification/Channel.thy ===== *)
theory Channel
  imports Prelude
begin

unbundle bit_operations_syntax

text \<open>
  Messages and channels: the message types of \<open>kernel/ghost_uapi.h\<close>, the class \<open>Message\<close> of
  \<open>lib/channel.h\<close> and the consumer side of \<open>LocalChannel\<close> of \<open>lib/channel.cc\<close>.  A channel is a
  ring of message slots shared with the kernel.  The kernel is the producer and is not part of
  the repository, so the ring's contents are a state the lemmas quantify over.  Ring indices are
  32-bit words that wrap around.
\<close>

section \<open>Messages\<close>

type_synonym gtid = int

text \<open>
  A message with the fields of its payload.  The payload structs of the message types are
  flattened into one record; a handler reads only the fields of its own payload struct.
\<close>

record sw_info =
  sw_id :: u32
  sw_index :: u32

record message =
  msg_type :: "16 word"
  msg_length :: "16 word"
  msg_seqnum :: u32
  msg_gtid :: gtid
  runnable :: bool
  deferrable :: bool
  from_switchto :: bool
  msg_cpu :: int
  runtime :: u64
  nice :: int
  msg_sw_info :: sw_info

definition MSG_TASK_FIRST :: "16 word" where "MSG_TASK_FIRST = 64"
definition MSG_TASK_LAST :: "16 word" where "MSG_TASK_LAST = MSG_TASK_FIRST + 64 - 1"
definition MSG_CPU_FIRST :: "16 word" where "MSG_CPU_FIRST = 128"
definition MSG_CPU_LAST :: "16 word" where "MSG_CPU_LAST = MSG_CPU_FIRST + 64 - 1"

datatype ghost_msg_type =
    MSG_NOP
  | MSG_TASK_DEAD | MSG_TASK_BLOCKED | MSG_TASK_WAKEUP | MSG_TASK_NEW | MSG_TASK_PREEMPT
  | MSG_TASK_YIELD | MSG_TASK_DEPARTED | MSG_TASK_SWITCHTO | MSG_TASK_AFFINITY_CHANGED
  | MSG_TASK_ON_CPU | MSG_TASK_PRIORITY_CHANGED | MSG_TASK_LATCH_FAILURE
  | MSG_CPU_TICK | MSG_CPU_TIMER_EXPIRED | MSG_CPU_NOT_IDLE | MSG_CPU_AVAILABLE | MSG_CPU_BUSY
  | MSG_CPU_AGENT_BLOCKED | MSG_CPU_AGENT_WAKEUP

text \<open>The numbers the enumeration gives the types.\<close>

fun type_num :: "ghost_msg_type \<Rightarrow> 16 word" where
  "type_num MSG_NOP = 0"
| "type_num MSG_TASK_DEAD = MSG_TASK_FIRST"
| "type_num MSG_TASK_BLOCKED = MSG_TASK_FIRST + 1"
| "type_num MSG_TASK_WAKEUP = MSG_TASK_FIRST + 2"
| "type_num MSG_TASK_NEW = MSG_TASK_FIRST + 3"
| "type_num MSG_TASK_PREEMPT = MSG_TASK_FIRST + 4"
| "type_num MSG_TASK_YIELD = MSG_TASK_FIRST + 5"
| "type_num MSG_TASK_DEPARTED = MSG_TASK_FIRST + 6"
| "type_num MSG_TASK_SWITCHTO = MSG_TASK_FIRST + 7"
| "type_num MSG_TASK_AFFINITY_CHANGED = MSG_TASK_FIRST + 8"
| "type_num MSG_TASK_ON_CPU = MSG_TASK_FIRST + 9"
| "type_num MSG_TASK_PRIORITY_CHANGED = MSG_TASK_FIRST + 10"
| "type_num MSG_TASK_LATCH_FAILURE = MSG_TASK_FIRST + 11"
| "type_num MSG_CPU_TICK = MSG_CPU_FIRST"
| "type_num MSG_CPU_TIMER_EXPIRED = MSG_CPU_FIRST + 1"
| "type_num MSG_CPU_NOT_IDLE = MSG_CPU_FIRST + 2"
| "type_num MSG_CPU_AVAILABLE = MSG_CPU_FIRST + 3"
| "type_num MSG_CPU_BUSY = MSG_CPU_FIRST + 4"
| "type_num MSG_CPU_AGENT_BLOCKED = MSG_CPU_FIRST + 5"
| "type_num MSG_CPU_AGENT_WAKEUP = MSG_CPU_FIRST + 6"

abbreviation has_type :: "message \<Rightarrow> ghost_msg_type \<Rightarrow> bool" where
  "has_type m t \<equiv> msg_type m = type_num t"

definition is_cpu_msg :: "message \<Rightarrow> bool" where
  "is_cpu_msg m \<longleftrightarrow> msg_type m \<ge> MSG_CPU_FIRST \<and> msg_type m \<le> MSG_CPU_LAST"

definition is_task_msg :: "message \<Rightarrow> bool" where
  "is_task_msg m \<longleftrightarrow> msg_type m \<ge> MSG_TASK_FIRST \<and> msg_type m \<le> MSG_TASK_LAST"

lemmas type_num_simps = MSG_TASK_FIRST_def MSG_TASK_LAST_def MSG_CPU_FIRST_def MSG_CPU_LAST_def

lemma type_num_inject: "type_num a = type_num b \<longleftrightarrow> a = b"
  by (cases a; cases b) (simp_all add: type_num_simps)

lemma type_classes:
  "has_type m t \<Longrightarrow> is_cpu_msg m \<longleftrightarrow> t \<in> {MSG_CPU_TICK, MSG_CPU_TIMER_EXPIRED, MSG_CPU_NOT_IDLE,
     MSG_CPU_AVAILABLE, MSG_CPU_BUSY, MSG_CPU_AGENT_BLOCKED, MSG_CPU_AGENT_WAKEUP}"
  "has_type m t \<Longrightarrow> is_task_msg m \<longleftrightarrow> t \<noteq> MSG_NOP \<and> \<not> is_cpu_msg m"
  by (cases t; simp add: is_cpu_msg_def is_task_msg_def type_num_simps)+

text \<open>\<open>Message::describe_type\<close>: the name of the type, \<open>GHOST_ERROR\<close> for any other number.\<close>

definition type_names :: "(ghost_msg_type \<times> string) list" where
  "type_names =
    [(MSG_NOP, ''MSG_NOP''), (MSG_TASK_DEAD, ''MSG_TASK_DEAD''), (MSG_TASK_BLOCKED, ''MSG_TASK_BLOCKED''),
     (MSG_TASK_WAKEUP, ''MSG_TASK_WAKEUP''), (MSG_TASK_NEW, ''MSG_TASK_NEW''),
     (MSG_TASK_PREEMPT, ''MSG_TASK_PREEMPT''), (MSG_TASK_YIELD, ''MSG_TASK_YIELD''),
     (MSG_TASK_DEPARTED, ''MSG_TASK_DEPARTED''), (MSG_TASK_SWITCHTO, ''MSG_TASK_SWITCHTO''),
     (MSG_TASK_AFFINITY_CHANGED, ''MSG_TASK_AFFINITY_CHANGED''), (MSG_TASK_ON_CPU, ''MSG_TASK_ON_CPU''),
     (MSG_TASK_PRIORITY_CHANGED, ''MSG_TASK_PRIORITY_CHANGED''),
     (MSG_TASK_LATCH_FAILURE, ''MSG_TASK_LATCH_FAILURE''), (MSG_CPU_TICK, ''MSG_CPU_TICK''),
     (MSG_CPU_TIMER_EXPIRED, ''MSG_CPU_TIMER_EXPIRED''), (MSG_CPU_NOT_IDLE, ''MSG_CPU_NOT_IDLE''),
     (MSG_CPU_AVAILABLE, ''MSG_CPU_AVAILABLE''), (MSG_CPU_BUSY, ''MSG_CPU_BUSY''),
     (MSG_CPU_AGENT_BLOCKED, ''MSG_CPU_AGENT_BLOCKED''), (MSG_CPU_AGENT_WAKEUP, ''MSG_CPU_AGENT_WAKEUP'')]"

definition describe_type :: "message \<Rightarrow> string option" where
  "describe_type m = map_option snd (find (\<lambda>(t, _). msg_type m = type_num t) type_names)"

text \<open>
  \<open>GHOST_DPRINT(level, stderr, "%s", msg.stringify())\<close>: at a verbosity below the level nothing happens, otherwise
  the message is printed, which needs the name of its type.
\<close>

definition dprint_message :: "int \<Rightarrow> int \<Rightarrow> message \<Rightarrow> unit option" where
  "dprint_message verbosity level m = (if verbosity < level then Some () else do { describe_type m; Some () })"

lemma type_names_all: "\<exists>n. (t, n) \<in> set type_names"
  by (cases t) (simp_all add: type_names_def)

lemma describe_type_None: "describe_type m = None \<longleftrightarrow> (\<forall>t. \<not> has_type m t)"
  using type_names_all by (fastforce simp: describe_type_def find_None_iff)

lemma dprint_known [simp]: "has_type m t \<Longrightarrow> dprint_message v l m = Some ()"
  using describe_type_None [of m] by (auto simp: dprint_message_def bind_eq_Some_conv)

section \<open>The ring\<close>

record ghost_ring =
  ring_head :: u32
  ring_tail :: u32
  ring_overflow :: u32
  ring_nelems :: u32
  ring_msgs :: "u32 \<Rightarrow> message"

text \<open>The size of \<open>struct ghost_msg\<close>, which is the size of a slot.\<close>

definition slot_size :: u32 where "slot_size = 8"

definition msg_slots :: "message \<Rightarrow> u32" where
  "msg_slots m = roundup2 (ucast (msg_length m)) slot_size div slot_size"

definition Consume :: "message \<Rightarrow> ghost_ring \<Rightarrow> ghost_ring" where
  "Consume m r = r\<lparr>ring_tail := ring_tail r + msg_slots m\<rparr>"

text \<open>The outer option is the \<open>CHECK\<close>, the inner \<^const>\<open>None\<close> the empty message.\<close>

definition Peek :: "ghost_ring \<Rightarrow> message option option" where
  "Peek r = (if ring_tail r = ring_head r then Some None
     else do { CHECK (ring_overflow r = 0);
               Some (Some (ring_msgs r (ring_tail r AND (ring_nelems r - 1)))) })"

text \<open>
  The loop \<open>while (!(msg = Peek(channel)).empty()) { DispatchMessage(msg); Consume(channel, msg); }\<close>
  that every agent runs, over the handler \<open>f\<close> for one message.
\<close>

partial_function (option) drain_channel ::
  "(message \<Rightarrow> 's \<Rightarrow> 's option) \<Rightarrow> ghost_ring \<Rightarrow> 's \<Rightarrow> (ghost_ring \<times> 's) option" where
  "drain_channel f r s = do {
     m \<leftarrow> Peek r;
     case m of None \<Rightarrow> Some (r, s)
     | Some m \<Rightarrow> do { s \<leftarrow> f m s; drain_channel f (Consume m r) s } }"

section \<open>The ring as a sequence of messages\<close>

lemma slots_drop_bit: "roundup2 x slot_size div slot_size = drop_bit 3 (x + 7)"
proof -
  have "(7 :: u32) = mask 3" by (simp add: mask_eq_exp_minus_1)
  moreover have "drop_bit 3 (y AND NOT (mask 3)) = drop_bit 3 y" for y :: u32
    by (intro bit_word_eqI) (auto simp: bit_simps dest: bit_imp_le_length)
  ultimately have "drop_bit 3 ((x + 7) AND NOT 7) = drop_bit 3 (x + 7)" by metis
  then show ?thesis by (simp add: roundup2_def slot_size_def drop_bit_eq_div)
qed

lemma unat_msg_slots: "unat (msg_slots m) = (unat (msg_length m) + 7) div 8"
proof -
  have len: "unat (msg_length m) < 2 ^ 16" using unsigned_less [of "msg_length m"] by simp
  then have "unat (ucast (msg_length m) + 7 :: u32) = unat (msg_length m) + 7"
    by (simp add: unat_word_ariths unsigned_ucast_eq take_bit_nat_eq_self)
  then show ?thesis
    using len unfolding msg_slots_def slots_drop_bit unsigned_drop_bit_eq
    by (simp add: drop_bit_eq_div take_bit_nat_eq_self)
qed

lemma msg_slots_pos: "0 < msg_length m \<Longrightarrow> 0 < unat (msg_slots m)"
proof -
  assume "0 < msg_length m"
  then have "0 < unat (msg_length m)" by (simp add: unat_gt_0 word_gt_0)
  then show ?thesis unfolding unat_msg_slots by linarith
qed

text \<open>The messages \<open>ms\<close> lie in the ring one behind the other from index \<open>i\<close> on.\<close>

fun laid_out :: "ghost_ring \<Rightarrow> u32 \<Rightarrow> message list \<Rightarrow> bool" where
  "laid_out r i [] \<longleftrightarrow> True"
| "laid_out r i (m # ms) \<longleftrightarrow> 0 < msg_length m \<and> ring_msgs r (i AND (ring_nelems r - 1)) = m
     \<and> laid_out r (i + msg_slots m) ms"

text \<open>They are what the kernel produced and the agent has not consumed.\<close>

definition ring_holds :: "ghost_ring \<Rightarrow> message list \<Rightarrow> bool" where
  "ring_holds r ms \<longleftrightarrow> laid_out r (ring_tail r) ms
     \<and> unat (ring_head r - ring_tail r) = sum_list (map (\<lambda>m. unat (msg_slots m)) ms)"

lemma laid_out_cong:
  "ring_msgs r' = ring_msgs r \<Longrightarrow> ring_nelems r' = ring_nelems r \<Longrightarrow> laid_out r' i ms = laid_out r i ms"
  by (induction ms arbitrary: i) auto

lemma peek_first:
  assumes "ring_holds r (m # ms)" and "ring_overflow r = 0"
  shows "Peek r = Some (Some m)"
proof -
  have "0 < unat (ring_head r - ring_tail r)"
    using assms(1) msg_slots_pos [of m] by (auto simp: ring_holds_def)
  then have "ring_tail r \<noteq> ring_head r" by auto
  then show ?thesis using assms by (simp add: Peek_def ring_holds_def)
qed

lemma consume_first:
  assumes "ring_holds r (m # ms)"
  shows "ring_holds (Consume m r) ms"
proof -
  let ?d = "ring_head r - ring_tail r"
  have "unat (msg_slots m) \<le> unat ?d" using assms by (simp add: ring_holds_def)
  then have "msg_slots m \<le> ?d" by (simp add: word_le_nat_alt)
  then have "unat (?d - msg_slots m) = unat ?d - unat (msg_slots m)" by (rule unat_sub)
  then have "unat (ring_head r - (ring_tail r + msg_slots m)) = sum_list (map (\<lambda>m. unat (msg_slots m)) ms)"
    using assms by (simp add: ring_holds_def diff_diff_eq)
  then show ?thesis
    using assms laid_out_cong [of "Consume m r" r] by (simp add: ring_holds_def Consume_def)
qed

lemma peek_empty: "ring_holds r [] \<Longrightarrow> Peek r = Some None"
  by (simp add: ring_holds_def Peek_def unat_eq_0)

lemma drain_holds:
  assumes "ring_holds r ms" and "ring_overflow r = 0"
  shows "drain_channel f r s = map_option (Pair (r\<lparr>ring_tail := ring_head r\<rparr>)) (mfold f ms s)"
  using assms
proof (induction ms arbitrary: r s)
  case Nil
  have "ring_tail r = ring_head r" using Nil.prems(1) by (simp add: ring_holds_def unat_eq_0)
  then have "r\<lparr>ring_tail := ring_head r\<rparr> = r" by (metis ghost_ring.surjective ghost_ring.update_convs(2))
  then show ?case using peek_empty [OF Nil.prems(1)] by (subst drain_channel.simps) simp
next
  case (Cons m ms)
  have "drain_channel f (Consume m r) s' = map_option (Pair (r\<lparr>ring_tail := ring_head r\<rparr>)) (mfold f ms s')" for s'
    using Cons.IH [OF consume_first [OF Cons.prems(1)], of s'] Cons.prems(2) by (simp add: Consume_def)
  then show ?case using peek_first [OF Cons.prems]
    by (subst drain_channel.simps) (cases "f m s"; simp)
qed


text \<open>What every handler keeps, the loop keeps.\<close>

lemma drain_inv:
  assumes "drain_channel f r s = Some (r', s')" and "P s"
    and "\<And>m s s'. P s \<Longrightarrow> f m s = Some s' \<Longrightarrow> P s'"
  shows "P s'"
proof -
  have "(\<forall>m s s'. P s \<longrightarrow> f m s = Some s' \<longrightarrow> P s') \<longrightarrow> P s \<longrightarrow> P (snd (r', s'))"
  proof (rule drain_channel.raw_induct [OF _ assms(1)], intro impI)
    fix dc and f :: "message \<Rightarrow> 'a \<Rightarrow> 'a option" and r s x
    assume IH: "\<And>f r s y. dc f r s = Some y \<Longrightarrow> (\<forall>m s s'. P s \<longrightarrow> f m s = Some s' \<longrightarrow> P s') \<longrightarrow> P s \<longrightarrow> P (snd y)"
      and x: "(do { m \<leftarrow> Peek r; case m of None \<Rightarrow> Some (r, s)
        | Some m \<Rightarrow> do { s \<leftarrow> f m s; dc f (Consume m r) s } }) = Some x"
      and keep: "\<forall>m s s'. P s \<longrightarrow> f m s = Some s' \<longrightarrow> P s'" and "P s"
    obtain pm where pm: "Peek r = Some pm" using x by (auto simp: bind_eq_Some_conv)
    show "P (snd x)"
    proof (cases pm)
      case None
      then show ?thesis using x pm \<open>P s\<close> by auto
    next
      case (Some m)
      then obtain s1 where s1: "f m s = Some s1" "dc f (Consume m r) s1 = Some x" using x pm by (auto simp: bind_eq_Some_conv)
      then have "P s1" using keep \<open>P s\<close> by blast
      then show ?thesis using IH [OF s1(2)] keep by blast
    qed
  qed
  then show ?thesis using assms(2, 3) by simp
qed


section \<open>Properties\<close>

text \<open>
  C5. The agents' loop over a channel ends and handles exactly the messages that the ring holds, in
  the order in which the kernel wrote them, each once: it equals dispatching the list of held
  messages, aborts exactly when one of the handlers does, and leaves the ring empty.  Messages
  take as many slots as their length needs, and the indices wrap around at 32 bits.
\<close>

theorem drain_channel_in_order:
  assumes "ring_holds r ms" and "ring_overflow r = 0"
  shows "drain_channel f r s = map_option (Pair (r\<lparr>ring_tail := ring_head r\<rparr>)) (mfold f ms s)
    \<and> Peek (r\<lparr>ring_tail := ring_head r\<rparr>) = Some None"
  using drain_holds [OF assms] by (simp add: Peek_def)

text \<open>A ring of four slots whose tail is about to wrap around, with messages of one and of two slots.\<close>

definition ex_ring_msg :: "16 word \<Rightarrow> u32 \<Rightarrow> message" where
  "ex_ring_msg len n = \<lparr>msg_type = type_num MSG_TASK_DEAD, msg_length = len, msg_seqnum = n, msg_gtid = 7, runnable = False,
     deferrable = False, from_switchto = False, msg_cpu = 0, runtime = 0, nice = 0, msg_sw_info = \<lparr>sw_id = 0, sw_index = 0\<rparr>\<rparr>"

definition ex_ring :: ghost_ring where
  "ex_ring = \<lparr>ring_head = 2, ring_tail = - 1, ring_overflow = 0, ring_nelems = 4,
     ring_msgs = (\<lambda>i. if i = 3 then ex_ring_msg 8 5 else ex_ring_msg 16 6)\<rparr>"

lemma ex_ring_holds: "ring_holds ex_ring [ex_ring_msg 8 5, ex_ring_msg 16 6]"
proof -
  have slots: "msg_slots (ex_ring_msg 8 n) = 1" "msg_slots (ex_ring_msg 16 n) = 2" for n
    by (simp_all add: word_unat_eq_iff unat_msg_slots ex_ring_msg_def)
  show ?thesis by (simp add: ring_holds_def slots) (simp add: ex_ring_def ex_ring_msg_def)
qed

theorem drain_channel_in_order_witness:
  "\<exists>r. drain_channel (\<lambda>m acc. Some (acc @ [msg_seqnum m])) ex_ring [] = Some (r, [5, 6]) \<and> Peek r = Some None"
  using drain_channel_in_order [OF ex_ring_holds, of "\<lambda>m acc. Some (acc @ [msg_seqnum m])" "[]"]
  by (simp add: ex_ring_def ex_ring_msg_def)

end
