(* ===== verification/Dispatch.thy ===== *)
theory Dispatch
  imports Channel
begin

unbundle bit_operations_syntax

text \<open>
  The scheduler base classes of \<open>lib/scheduler.h\<close>: tasks with their sequence numbers, the task
  allocator, the dispatch of messages to the handlers of a scheduler, and the discovery of
  existing tasks.  A \<open>Task*\<close> is represented by the task's gtid, which is its key in the
  allocator's map; a dereference of a pointer that is not (or no longer) in the map is undefined
  behaviour in the code and \<^const>\<open>None\<close> in the model, as a failed \<open>CHECK\<close> is.  The records are
  extended by the schedulers the way the classes are derived from.
\<close>

section \<open>Tasks and the allocator\<close>

record task =
  seqnum :: u32

record 't scheduler =
  task_map :: "gtid \<rightharpoonup> 't"

definition GetTask :: "('t, 'z) scheduler_scheme \<Rightarrow> gtid \<Rightarrow> 't option" where
  "GetTask s g = task_map s g"

text \<open>
  A new task takes the status word that the message names: it is the word of the global table, and
  its index is in the table.
\<close>

record sw_table =
  table_id :: u32
  capacity :: u32

definition status_word_from_info :: "sw_table \<Rightarrow> sw_info \<Rightarrow> u32 option" where
  "status_word_from_info T i = do {
     CHECK (sw_id i = table_id T);
     CHECK (sw_index i < capacity T);
     Some (sw_index i) }"

definition GetTask_alloc :: "sw_table \<Rightarrow> sw_info \<Rightarrow> 't \<Rightarrow> gtid \<Rightarrow> ('t, 'z) scheduler_scheme \<Rightarrow> (('t, 'z) scheduler_scheme \<times> bool) option" where
  "GetTask_alloc T i new_task g s = (case GetTask s g of
     Some t \<Rightarrow> Some (s, False)
   | None \<Rightarrow> do {
       status_word_from_info T i;
       Some (s\<lparr>task_map := (task_map s)(g \<mapsto> new_task)\<rparr>, True) })"

text \<open>
  \<open>FreeTask\<close> erases the task and runs its destructor, which gives the status word back to the
  kernel.  \<open>sw_free g\<close> stands for the \<open>CHECK\<close>s of \<open>LocalStatusWord::Free\<close>: the status word exists,
  the kernel has marked it as free to go, and the kernel accepts it.
\<close>

definition FreeTask :: "(gtid \<Rightarrow> bool) \<Rightarrow> gtid \<Rightarrow> ('t, 'z) scheduler_scheme \<Rightarrow> ('t, 'z) scheduler_scheme option" where
  "FreeTask sw_free g s = do {
     CHECK (sw_free g);
     Some (s\<lparr>task_map := (task_map s)(g := None)\<rparr>) }"

text \<open>A store to the task behind a pointer.\<close>

definition upd_task :: "gtid \<Rightarrow> ('t \<Rightarrow> 't) \<Rightarrow> ('t, 'z) scheduler_scheme \<Rightarrow> ('t, 'z) scheduler_scheme option" where
  "upd_task g f s = (case task_map s g of None \<Rightarrow> None
     | Some t \<Rightarrow> Some (s\<lparr>task_map := (task_map s)(g \<mapsto> f t)\<rparr>))"

definition Advance :: "gtid \<Rightarrow> u32 \<Rightarrow> ('x task_scheme, 'z) scheduler_scheme \<Rightarrow> ('x task_scheme, 'z) scheduler_scheme option" where
  "Advance g next_seqnum s = do {
     t \<leftarrow> task_map s g;
     CHECK (seqnum t < next_seqnum);
     upd_task g (seqnum_update (\<lambda>_. next_seqnum)) s }"

lemma upd_task_Some:
  "upd_task g f s = Some s' \<longleftrightarrow> (\<exists>t. task_map s g = Some t \<and> s' = s\<lparr>task_map := (task_map s)(g \<mapsto> f t)\<rparr>)"
  by (auto simp: upd_task_def split: option.splits)

section \<open>Handlers and their dispatch\<close>

text \<open>The global table of status words, the verbosity flag, a new task, and the callbacks.\<close>

record ('t, 's) handlers =
  sw_words :: sw_table
  verbose :: int
  AllocTask :: "gtid \<Rightarrow> 't"
  TaskNew :: "gtid \<Rightarrow> message \<Rightarrow> 's \<Rightarrow> 's option"
  TaskRunnable :: "gtid \<Rightarrow> message \<Rightarrow> 's \<Rightarrow> 's option"
  TaskDead :: "gtid \<Rightarrow> message \<Rightarrow> 's \<Rightarrow> 's option"
  TaskDeparted :: "gtid \<Rightarrow> message \<Rightarrow> 's \<Rightarrow> 's option"
  TaskYield :: "gtid \<Rightarrow> message \<Rightarrow> 's \<Rightarrow> 's option"
  TaskBlocked :: "gtid \<Rightarrow> message \<Rightarrow> 's \<Rightarrow> 's option"
  TaskPreempted :: "gtid \<Rightarrow> message \<Rightarrow> 's \<Rightarrow> 's option"
  TaskSwitchto :: "gtid \<Rightarrow> message \<Rightarrow> 's \<Rightarrow> 's option"
  TaskAffinityChanged :: "gtid \<Rightarrow> message \<Rightarrow> 's \<Rightarrow> 's option"
  TaskPriorityChanged :: "gtid \<Rightarrow> message \<Rightarrow> 's \<Rightarrow> 's option"
  TaskOnCpuMsg :: "gtid \<Rightarrow> message \<Rightarrow> 's \<Rightarrow> 's option"
  TaskDiscovered :: "gtid \<Rightarrow> 's \<Rightarrow> 's option"
  DiscoveryStart :: "'s \<Rightarrow> 's option"
  DiscoveryComplete :: "'s \<Rightarrow> 's option"
  CpuTick :: "message \<Rightarrow> 's \<Rightarrow> 's option"
  CpuNotIdle :: "message \<Rightarrow> 's \<Rightarrow> 's option"
  CpuTimerExpired :: "message \<Rightarrow> 's \<Rightarrow> 's option"
  CpuAvailable :: "message \<Rightarrow> 's \<Rightarrow> 's option"
  CpuBusy :: "message \<Rightarrow> 's \<Rightarrow> 's option"
  AgentBlocked :: "message \<Rightarrow> 's \<Rightarrow> 's option"
  AgentWakeup :: "message \<Rightarrow> 's \<Rightarrow> 's option"

text \<open>The handlers that \<open>BasicDispatchScheduler\<close> defines with an empty body.\<close>

definition ignore_task :: "gtid \<Rightarrow> message \<Rightarrow> 's \<Rightarrow> 's option" where
  "ignore_task g m s = Some s"

definition ignore_msg :: "message \<Rightarrow> 's \<Rightarrow> 's option" where
  "ignore_msg m s = Some s"

type_synonym ('x, 'z) tsched = "('x task_scheme, 'z) scheduler_scheme"
type_synonym ('x, 'z) thandlers = "('x task_scheme, ('x, 'z) tsched) handlers"

definition dispatch_cpu :: "('t, 's) handlers \<Rightarrow> message \<Rightarrow> 's \<Rightarrow> 's option" where
  "dispatch_cpu H m =
     (if has_type m MSG_CPU_TICK then CpuTick H m
      else if has_type m MSG_CPU_NOT_IDLE then CpuNotIdle H m
      else if has_type m MSG_CPU_TIMER_EXPIRED then CpuTimerExpired H m
      else if has_type m MSG_CPU_AVAILABLE then CpuAvailable H m
      else if has_type m MSG_CPU_BUSY then CpuBusy H m
      else if has_type m MSG_CPU_AGENT_BLOCKED then AgentBlocked H m
      else if has_type m MSG_CPU_AGENT_WAKEUP then AgentWakeup H m
      else (\<lambda>s. None))"

text \<open>The switch over the task messages: the handler, and whether the sequence number advances.\<close>

definition task_handler :: "('t, 's) handlers \<Rightarrow> message \<Rightarrow> ((gtid \<Rightarrow> message \<Rightarrow> 's \<Rightarrow> 's option) \<times> bool) option" where
  "task_handler H m =
     (if has_type m MSG_NOP then None
      else if has_type m MSG_TASK_NEW then Some (TaskNew H, False)
      else if has_type m MSG_TASK_PREEMPT then Some (TaskPreempted H, True)
      else if has_type m MSG_TASK_DEAD then Some (TaskDead H, False)
      else if has_type m MSG_TASK_WAKEUP then Some (TaskRunnable H, True)
      else if has_type m MSG_TASK_BLOCKED then Some (TaskBlocked H, True)
      else if has_type m MSG_TASK_YIELD then Some (TaskYield H, True)
      else if has_type m MSG_TASK_DEPARTED then Some (TaskDeparted H, False)
      else if has_type m MSG_TASK_SWITCHTO then Some (TaskSwitchto H, True)
      else if has_type m MSG_TASK_AFFINITY_CHANGED then Some (TaskAffinityChanged H, True)
      else if has_type m MSG_TASK_PRIORITY_CHANGED then Some (TaskPriorityChanged H, True)
      else if has_type m MSG_TASK_ON_CPU then Some (TaskOnCpuMsg H, True)
      else None)"

definition dispatch_known :: "('x, 'z) thandlers \<Rightarrow> message \<Rightarrow> ('x, 'z) tsched \<Rightarrow> ('x, 'z) tsched option" where
  "dispatch_known H m s = do {
     (h, update_seqnum) \<leftarrow> task_handler H m;
     s \<leftarrow> h (msg_gtid m) m s;
     (if update_seqnum then Advance (msg_gtid m) (msg_seqnum m) s else Some s) }"

definition DispatchMessage :: "('x, 'z) thandlers \<Rightarrow> message \<Rightarrow> ('x, 'z) tsched \<Rightarrow> ('x, 'z) tsched option" where
  "DispatchMessage H m s =
     (if has_type m MSG_NOP then Some s
      else if is_cpu_msg m then dispatch_cpu H m s
      else do {
        dprint_message (verbose H) 3 m;
        CHECK (msg_gtid m \<noteq> 0);
        if has_type m MSG_TASK_NEW
        then do {
          (s, allocated) \<leftarrow> GetTask_alloc (sw_words H) (msg_sw_info m) (AllocTask H (msg_gtid m)) (msg_gtid m) s;
          if \<not> allocated then Some s else dispatch_known H m s }
        else (case GetTask s (msg_gtid m) of
            None \<Rightarrow> do { dprint_message (verbose H) 0 m; Some s }
          | Some t \<Rightarrow> dispatch_known H m s) })"

section \<open>Discovery of existing tasks\<close>

text \<open>
  What one read of a status word gives, and what the kernel answers to the association with
  the default channel.  Both come from the kernel and may differ between the attempts.
\<close>

record sw_read =
  sw_barrier :: u32
  sw_flags :: u32
  sw_runtime :: u64
  sw_gtid :: gtid

datatype assoc_result = Assoc_ok u32 | Assoc_ENOENT | Assoc_ESTALE | Assoc_errno

definition GHOST_SW_F_INUSE :: u32 where "GHOST_SW_F_INUSE = push_bit 0 1"
definition GHOST_SW_F_CANFREE :: u32 where "GHOST_SW_F_CANFREE = push_bit 1 1"
definition GHOST_SW_TASK_RUNNABLE :: u32 where "GHOST_SW_TASK_RUNNABLE = push_bit 17 1"
definition GHOST_SW_TASK_IS_AGENT :: u32 where "GHOST_SW_TASK_IS_AGENT = push_bit 18 1"
definition GHOST_ASSOC_SF_ALREADY :: u32 where "GHOST_ASSOC_SF_ALREADY = push_bit 0 1"
definition GHOST_ASSOC_SF_BRAND_NEW :: u32 where "GHOST_ASSOC_SF_BRAND_NEW = push_bit 1 1"

text \<open>
  The message that is synthesised for a discovered task (its payload struct is 40 bytes).  The
  code does not write the \<open>nice\<close> field of the struct on the stack: \<open>stack_nice\<close> is what it holds.
\<close>

definition synth_task_new :: "int \<Rightarrow> sw_info \<Rightarrow> sw_read \<Rightarrow> message" where
  "synth_task_new stack_nice i w = \<lparr>msg_type = type_num MSG_TASK_NEW, msg_length = 8 + 40, msg_seqnum = sw_barrier w,
     msg_gtid = sw_gtid w, runnable = (sw_flags w AND GHOST_SW_TASK_RUNNABLE \<noteq> 0), deferrable = False,
     from_switchto = False, msg_cpu = 0, runtime = sw_runtime w, nice = stack_nice, msg_sw_info = i\<rparr>"

text \<open>
  The environment of one status word: its flags when the scan reaches it, the kernel's answers
  in the first attempt (\<open>answer False\<close>) and in the attempt after an \<open>ESTALE\<close> (\<open>answer True\<close>),
  whether \<open>FreeStatusWordInfo\<close> succeeds, whether the status word of the task can be freed, and
  the stack's content.
\<close>

record sw_env =
  scan_flags :: u32
  answer :: "bool \<Rightarrow> sw_read \<times> assoc_result"
  free_info_ok :: bool
  free_ok :: "gtid \<Rightarrow> bool"
  stack_nice :: int
  swi :: sw_info

function discover_sw :: "('x, 'z) thandlers \<Rightarrow> sw_env \<Rightarrow> bool \<Rightarrow> ('x, 'z) tsched \<Rightarrow> ('x, 'z) tsched option" where
  "discover_sw H e had_estale s = (case answer e had_estale of (w, res) \<Rightarrow> (case res of
     Assoc_ENOENT \<Rightarrow> do {
       (s, allocated) \<leftarrow> GetTask_alloc (sw_words H) (swi e) (AllocTask H (sw_gtid w)) (sw_gtid w) s;
       if \<not> allocated then None else FreeTask (free_ok e) (sw_gtid w) s }
   | Assoc_ESTALE \<Rightarrow>
       if sw_flags w AND GHOST_SW_F_CANFREE \<noteq> 0 then do { CHECK (free_info_ok e); Some s }
       else if had_estale then None
       else discover_sw H e True s
   | Assoc_errno \<Rightarrow> None
   | Assoc_ok status \<Rightarrow>
       if status AND (GHOST_ASSOC_SF_ALREADY OR GHOST_ASSOC_SF_BRAND_NEW) \<noteq> 0 then Some s
       else do {
         (s, allocated) \<leftarrow> GetTask_alloc (sw_words H) (swi e) (AllocTask H (sw_gtid w)) (sw_gtid w) s;
         if \<not> allocated then None
         else do { s \<leftarrow> TaskNew H (sw_gtid w) (synth_task_new (stack_nice e) (swi e) w) s; TaskDiscovered H (sw_gtid w) s } }))"
  by pat_completeness auto
termination by (relation "measure (\<lambda>(H, e, had_estale, s). if had_estale then 0 else 1)") auto

declare discover_sw.simps [simp del]

text \<open>\<open>ForEachTaskStatusWord\<close> over the table of status words.\<close>

definition ForEachTaskStatusWord :: "(sw_env \<Rightarrow> 's \<Rightarrow> 's option) \<Rightarrow> sw_env list \<Rightarrow> 's \<Rightarrow> 's option" where
  "ForEachTaskStatusWord l = mfold (\<lambda>e s.
     if scan_flags e AND GHOST_SW_F_INUSE = 0 then Some s
     else if scan_flags e AND GHOST_SW_TASK_IS_AGENT \<noteq> 0 then Some s
     else l e s)"

definition DiscoverTasks :: "('x, 'z) thandlers \<Rightarrow> sw_env list \<Rightarrow> ('x, 'z) tsched \<Rightarrow> ('x, 'z) tsched option" where
  "DiscoverTasks H sws s = do {
     s \<leftarrow> DiscoveryStart H s;
     s \<leftarrow> ForEachTaskStatusWord (\<lambda>e. discover_sw H e False) sws s;
     DiscoveryComplete H s }"

section \<open>Waiting for a task to leave its CPU\<close>

text \<open>\<open>while (next->status_word.on_cpu()) Pause();\<close> where \<open>on_cpu k\<close> is what the k-th read gives.\<close>

partial_function (option) wait_off_cpu :: "(nat \<Rightarrow> bool) \<Rightarrow> nat \<Rightarrow> nat option" where
  "wait_off_cpu on_cpu k = (if on_cpu k then wait_off_cpu on_cpu (k + 1) else Some k)"

definition RTLA_ON_IDLE :: int where "RTLA_ON_IDLE = 32"

lemma wait_ends: "\<not> f (k + j) \<Longrightarrow> \<exists>i. wait_off_cpu f k = Some i \<and> \<not> f i"
proof (induction j arbitrary: k)
  case 0
  then show ?case by (subst wait_off_cpu.simps) simp
next
  case (Suc j)
  then show ?case using Suc.IH [of "k + 1"] by (subst wait_off_cpu.simps) (cases "f k"; simp)
qed

lemma wait_done: "\<exists>k. \<not> f k \<Longrightarrow> \<exists>i. wait_off_cpu f 0 = Some i"
  using wait_ends [of f 0] by auto

section \<open>The switch of the dispatcher\<close>

lemma task_handler_cases:
  "has_type m MSG_TASK_NEW \<Longrightarrow> task_handler H m = Some (TaskNew H, False)"
  "has_type m MSG_TASK_PREEMPT \<Longrightarrow> task_handler H m = Some (TaskPreempted H, True)"
  "has_type m MSG_TASK_DEAD \<Longrightarrow> task_handler H m = Some (TaskDead H, False)"
  "has_type m MSG_TASK_WAKEUP \<Longrightarrow> task_handler H m = Some (TaskRunnable H, True)"
  "has_type m MSG_TASK_BLOCKED \<Longrightarrow> task_handler H m = Some (TaskBlocked H, True)"
  "has_type m MSG_TASK_YIELD \<Longrightarrow> task_handler H m = Some (TaskYield H, True)"
  "has_type m MSG_TASK_DEPARTED \<Longrightarrow> task_handler H m = Some (TaskDeparted H, False)"
  "has_type m MSG_TASK_SWITCHTO \<Longrightarrow> task_handler H m = Some (TaskSwitchto H, True)"
  "has_type m MSG_TASK_AFFINITY_CHANGED \<Longrightarrow> task_handler H m = Some (TaskAffinityChanged H, True)"
  "has_type m MSG_TASK_PRIORITY_CHANGED \<Longrightarrow> task_handler H m = Some (TaskPriorityChanged H, True)"
  "has_type m MSG_TASK_ON_CPU \<Longrightarrow> task_handler H m = Some (TaskOnCpuMsg H, True)"
  "has_type m MSG_TASK_LATCH_FAILURE \<Longrightarrow> task_handler H m = None"
  by (simp_all only: task_handler_def type_num_inject ghost_msg_type.distinct if_False if_True simp_thms)

text \<open>The handlers of the messages other than \<open>MSG_TASK_NEW\<close>.\<close>

definition later_handlers :: "('t, 's) handlers \<Rightarrow> (gtid \<Rightarrow> message \<Rightarrow> 's \<Rightarrow> 's option) set" where
  "later_handlers H = {TaskRunnable H, TaskDead H, TaskDeparted H, TaskYield H, TaskBlocked H, TaskPreempted H,
     TaskSwitchto H, TaskAffinityChanged H, TaskPriorityChanged H, TaskOnCpuMsg H}"

definition cpu_handlers :: "('t, 's) handlers \<Rightarrow> (message \<Rightarrow> 's \<Rightarrow> 's option) set" where
  "cpu_handlers H = {CpuTick H, CpuNotIdle H, CpuTimerExpired H, CpuAvailable H, CpuBusy H, AgentBlocked H, AgentWakeup H}"

lemma task_handler_later:
  "task_handler H m = Some (h, u) \<Longrightarrow> \<not> has_type m MSG_TASK_NEW \<Longrightarrow> h \<in> later_handlers H"
  by (auto simp: task_handler_def later_handlers_def split: if_splits)

lemma task_handler_new: "task_handler H m = Some (h, u) \<Longrightarrow> has_type m MSG_TASK_NEW \<Longrightarrow> h = TaskNew H \<and> \<not> u"
  by (simp add: task_handler_cases)

lemma dispatch_cpu_handler: "dispatch_cpu H m s = Some s' \<Longrightarrow> \<exists>h \<in> cpu_handlers H. h m s = Some s'"
  by (auto simp: dispatch_cpu_def cpu_handlers_def split: if_splits)

text \<open>The ways a dispatch returns.\<close>

lemma dispatch_elim:
  assumes "DispatchMessage H m s = Some s'"
  obtains (nop) "has_type m MSG_NOP" "s' = s"
  | (cpu) h where "is_cpu_msg m" "h \<in> cpu_handlers H" "h m s = Some s'"
  | (known) "msg_gtid m \<noteq> 0" "has_type m MSG_TASK_NEW" "msg_gtid m \<in> dom (task_map s)" "s' = s"
  | (new) "msg_gtid m \<noteq> 0" "has_type m MSG_TASK_NEW" "task_map s (msg_gtid m) = None"
      "TaskNew H (msg_gtid m) m (s\<lparr>task_map := (task_map s)(msg_gtid m \<mapsto> AllocTask H (msg_gtid m))\<rparr>) = Some s'"
  | (unknown) "msg_gtid m \<noteq> 0" "\<not> has_type m MSG_TASK_NEW" "task_map s (msg_gtid m) = None" "s' = s"
  | (later) h t s1 where "msg_gtid m \<noteq> 0" "\<not> has_type m MSG_TASK_NEW" "task_map s (msg_gtid m) = Some t"
      "h \<in> later_handlers H" "h (msg_gtid m) m s = Some s1" "task_handler H m = Some (h, False)" "s' = s1"
  | (advance) h t s1 where "msg_gtid m \<noteq> 0" "\<not> has_type m MSG_TASK_NEW" "task_map s (msg_gtid m) = Some t"
      "h \<in> later_handlers H" "h (msg_gtid m) m s = Some s1" "task_handler H m = Some (h, True)"
      "Advance (msg_gtid m) (msg_seqnum m) s1 = Some s'"
proof (cases "has_type m MSG_NOP \<or> is_cpu_msg m")
  case True
  then show thesis using assms nop cpu dispatch_cpu_handler unfolding DispatchMessage_def
    by (metis option.inject)
next
  case False
  let ?g = "msg_gtid m"
  have g: "?g \<noteq> 0" "dprint_message (verbose H) 3 m = Some ()"
    using assms False by (auto simp: DispatchMessage_def bind_eq_Some_conv)
  show thesis
  proof (cases "has_type m MSG_TASK_NEW")
    case True
    show thesis
    proof (cases "task_map s ?g")
      case None
      then have "dispatch_known H m (s\<lparr>task_map := (task_map s)(?g \<mapsto> AllocTask H ?g)\<rparr>) = Some s'"
        using assms False True g by (auto simp: DispatchMessage_def GetTask_alloc_def GetTask_def bind_eq_Some_conv)
      then have "TaskNew H ?g m (s\<lparr>task_map := (task_map s)(?g \<mapsto> AllocTask H ?g)\<rparr>) = Some s'"
        using True by (simp add: dispatch_known_def task_handler_cases bind_eq_Some_conv)
      then show thesis using new g True None by blast
    next
      case (Some t)
      then show thesis using assms False True g known by (simp add: DispatchMessage_def GetTask_alloc_def GetTask_def domIff)
    qed
  next
    case new: False
    show thesis
    proof (cases "task_map s ?g")
      case None
      then show thesis using assms False new g unknown by (auto simp: DispatchMessage_def GetTask_def bind_eq_Some_conv)
    next
      case (Some t)
      then have "dispatch_known H m s = Some s'" using assms False new g by (simp add: DispatchMessage_def GetTask_def)
      then obtain h u s1 where h: "task_handler H m = Some (h, u)" "h ?g m s = Some s1"
        "(if u then Advance ?g (msg_seqnum m) s1 else Some s1) = Some s'"
        by (auto simp: dispatch_known_def bind_eq_Some_conv)
      then show thesis using later [OF g(1) new Some] advance [OF g(1) new Some] task_handler_later [OF h(1) new]
        by (cases u) auto
    qed
  qed
qed

section \<open>Contracts of a scheduler\<close>

text \<open>
  The invariant of a scheduler: its handlers keep it, one message at a time.  \<open>'k\<close> is what the
  handlers learn from the kernel; it may differ from message to message.
\<close>

locale handler_contract =
  fixes H :: "'k \<Rightarrow> ('x, 'z) thandlers"
    and Inv :: "('x, 'z) tsched \<Rightarrow> bool"
  assumes new: "Inv s \<Longrightarrow> task_map s g = None \<Longrightarrow>
      TaskNew (H k) g m (s\<lparr>task_map := (task_map s)(g \<mapsto> AllocTask (H k) g)\<rparr>) = Some s' \<Longrightarrow> Inv s'"
    and later: "Inv s \<Longrightarrow> task_map s g = Some t \<Longrightarrow> h \<in> later_handlers (H k) \<Longrightarrow> h g m s = Some s' \<Longrightarrow> Inv s'"
    and cpu: "Inv s \<Longrightarrow> c \<in> cpu_handlers (H k) \<Longrightarrow> c m s = Some s' \<Longrightarrow> Inv s'"
    and advance: "Inv s \<Longrightarrow> task_map s g = Some t \<Longrightarrow>
      Inv (s\<lparr>task_map := (task_map s)(g \<mapsto> t\<lparr>seqnum := n\<rparr>)\<rparr>)"
    and discovered: "Inv s \<Longrightarrow> TaskDiscovered (H k) g s = Some s' \<Longrightarrow> Inv s'"
    and start: "Inv s \<Longrightarrow> DiscoveryStart (H k) s = Some s' \<Longrightarrow> Inv s'"
    and complete: "Inv s \<Longrightarrow> DiscoveryComplete (H k) s = Some s' \<Longrightarrow> Inv s'"
begin

lemma advance_inv: "Inv s \<Longrightarrow> Advance g n s = Some s' \<Longrightarrow> Inv s'"
  using advance by (auto simp: Advance_def upd_task_def bind_eq_Some_conv split: option.splits)

lemma dispatch_inv:
  assumes "DispatchMessage (H k) m s = Some s'" and "Inv s" shows "Inv s'"
  using assms(1)
proof (cases rule: dispatch_elim)
  case (cpu h)
  then show ?thesis using assms(2) handler_contract.cpu [OF handler_contract_axioms] by blast
next
  case new
  then show ?thesis using assms(2) handler_contract.new [OF handler_contract_axioms] by blast
next
  case (later h t s1)
  then show ?thesis using assms(2) handler_contract.later [OF handler_contract_axioms] by blast
next
  case (advance h t s1)
  then show ?thesis using assms(2) handler_contract.later [OF handler_contract_axioms] advance_inv by blast
qed (use assms(2) in simp_all)

lemma dispatch_all_inv:
  "mfold (\<lambda>m. DispatchMessage (H (env m)) m) ms s = Some s' \<Longrightarrow> Inv s \<Longrightarrow> Inv s'"
  by (erule mfold_inv) (auto intro: dispatch_inv)

lemma discover_sw_inv:
  assumes "discover_sw (H k) e b s = Some s'" and "Inv s" shows "Inv s'"
  using assms
proof (induction "H k" e b s rule: discover_sw.induct)
  case (1 e b s)
  obtain w res where a: "answer e b = (w, res)" by force
  show ?case
  proof (cases res)
    case (Assoc_ok st)
    then show ?thesis using 1(2) [unfolded discover_sw.simps [of "H k" e b s]] "1.prems"(2) a
      by (auto simp: GetTask_alloc_def GetTask_def bind_eq_Some_conv split: if_splits option.splits
          intro: discovered [OF new])
  next
    case Assoc_ENOENT
    then have "task_map s (sw_gtid w) = None"
      and s': "s' = s\<lparr>task_map := (task_map s)(sw_gtid w := None)\<rparr>"
      using 1(2) a by (auto simp: discover_sw.simps [of "H k" e b s] GetTask_alloc_def GetTask_def FreeTask_def bind_eq_Some_conv split: option.splits)
    then have "s' = s" by (simp add: fun_upd_idem)
    then show ?thesis using "1.prems"(2) by simp
  next
    case Assoc_ESTALE
    then show ?thesis using 1 a
      by (auto simp: discover_sw.simps [of "H k" e b s] split: if_splits)
  next
    case Assoc_errno
    then show ?thesis using 1(2) a by (simp add: discover_sw.simps [of "H k" e b s])
  qed
qed

lemma discover_inv:
  assumes "DiscoverTasks (H k) sws s = Some s'" and "Inv s" shows "Inv s'"
proof -
  obtain s1 s2 where s: "DiscoveryStart (H k) s = Some s1"
    "ForEachTaskStatusWord (\<lambda>e. discover_sw (H k) e False) sws s1 = Some s2" "DiscoveryComplete (H k) s2 = Some s'"
    using assms(1) by (auto simp: DiscoverTasks_def bind_eq_Some_conv)
  have "Inv s1" using start [OF assms(2) s(1)] .
  then have "Inv s2"
  proof (rule mfold_inv [OF s(2) [unfolded ForEachTaskStatusWord_def]])
    fix e s s'
    assume "Inv s" "(if scan_flags e AND GHOST_SW_F_INUSE = 0 then Some s
      else if scan_flags e AND GHOST_SW_TASK_IS_AGENT \<noteq> 0 then Some s else discover_sw (H k) e False s) = Some s'"
    then show "Inv s'" using discover_sw_inv by (auto split: if_splits)
  qed
  then show ?thesis using complete [OF _ s(3)] by blast
qed

end

text \<open>The message is processed against task \<open>g\<close>, and the dispatcher advances its sequence number.\<close>

definition about :: "gtid \<Rightarrow> message \<Rightarrow> bool" where
  "about g m \<longleftrightarrow> \<not> has_type m MSG_NOP \<and> \<not> is_cpu_msg m \<and> msg_gtid m = g"

definition advances :: "message \<Rightarrow> bool" where
  "advances m \<longleftrightarrow> \<not> has_type m MSG_TASK_NEW \<and> \<not> has_type m MSG_TASK_DEAD \<and> \<not> has_type m MSG_TASK_DEPARTED"

text \<open>The sequence numbers of these messages, in the order in which they are dispatched.\<close>

definition seqnums_of :: "gtid \<Rightarrow> message list \<Rightarrow> u32 list" where
  "seqnums_of g ms = map msg_seqnum (filter (\<lambda>m. about g m \<and> advances m) ms)"

lemma handler_advances: "task_handler H m = Some (h, u) \<Longrightarrow> u \<longleftrightarrow> advances m"
  by (auto simp: task_handler_def advances_def type_num_inject split: if_splits)

text \<open>Sequence numbers: only \<open>TaskNew\<close> sets one, the other handlers keep those of all tasks that remain.\<close>

locale seqnum_contract =
  fixes H :: "'k \<Rightarrow> ('x, 'z) thandlers"
  assumes new_seq: "TaskNew (H k) g m s = Some s' \<Longrightarrow> g' \<noteq> g \<Longrightarrow>
      map_option seqnum (task_map s' g') = map_option seqnum (task_map s g')"
    and new_seq_self: "TaskNew (H k) g m s = Some s' \<Longrightarrow> map_option seqnum (task_map s' g) = Some (msg_seqnum m)"
    and later_seq: "h \<in> later_handlers (H k) \<Longrightarrow> h g m s = Some s' \<Longrightarrow> task_map s' g' \<noteq> None \<Longrightarrow>
      map_option seqnum (task_map s' g') = map_option seqnum (task_map s g')"
    and other_tasks: "h \<in> later_handlers (H k) \<Longrightarrow> h g m s = Some s' \<Longrightarrow> g' \<noteq> g \<Longrightarrow>
      task_map s' g' = None \<longleftrightarrow> task_map s g' = None"
    and cpu_seq: "c \<in> cpu_handlers (H k) \<Longrightarrow> c m s = Some s' \<Longrightarrow>
      map_option seqnum (task_map s' g') = map_option seqnum (task_map s g')"
begin

lemma dispatch_seq:
  assumes "DispatchMessage (H k) m s = Some s'" and "task_map s g = Some t"
    and "about g m \<Longrightarrow> \<not> has_type m MSG_TASK_DEAD \<and> \<not> has_type m MSG_TASK_DEPARTED"
  shows "\<exists>t'. task_map s' g = Some t' \<and> (if about g m \<and> advances m
    then seqnum t < msg_seqnum m \<and> seqnum t' = msg_seqnum m else seqnum t' = seqnum t)"
  using assms(1)
proof (cases rule: dispatch_elim)
  case nop
  then show ?thesis using assms(2) by (simp add: about_def)
next
  case (cpu h)
  have "map_option seqnum (task_map s' g) = Some (seqnum t)" using cpu_seq [OF cpu(2, 3)] assms(2) by simp
  then show ?thesis using cpu(1) by (auto simp: about_def)
next
  case known
  then show ?thesis using assms(2) by (simp add: advances_def)
next
  case new
  then have "g \<noteq> msg_gtid m" using assms(2) by auto
  then have "map_option seqnum (task_map s' g) = Some (seqnum t)" using new_seq [OF new(4)] assms(2) by auto
  then show ?thesis using \<open>g \<noteq> msg_gtid m\<close> by (auto simp: about_def)
next
  case unknown
  then have "g \<noteq> msg_gtid m" using assms(2) by auto
  then show ?thesis using unknown assms(2) by (auto simp: about_def)
next
  case (later h t0 s1)
  have "\<not> advances m" using handler_advances [OF later(6)] by simp
  moreover have "g \<noteq> msg_gtid m"
  proof
    assume "g = msg_gtid m"
    moreover have "\<not> has_type m MSG_NOP" using later(6) by (auto simp: task_handler_def)
    moreover have "\<not> is_cpu_msg m"
    proof
      assume "is_cpu_msg m"
      then show False using \<open>\<not> advances m\<close> later(2)
        by (auto simp: advances_def is_cpu_msg_def type_num_simps)
    qed
    ultimately have "about g m" by (simp add: about_def)
    then show False using assms(3) \<open>\<not> advances m\<close> later(2) by (auto simp: advances_def)
  qed
  ultimately show ?thesis
    using later_seq [OF later(4, 5), of g] other_tasks [OF later(4, 5), of g] assms(2) later(7)
    by (cases "task_map s1 g") (auto simp: about_def)
next
  case (advance h t0 s1)
  obtain t1 where t1: "task_map s1 (msg_gtid m) = Some t1" "seqnum t1 < msg_seqnum m"
    and s': "s' = s1\<lparr>task_map := (task_map s1)(msg_gtid m \<mapsto> t1\<lparr>seqnum := msg_seqnum m\<rparr>)\<rparr>"
    using advance(7) by (auto simp: Advance_def upd_task_def bind_eq_Some_conv split: option.splits)
  show ?thesis
  proof (cases "g = msg_gtid m")
    case True
    have "seqnum t1 = seqnum t" using later_seq [OF advance(4, 5), of g] t1(1) assms(2) True by simp
    moreover have "advances m" using handler_advances [OF advance(6)] by simp
    moreover have "about g m"
    proof -
      have "\<not> is_cpu_msg m" using advance(6)
        by (auto simp: task_handler_def is_cpu_msg_def type_num_simps split: if_splits)
      moreover have "\<not> has_type m MSG_NOP" using advance(6) by (auto simp: task_handler_def)
      ultimately show ?thesis using True by (simp add: about_def)
    qed
    ultimately show ?thesis using t1 s' True by simp
  next
    case False
    then show ?thesis using later_seq [OF advance(4, 5), of g] other_tasks [OF advance(4, 5), of g] assms(2) s'
      by (cases "task_map s1 g") (auto simp: about_def)
  qed
qed

lemma run_seq:
  assumes "mfold (\<lambda>m. DispatchMessage (H (env m)) m) ms s = Some s'" and "task_map s g = Some t"
    and "\<forall>m \<in> set ms. about g m \<longrightarrow> \<not> has_type m MSG_TASK_DEAD \<and> \<not> has_type m MSG_TASK_DEPARTED"
  shows "\<exists>t'. task_map s' g = Some t' \<and> sorted_wrt (<) (seqnum t # seqnums_of g ms) \<and> seqnum t' = last (seqnum t # seqnums_of g ms)"
  using assms(1-3)
proof (induction ms arbitrary: s t)
  case Nil
  then show ?case by (simp add: seqnums_of_def)
next
  case (Cons m ms)
  obtain s1 where s1: "DispatchMessage (H (env m)) m s = Some s1"
    "mfold (\<lambda>m. DispatchMessage (H (env m)) m) ms s1 = Some s'"
    using Cons.prems(1) by (auto simp: bind_eq_Some_conv)
  obtain t1 where t1: "task_map s1 g = Some t1" "if about g m \<and> advances m
      then seqnum t < msg_seqnum m \<and> seqnum t1 = msg_seqnum m else seqnum t1 = seqnum t"
    using dispatch_seq [OF s1(1) Cons.prems(2)] Cons.prems(3) by auto
  obtain t' where t': "task_map s' g = Some t'" "sorted_wrt (<) (seqnum t1 # seqnums_of g ms)"
    "seqnum t' = last (seqnum t1 # seqnums_of g ms)"
    using Cons.IH [OF s1(2) t1(1)] Cons.prems(3) by auto
  show ?case
  proof (cases "about g m \<and> advances m")
    case True
    then have "seqnums_of g (m # ms) = seqnum t1 # seqnums_of g ms" "seqnum t < seqnum t1" using t1(2) by (auto simp: seqnums_of_def)
    then show ?thesis using t' by (auto intro: less_trans)
  next
    case False
    then have "seqnums_of g (m # ms) = seqnums_of g ms" "seqnum t1 = seqnum t" using t1(2) by (auto simp: seqnums_of_def)
    then show ?thesis using t' by simp
  qed
qed

end


section \<open>Properties\<close>

text \<open>A scheduler whose handlers do nothing, for the examples.\<close>

definition ex_handlers :: "(unit, unit) thandlers" where
  "ex_handlers = \<lparr>sw_words = \<lparr>table_id = 0, capacity = 16\<rparr>, verbose = 0, AllocTask = (\<lambda>_. \<lparr>seqnum = 0\<rparr>), TaskNew = ignore_task, TaskRunnable = ignore_task, TaskDead = ignore_task,
     TaskDeparted = ignore_task, TaskYield = ignore_task, TaskBlocked = ignore_task, TaskPreempted = ignore_task,
     TaskSwitchto = ignore_task, TaskAffinityChanged = ignore_task, TaskPriorityChanged = ignore_task,
     TaskOnCpuMsg = ignore_task, TaskDiscovered = (\<lambda>g s. Some s), DiscoveryStart = Some, DiscoveryComplete = Some,
     CpuTick = ignore_msg, CpuNotIdle = ignore_msg, CpuTimerExpired = ignore_msg, CpuAvailable = ignore_msg,
     CpuBusy = ignore_msg, AgentBlocked = ignore_msg, AgentWakeup = ignore_msg\<rparr>"

definition ex_msg :: "ghost_msg_type \<Rightarrow> gtid \<Rightarrow> u32 \<Rightarrow> message" where
  "ex_msg t g n = \<lparr>msg_type = type_num t, msg_length = 24, msg_seqnum = n, msg_gtid = g, runnable = True, deferrable = True,
     from_switchto = False, msg_cpu = 0, runtime = 0, nice = 0, msg_sw_info = \<lparr>sw_id = 0, sw_index = 3\<rparr>\<rparr>"

lemma dprint_unknown: "describe_type m = None \<Longrightarrow> dprint_message v l m = (if v < l then Some () else None)"
  by (simp add: dprint_message_def)

lemma dispatch_undeclared:
  assumes "describe_type m = None" "\<not> is_cpu_msg m"
  shows "DispatchMessage H m s = (if verbose H < 0 \<and> msg_gtid m \<noteq> 0 \<and> task_map s (msg_gtid m) = None then Some s else None)"
proof -
  have t: "\<not> has_type m t" for t using assms(1) by (simp add: describe_type_None)
  then have "task_handler H m = None" by (simp add: task_handler_def del: type_num.simps)
  then have "dispatch_known H m s = None" by (simp add: dispatch_known_def)
  then show ?thesis
    using assms(2) t dprint_unknown [OF assms(1)]
    by (cases "task_map s (msg_gtid m)") (simp_all add: DispatchMessage_def GetTask_def CHECK_def del: type_num.simps)
qed

text \<open>
  C17. The dispatcher's error paths.  A task message with gtid 0 aborts.  A message whose type is not
  declared and is not in the range of the CPU messages aborts, if not in the switch then when it is printed; only with a
  negative verbosity is it dropped, and then only for a task that is not known.  A message of a declared
  type for a task that is not known, and a \<open>MSG_TASK_NEW\<close> for a task that is, are dropped without any effect.
  A \<open>MSG_TASK_NEW\<close> for a new task aborts when its status word is not one of the global table.  The declared type
  \<open>MSG_TASK_LATCH_FAILURE\<close> has no handler and aborts for a known task, and a CPU message without a handler
  aborts.  \<open>MSG_NOP\<close> has no effect.
\<close>

theorem dispatch_error_paths:
  "(\<not> has_type m MSG_NOP \<longrightarrow> \<not> is_cpu_msg m \<longrightarrow> msg_gtid m = 0 \<longrightarrow> DispatchMessage H m s = None)
    \<and> ((\<forall>t. \<not> has_type m t) \<longrightarrow> \<not> is_cpu_msg m \<longrightarrow> DispatchMessage H m s
         = (if verbose H < 0 \<and> msg_gtid m \<noteq> 0 \<and> task_map s (msg_gtid m) = None then Some s else None))
    \<and> (is_task_msg m \<longrightarrow> (\<exists>t. has_type m t) \<longrightarrow> msg_gtid m \<noteq> 0 \<longrightarrow> (has_type m MSG_TASK_NEW \<longleftrightarrow> task_map s (msg_gtid m) \<noteq> None)
         \<longrightarrow> DispatchMessage H m s = Some s)
    \<and> (has_type m MSG_TASK_NEW \<longrightarrow> task_map s (msg_gtid m) = None
         \<longrightarrow> sw_id (msg_sw_info m) \<noteq> table_id (sw_words H) \<or> capacity (sw_words H) \<le> sw_index (msg_sw_info m)
         \<longrightarrow> DispatchMessage H m s = None)
    \<and> (has_type m MSG_TASK_LATCH_FAILURE \<longrightarrow> task_map s (msg_gtid m) \<noteq> None \<longrightarrow> DispatchMessage H m s = None)
    \<and> (is_cpu_msg m \<longrightarrow> type_num MSG_CPU_AGENT_WAKEUP < msg_type m \<longrightarrow> DispatchMessage H m s = None)
    \<and> (has_type m MSG_NOP \<longrightarrow> DispatchMessage H m s = Some s)"
proof (intro conjI impI)
  assume "\<forall>t. \<not> has_type m t" "\<not> is_cpu_msg m"
  then show "DispatchMessage H m s = (if verbose H < 0 \<and> msg_gtid m \<noteq> 0 \<and> task_map s (msg_gtid m) = None then Some s else None)"
    using dispatch_undeclared describe_type_None by blast
next
  assume task: "is_task_msg m" and "\<exists>t. has_type m t" and *: "msg_gtid m \<noteq> 0" "has_type m MSG_TASK_NEW \<longleftrightarrow> task_map s (msg_gtid m) \<noteq> None"
  then have "dprint_message v l m = Some ()" for v l by auto
  moreover have "\<not> has_type m MSG_NOP" "\<not> is_cpu_msg m"
    using task by (auto simp: is_task_msg_def is_cpu_msg_def type_num_simps word_le_nat_alt)
  ultimately show "DispatchMessage H m s = Some s"
    using * by (auto simp: DispatchMessage_def GetTask_def GetTask_alloc_def split: option.splits)
next
  assume n: "has_type m MSG_TASK_NEW" "task_map s (msg_gtid m) = None"
    "sw_id (msg_sw_info m) \<noteq> table_id (sw_words H) \<or> capacity (sw_words H) \<le> sw_index (msg_sw_info m)"
  then have "GetTask_alloc (sw_words H) (msg_sw_info m) t (msg_gtid m) s = None" for t
    by (auto simp: GetTask_alloc_def GetTask_def status_word_from_info_def CHECK_def)
  moreover have "\<not> has_type m MSG_NOP" "\<not> is_cpu_msg m" using n(1) type_classes(1) [OF n(1)] by (auto simp: type_num_simps)
  ultimately show "DispatchMessage H m s = None"
    using n(1) by (simp add: DispatchMessage_def CHECK_def del: type_num.simps)
next
  assume l: "has_type m MSG_TASK_LATCH_FAILURE" "task_map s (msg_gtid m) \<noteq> None"
  have "dispatch_known H m s = None" using task_handler_cases(12) [OF l(1), of H] by (simp add: dispatch_known_def)
  moreover have "\<not> has_type m MSG_NOP" "\<not> is_cpu_msg m" "\<not> has_type m MSG_TASK_NEW"
    using l(1) type_classes(1) [OF l(1)] by (auto simp: type_num_inject simp del: type_num.simps)
  ultimately show "DispatchMessage H m s = None"
    using l by (auto simp: DispatchMessage_def GetTask_def CHECK_def simp del: type_num.simps)
next
  assume "is_cpu_msg m" "type_num MSG_CPU_AGENT_WAKEUP < msg_type m"
  then show "DispatchMessage H m s = None"
    by (auto simp: DispatchMessage_def dispatch_cpu_def type_num_simps)
qed (auto simp: DispatchMessage_def CHECK_def)

theorem dispatch_error_paths_witness:
  "DispatchMessage ex_handlers (ex_msg MSG_TASK_LATCH_FAILURE 7 1) \<lparr>task_map = [7 \<mapsto> \<lparr>seqnum = 0\<rparr>]\<rparr> = None
   \<and> DispatchMessage ex_handlers ((ex_msg MSG_TASK_NEW 9 1)\<lparr>msg_sw_info := \<lparr>sw_id = 0, sw_index = 16\<rparr>\<rparr>) \<lparr>task_map = Map.empty\<rparr> = None"
  using dispatch_error_paths [of "ex_msg MSG_TASK_LATCH_FAILURE 7 1" ex_handlers "\<lparr>task_map = [7 \<mapsto> \<lparr>seqnum = 0\<rparr>]\<rparr>"]
    dispatch_error_paths [of "(ex_msg MSG_TASK_NEW 9 1)\<lparr>msg_sw_info := \<lparr>sw_id = 0, sw_index = 16\<rparr>\<rparr>" ex_handlers "\<lparr>task_map = Map.empty\<rparr>"]
  by (simp add: ex_msg_def ex_handlers_def)

end
