(* ===== verification/Fifo_PerCpu.thy ===== *)
theory Fifo_PerCpu
  imports Dispatch Cpu_Map
begin

unbundle bit_operations_syntax

text \<open>
  The per-CPU FIFO scheduler of \<open>schedulers/fifo/per_cpu\<close>: its task states, run queues, message
  handlers and the scheduling step of an agent.  A \<open>FifoTask*\<close> is the gtid of the task.  What the
  kernel decides (associations, freed status words, transaction commits, whether a task is
  still on a CPU) is an argument; pings, transactions and yields are recorded in logs.
\<close>

section \<open>The state\<close>

datatype FifoTaskState = kBlocked | kRunnable | kQueued | kOnCpu

record FifoTask = task +
  run_state :: FifoTaskState
  task_cpu :: int
  preempted :: bool
  prio_boost :: bool

definition FifoTask_init :: FifoTask where
  "FifoTask_init = \<lparr>seqnum = 0, run_state = kBlocked, task_cpu = -1, preempted = False, prio_boost = False\<rparr>"

record CpuState =
  current :: "gtid option"
  run_queue :: "gtid list"

text \<open>
  A transaction that the scheduler opens: CPU, target, target barrier, agent barrier.  A yield: CPU,
  agent barrier, flags.
\<close>

record FifoScheduler = "FifoTask scheduler" +
  cpu_states :: "int \<Rightarrow> CpuState"
  channels :: "int \<rightharpoonup> ghost_ring"
  cpus :: cpu_map
  next_cpu :: iter
  pings :: "int list"
  txns :: "(int \<times> gtid \<times> u32 \<times> u32) list"
  yields :: "(int \<times> u32 \<times> int) list"
  default_channel :: "int option"

text \<open>The answers of the kernel a handler depends on, the table of status words and the verbosity flag.\<close>

record kernel =
  associate :: "int \<Rightarrow> gtid \<Rightarrow> u32 \<Rightarrow> bool"
  sw_free :: "gtid \<Rightarrow> bool"
  status_words :: sw_table
  verbosity :: int

definition cpu_state_of :: "gtid \<Rightarrow> FifoScheduler \<Rightarrow> int option" where
  "cpu_state_of g s = do {
     t \<leftarrow> task_map s g;
     CHECK (0 \<le> task_cpu t);
     CHECK (task_cpu t < int MAX_CPUS);
     Some (task_cpu t) }"

definition upd_cpu :: "int \<Rightarrow> (CpuState \<Rightarrow> CpuState) \<Rightarrow> FifoScheduler \<Rightarrow> FifoScheduler" where
  "upd_cpu c f s = s\<lparr>cpu_states := (cpu_states s)(c := f (cpu_states s c))\<rparr>"

section \<open>The run queue\<close>

definition FifoRq_Enqueue :: "int \<Rightarrow> gtid \<Rightarrow> FifoScheduler \<Rightarrow> FifoScheduler option" where
  "FifoRq_Enqueue c g s = do {
     t \<leftarrow> task_map s g;
     CHECK (0 \<le> task_cpu t);
     CHECK (run_state t = kRunnable);
     s \<leftarrow> upd_task g (run_state_update (\<lambda>_. kQueued)) s;
     Some (upd_cpu c (run_queue_update (\<lambda>rq. if prio_boost t then g # rq else rq @ [g])) s) }"

definition FifoRq_Dequeue :: "int \<Rightarrow> FifoScheduler \<Rightarrow> (gtid option \<times> FifoScheduler) option" where
  "FifoRq_Dequeue c s = (case run_queue (cpu_states s c) of
     [] \<Rightarrow> Some (None, s)
   | g # rq \<Rightarrow> do {
       t \<leftarrow> task_map s g;
       CHECK (run_state t = kQueued);
       s \<leftarrow> upd_task g (run_state_update (\<lambda>_. kRunnable)) s;
       Some (Some g, upd_cpu c (run_queue_update (\<lambda>_. rq)) s) })"

text \<open>\<open>rq_.erase(rq_.cbegin() + pos)\<close>, the search from the front, and both together.\<close>

definition erase_at :: "nat \<Rightarrow> gtid list \<Rightarrow> gtid list" where
  "erase_at pos rq = take pos rq @ drop (pos + 1) rq"

function erase_scan :: "gtid list \<Rightarrow> gtid \<Rightarrow> nat \<Rightarrow> gtid list option" where
  "erase_scan rq g pos = (if pos < length rq - 1
     then (if rq ! pos = g then Some (erase_at pos rq) else erase_scan rq g (pos + 1))
     else None)"
  by pat_completeness auto
termination by (relation "measure (\<lambda>(rq, g, pos). length rq - pos)") auto

declare erase_scan.simps [simp del]

definition rq_erase :: "gtid list \<Rightarrow> gtid \<Rightarrow> gtid list option" where
  "rq_erase rq g = (if 0 < length rq
     then (if rq ! (length rq - 1) = g then Some (erase_at (length rq - 1) rq) else erase_scan rq g 0)
     else None)"

definition FifoRq_Erase :: "int \<Rightarrow> gtid \<Rightarrow> FifoScheduler \<Rightarrow> FifoScheduler option" where
  "FifoRq_Erase c g s = do {
     t \<leftarrow> task_map s g;
     CHECK (run_state t = kQueued);
     rq \<leftarrow> rq_erase (run_queue (cpu_states s c)) g;
     s \<leftarrow> upd_task g (run_state_update (\<lambda>_. kRunnable)) s;
     Some (upd_cpu c (run_queue_update (\<lambda>_. rq)) s) }"

section \<open>Placement\<close>

text \<open>\<open>enclave()->GetAgent(cpu)->Ping()\<close>: there are agents on the CPUs of the enclave only.\<close>

definition Ping :: "int \<Rightarrow> FifoScheduler \<Rightarrow> FifoScheduler option" where
  "Ping c s = do { CHECK (c \<in> int ` set (cpu_ids (cpus s))); Some (s\<lparr>pings := pings s @ [c]\<rparr>) }"

definition AssignCpu :: "FifoScheduler \<Rightarrow> (int \<times> FifoScheduler) option" where
  "AssignCpu s = do {
     begin \<leftarrow> iter_begin (cpus s);
     fin \<leftarrow> iter_end (cpus s);
     let next = (if it_id (next_cpu s) = it_id fin then begin else next_cpu s);
     (c, next) \<leftarrow> iter_post_inc (cpus s) next;
     c \<leftarrow> c;
     Some (int c, s\<lparr>next_cpu := next\<rparr>) }"

definition Migrate :: "kernel \<Rightarrow> gtid \<Rightarrow> int \<Rightarrow> u32 \<Rightarrow> FifoScheduler \<Rightarrow> FifoScheduler option" where
  "Migrate K g c n s = do {
     t \<leftarrow> task_map s g;
     CHECK (run_state t = kRunnable);
     CHECK (task_cpu t = -1);
     CHECK (associate K c g n);
     s \<leftarrow> upd_task g (task_cpu_update (\<lambda>_. c)) s;
     s \<leftarrow> FifoRq_Enqueue c g s;
     Ping c s }"

definition TaskOffCpu :: "gtid \<Rightarrow> bool \<Rightarrow> bool \<Rightarrow> FifoScheduler \<Rightarrow> FifoScheduler option" where
  "TaskOffCpu g blocked from_sw s = do {
     c \<leftarrow> cpu_state_of g s;
     t \<leftarrow> task_map s g;
     s \<leftarrow> (if run_state t = kOnCpu
            then do { CHECK (current (cpu_states s c) = Some g); Some (upd_cpu c (current_update (\<lambda>_. None)) s) }
            else do { CHECK from_sw; CHECK (run_state t = kBlocked); Some s });
     upd_task g (run_state_update (\<lambda>_. if blocked then kBlocked else kRunnable)) s }"

definition TaskOnCpu :: "gtid \<Rightarrow> int \<Rightarrow> FifoScheduler \<Rightarrow> FifoScheduler option" where
  "TaskOnCpu g c s =
     upd_task g (\<lambda>t. t\<lparr>run_state := kOnCpu, task_cpu := c, preempted := False, prio_boost := False\<rparr>)
       (upd_cpu c (current_update (\<lambda>_. Some g)) s)"

section \<open>Message handlers\<close>

definition ping_switchto :: "message \<Rightarrow> FifoScheduler \<Rightarrow> FifoScheduler option" where
  "ping_switchto m s = (if from_switchto m then Ping (msg_cpu m) s else Some s)"

definition FifoScheduler_TaskNew :: "kernel \<Rightarrow> gtid \<Rightarrow> message \<Rightarrow> FifoScheduler \<Rightarrow> FifoScheduler option" where
  "FifoScheduler_TaskNew K g m s = do {
     s \<leftarrow> upd_task g (\<lambda>t. t\<lparr>seqnum := msg_seqnum m, run_state := kBlocked\<rparr>) s;
     if runnable m then do {
       s \<leftarrow> upd_task g (run_state_update (\<lambda>_. kRunnable)) s;
       (c, s) \<leftarrow> AssignCpu s;
       Migrate K g c (msg_seqnum m) s }
     else Some s }"

definition FifoScheduler_TaskRunnable :: "kernel \<Rightarrow> gtid \<Rightarrow> message \<Rightarrow> FifoScheduler \<Rightarrow> FifoScheduler option" where
  "FifoScheduler_TaskRunnable K g m s = do {
     t \<leftarrow> task_map s g;
     CHECK (run_state t = kBlocked);
     s \<leftarrow> upd_task g (\<lambda>t. t\<lparr>run_state := kRunnable, prio_boost := \<not> deferrable m\<rparr>) s;
     if task_cpu t < 0 then do {
       (c, s) \<leftarrow> AssignCpu s;
       Migrate K g c (msg_seqnum m) s }
     else do {
       c \<leftarrow> cpu_state_of g s;
       FifoRq_Enqueue c g s } }"

definition FifoScheduler_TaskDeparted :: "kernel \<Rightarrow> gtid \<Rightarrow> message \<Rightarrow> FifoScheduler \<Rightarrow> FifoScheduler option" where
  "FifoScheduler_TaskDeparted K g m s = do {
     t \<leftarrow> task_map s g;
     s \<leftarrow> (if run_state t = kOnCpu \<or> from_switchto m then TaskOffCpu g False (from_switchto m) s
           else if run_state t = kQueued then do { c \<leftarrow> cpu_state_of g s; FifoRq_Erase c g s }
           else do { CHECK (run_state t = kBlocked); Some s });
     s \<leftarrow> ping_switchto m s;
     FreeTask (sw_free K) g s }"

definition FifoScheduler_TaskDead :: "kernel \<Rightarrow> gtid \<Rightarrow> message \<Rightarrow> FifoScheduler \<Rightarrow> FifoScheduler option" where
  "FifoScheduler_TaskDead K g m s = do {
     t \<leftarrow> task_map s g;
     CHECK (run_state t = kBlocked);
     FreeTask (sw_free K) g s }"

definition FifoScheduler_TaskYield :: "gtid \<Rightarrow> message \<Rightarrow> FifoScheduler \<Rightarrow> FifoScheduler option" where
  "FifoScheduler_TaskYield g m s = do {
     s \<leftarrow> TaskOffCpu g False (from_switchto m) s;
     c \<leftarrow> cpu_state_of g s;
     s \<leftarrow> FifoRq_Enqueue c g s;
     ping_switchto m s }"

definition FifoScheduler_TaskBlocked :: "gtid \<Rightarrow> message \<Rightarrow> FifoScheduler \<Rightarrow> FifoScheduler option" where
  "FifoScheduler_TaskBlocked g m s = do {
     s \<leftarrow> TaskOffCpu g True (from_switchto m) s;
     ping_switchto m s }"

definition FifoScheduler_TaskPreempted :: "gtid \<Rightarrow> message \<Rightarrow> FifoScheduler \<Rightarrow> FifoScheduler option" where
  "FifoScheduler_TaskPreempted g m s = do {
     s \<leftarrow> TaskOffCpu g False (from_switchto m) s;
     s \<leftarrow> upd_task g (\<lambda>t. t\<lparr>preempted := True, prio_boost := True\<rparr>) s;
     c \<leftarrow> cpu_state_of g s;
     s \<leftarrow> FifoRq_Enqueue c g s;
     ping_switchto m s }"

definition FifoScheduler_TaskSwitchto :: "gtid \<Rightarrow> message \<Rightarrow> FifoScheduler \<Rightarrow> FifoScheduler option" where
  "FifoScheduler_TaskSwitchto g m s = TaskOffCpu g True False s"

definition FifoScheduler_handlers :: "kernel \<Rightarrow> (FifoTask, FifoScheduler) handlers" where
  "FifoScheduler_handlers K = \<lparr>sw_words = status_words K, verbose = verbosity K, AllocTask = (\<lambda>_. FifoTask_init), TaskNew = FifoScheduler_TaskNew K,
     TaskRunnable = FifoScheduler_TaskRunnable K, TaskDead = FifoScheduler_TaskDead K,
     TaskDeparted = FifoScheduler_TaskDeparted K, TaskYield = FifoScheduler_TaskYield,
     TaskBlocked = FifoScheduler_TaskBlocked, TaskPreempted = FifoScheduler_TaskPreempted,
     TaskSwitchto = FifoScheduler_TaskSwitchto, TaskAffinityChanged = ignore_task,
     TaskPriorityChanged = ignore_task, TaskOnCpuMsg = ignore_task, TaskDiscovered = (\<lambda>g s. Some s),
     DiscoveryStart = Some, DiscoveryComplete = Some,
     CpuTick = ignore_msg, CpuNotIdle = ignore_msg, CpuTimerExpired = ignore_msg, CpuAvailable = ignore_msg,
     CpuBusy = ignore_msg, AgentBlocked = ignore_msg, AgentWakeup = ignore_msg\<rparr>"

section \<open>The agent's step\<close>

record sched_env =
  on_cpu :: "gtid \<Rightarrow> nat \<Rightarrow> bool"
  commit_ok :: "gtid \<Rightarrow> bool"
  msg_env :: "message \<Rightarrow> kernel"

definition FifoSchedule :: "sched_env \<Rightarrow> int \<Rightarrow> u32 \<Rightarrow> bool \<Rightarrow> FifoScheduler \<Rightarrow> FifoScheduler option" where
  "FifoSchedule E c agent_barrier boosted s = do {
     (next, s) \<leftarrow> (if \<not> boosted
        then (case current (cpu_states s c) of Some g \<Rightarrow> Some (Some g, s) | None \<Rightarrow> FifoRq_Dequeue c s)
        else Some (None, s));
     case next of
       Some g \<Rightarrow> do {
         wait_off_cpu (on_cpu E g) 0;
         t \<leftarrow> task_map s g;
         let s = s\<lparr>txns := txns s @ [(c, g, seqnum t, agent_barrier)]\<rparr>;
         if commit_ok E g then TaskOnCpu g c s
         else do {
           s \<leftarrow> (if current (cpu_states s c) = Some g then TaskOffCpu g False False s else Some s);
           s \<leftarrow> upd_task g (prio_boost_update (\<lambda>_. True)) s;
           FifoRq_Enqueue c g s } }
     | None \<Rightarrow>
         let flags = (if boosted \<and> (current (cpu_states s c) \<noteq> None \<or> run_queue (cpu_states s c) \<noteq> [])
                      then RTLA_ON_IDLE else 0)
         in Some (s\<lparr>yields := yields s @ [(c, agent_barrier, flags)]\<rparr>) }"

definition Schedule :: "sched_env \<Rightarrow> int \<Rightarrow> u32 \<Rightarrow> bool \<Rightarrow> FifoScheduler \<Rightarrow> FifoScheduler option" where
  "Schedule E c agent_barrier boosted s = do {
     r \<leftarrow> channels s c;
     (r, s) \<leftarrow> drain_channel (\<lambda>m. DispatchMessage (FifoScheduler_handlers (msg_env E m)) m) r s;
     FifoSchedule E c agent_barrier boosted (s\<lparr>channels := (channels s)(c \<mapsto> r)\<rparr>) }"

text \<open>
  The constructor makes a channel for every CPU of the list; the first one is the default channel.
  The iterator that \<open>AssignCpu\<close> keeps between its calls starts at the end of the list.
\<close>

definition FifoScheduler_init :: "cpu_map \<Rightarrow> (int \<Rightarrow> ghost_ring) \<Rightarrow> FifoScheduler option" where
  "FifoScheduler_init cpulist MakeChannel = do {
     fin \<leftarrow> iter_end cpulist;
     for_cpus cpulist (\<lambda>c s. let s = s\<lparr>channels := (channels s)(int c \<mapsto> MakeChannel (int c))\<rparr> in
         Some (if default_channel s = None then s\<lparr>default_channel := Some (int c)\<rparr> else s))
       \<lparr>task_map = Map.empty, cpu_states = (\<lambda>_. \<lparr>current = None, run_queue = []\<rparr>), channels = Map.empty,
        cpus = cpulist, next_cpu = fin, pings = [], txns = [], yields = [], default_channel = None\<rparr> }"

definition Empty :: "int \<Rightarrow> FifoScheduler \<Rightarrow> bool" where
  "Empty c s \<longleftrightarrow> run_queue (cpu_states s c) = []"


section \<open>The invariant\<close>

definition in_state :: "FifoScheduler \<Rightarrow> gtid \<Rightarrow> FifoTaskState \<Rightarrow> int \<Rightarrow> bool" where
  "in_state s g st c \<longleftrightarrow> (case task_map s g of None \<Rightarrow> False | Some t \<Rightarrow> run_state t = st \<and> task_cpu t = c)"

definition enclave_cpu :: "FifoScheduler \<Rightarrow> int \<Rightarrow> bool" where
  "enclave_cpu s c \<longleftrightarrow> c \<in> int ` set (cpu_ids (cpus s))"

text \<open>The CPU map is well formed and the round-robin iterator is at one of its CPUs or at its end.\<close>

definition placement_ok :: "FifoScheduler \<Rightarrow> bool" where
  "placement_ok s \<longleftrightarrow> map_ok (cpus s) \<and> in_topology (cpus s)
     \<and> (\<exists>ys xs. cpu_ids (cpus s) = ys @ xs \<and> next_cpu s = iter_at (cpus s) xs)"

text \<open>
  A run queue holds each queued task of its CPU once and nothing else, and the current task of a
  CPU is the one that is on it.  No task is in the transitory state, except the task \<open>fl\<close> that an
  operation is moving.  The CPU of a task is one of the enclave, or none if it never ran.
\<close>

definition fifo_ok :: "gtid option \<Rightarrow> FifoScheduler \<Rightarrow> bool" where
  "fifo_ok fl s \<longleftrightarrow> placement_ok s
     \<and> (\<forall>c. distinct (run_queue (cpu_states s c)))
     \<and> (\<forall>c g. g \<in> set (run_queue (cpu_states s c)) \<longleftrightarrow> in_state s g kQueued c)
     \<and> (\<forall>c g. current (cpu_states s c) = Some g \<longleftrightarrow> in_state s g kOnCpu c)
     \<and> (\<forall>g t. task_map s g = Some t \<longrightarrow> (run_state t = kRunnable \<longrightarrow> fl = Some g)
          \<and> (task_cpu t = -1 \<or> enclave_cpu s (task_cpu t))
          \<and> (run_state t = kQueued \<or> run_state t = kOnCpu \<longrightarrow> task_cpu t \<noteq> -1))"

abbreviation fifo_inv :: "FifoScheduler \<Rightarrow> bool" where "fifo_inv \<equiv> fifo_ok None"

lemma in_state_upd [simp]:
  "in_state (s\<lparr>task_map := (task_map s)(g \<mapsto> t)\<rparr>) g' st c = (if g' = g then run_state t = st \<and> task_cpu t = c else in_state s g' st c)"
  "in_state (s\<lparr>task_map := (task_map s)(g := None)\<rparr>) g' st c = (g' \<noteq> g \<and> in_state s g' st c)"
  "in_state (s\<lparr>cpu_states := cs\<rparr>) g' st c = in_state s g' st c"
  "in_state (s\<lparr>next_cpu := it\<rparr>) g' st c = in_state s g' st c"
  "in_state (s\<lparr>pings := ps\<rparr>) g' st c = in_state s g' st c"
  "in_state (s\<lparr>txns := ts\<rparr>) g' st c = in_state s g' st c"
  "in_state (s\<lparr>yields := ys\<rparr>) g' st c = in_state s g' st c"
  "in_state (s\<lparr>channels := chs\<rparr>) g' st c = in_state s g' st c"
  by (simp_all add: in_state_def)

lemma enclave_cpu_upd [simp]:
  "enclave_cpu (s\<lparr>task_map := m\<rparr>) = enclave_cpu s" "enclave_cpu (s\<lparr>cpu_states := cs\<rparr>) = enclave_cpu s"
  "enclave_cpu (s\<lparr>next_cpu := it\<rparr>) = enclave_cpu s" "enclave_cpu (s\<lparr>pings := ps\<rparr>) = enclave_cpu s"
  "enclave_cpu (s\<lparr>txns := ts\<rparr>) = enclave_cpu s" "enclave_cpu (s\<lparr>yields := ys\<rparr>) = enclave_cpu s"
  "enclave_cpu (s\<lparr>channels := chs\<rparr>) = enclave_cpu s"
  by (simp_all add: enclave_cpu_def fun_eq_iff)

lemma placement_upd [simp]:
  "placement_ok (s\<lparr>task_map := m\<rparr>) = placement_ok s" "placement_ok (s\<lparr>cpu_states := cs\<rparr>) = placement_ok s"
  "placement_ok (s\<lparr>pings := ps\<rparr>) = placement_ok s" "placement_ok (s\<lparr>txns := ts\<rparr>) = placement_ok s"
  "placement_ok (s\<lparr>yields := ys\<rparr>) = placement_ok s" "placement_ok (s\<lparr>channels := chs\<rparr>) = placement_ok s"
  by (simp_all add: placement_ok_def)

lemma fifo_okD:
  assumes "fifo_ok fl s"
  shows "placement_ok s" "distinct (run_queue (cpu_states s c))"
    "g \<in> set (run_queue (cpu_states s c)) \<longleftrightarrow> in_state s g kQueued c"
    "current (cpu_states s c) = Some g \<longleftrightarrow> in_state s g kOnCpu c"
    "task_map s g = Some t \<Longrightarrow> run_state t = kRunnable \<Longrightarrow> fl = Some g"
    "task_map s g = Some t \<Longrightarrow> task_cpu t = -1 \<or> enclave_cpu s (task_cpu t)"
    "task_map s g = Some t \<Longrightarrow> run_state t = kQueued \<or> run_state t = kOnCpu \<Longrightarrow> enclave_cpu s (task_cpu t) \<and> task_cpu t \<noteq> -1"
  using assms unfolding fifo_ok_def by blast+

lemma fifo_okI:
  assumes "placement_ok s" and "\<And>c. distinct (run_queue (cpu_states s c))"
    and "\<And>c g. g \<in> set (run_queue (cpu_states s c)) \<longleftrightarrow> in_state s g kQueued c"
    and "\<And>c g. current (cpu_states s c) = Some g \<longleftrightarrow> in_state s g kOnCpu c"
    and "\<And>g t. task_map s g = Some t \<Longrightarrow> run_state t = kRunnable \<Longrightarrow> fl = Some g"
    and "\<And>g t. task_map s g = Some t \<Longrightarrow> task_cpu t = -1 \<or> enclave_cpu s (task_cpu t)"
    and "\<And>g t. task_map s g = Some t \<Longrightarrow> run_state t = kQueued \<or> run_state t = kOnCpu \<Longrightarrow> task_cpu t \<noteq> -1"
  shows "fifo_ok fl s"
  using assms unfolding fifo_ok_def by blast

lemma fifo_logs [simp]:
  "fifo_ok fl (s\<lparr>pings := ps\<rparr>) = fifo_ok fl s" "fifo_ok fl (s\<lparr>txns := ts\<rparr>) = fifo_ok fl s"
  "fifo_ok fl (s\<lparr>yields := ys\<rparr>) = fifo_ok fl s" "fifo_ok fl (s\<lparr>channels := chs\<rparr>) = fifo_ok fl s"
  by (simp_all add: fifo_ok_def)

lemma enclave_cpu_nonneg: "enclave_cpu s c \<Longrightarrow> 0 \<le> c"
  by (auto simp: enclave_cpu_def)

lemma enclave_cpu_max: "enclave_cpu s c \<Longrightarrow> placement_ok s \<Longrightarrow> c < int MAX_CPUS"
  by (auto simp: enclave_cpu_def placement_ok_def in_topology_iff map_ok_def dest: less_le_trans)

lemma in_state_unique: "in_state s g st c \<Longrightarrow> in_state s g st' c' \<Longrightarrow> st = st' \<and> c = c'"
  by (auto simp: in_state_def split: option.splits)

subsection \<open>The primitives\<close>

text \<open>A store that keeps the state and the CPU of a task.\<close>

lemma fifo_upd_other:
  assumes "fifo_ok fl s" and "task_map s g = Some t" and "run_state t' = run_state t" and "task_cpu t' = task_cpu t"
  shows "fifo_ok fl (s\<lparr>task_map := (task_map s)(g \<mapsto> t')\<rparr>)"
proof -
  have "in_state (s\<lparr>task_map := (task_map s)(g \<mapsto> t')\<rparr>) = in_state s"
    using assms(2-4) by (auto simp: fun_eq_iff in_state_def)
  then show ?thesis using assms by (auto simp: fifo_ok_def)
qed

text \<open>A store to a task that is in no queue and on no CPU, before and after the store.\<close>

lemma fifo_set_idle:
  assumes "fifo_ok fl s" and "\<And>c. \<not> in_state s g kQueued c \<and> \<not> in_state s g kOnCpu c"
    and "run_state t' = kBlocked \<or> run_state t' = kRunnable" and "task_cpu t' = -1 \<or> enclave_cpu s (task_cpu t')"
    and "fl = None \<or> fl = Some g" and "run_state t' = kRunnable \<longrightarrow> fl' = Some g"
  shows "fifo_ok fl' (s\<lparr>task_map := (task_map s)(g \<mapsto> t')\<rparr>)"
proof -
  note ok = fifo_okD [OF assms(1)]
  have st: "run_state t' \<noteq> kQueued" "run_state t' \<noteq> kOnCpu" using assms(3) by auto
  show ?thesis
  proof (rule fifo_okI)
    show "run_state t = kRunnable \<Longrightarrow> fl' = Some h" if "task_map (s\<lparr>task_map := (task_map s)(g \<mapsto> t')\<rparr>) h = Some t" for h t
      using that ok(5) [of h t] assms(5, 6) by (cases "h = g") auto
    show "task_cpu t = -1 \<or> enclave_cpu (s\<lparr>task_map := (task_map s)(g \<mapsto> t')\<rparr>) (task_cpu t)"
      if "task_map (s\<lparr>task_map := (task_map s)(g \<mapsto> t')\<rparr>) h = Some t" for h t
      using that ok(6) [of h t] assms(4) by (cases "h = g") auto
    show "run_state t = kQueued \<or> run_state t = kOnCpu \<Longrightarrow> task_cpu t \<noteq> -1"
      if "task_map (s\<lparr>task_map := (task_map s)(g \<mapsto> t')\<rparr>) h = Some t" for h t
      using that ok(7) [of h t] st by (cases "h = g") auto
  qed (use ok(1-4) assms(2) st in \<open>simp_all\<close>)
qed

lemma fifo_enqueue:
  assumes "fifo_ok fl s" and "fl = None \<or> fl = Some g" and "task_map s g = Some t" and "task_cpu t = c" and "enclave_cpu s c"
    and "FifoRq_Enqueue c g s = Some s'"
  shows "fifo_ok None s'"
proof -
  have st: "run_state t = kRunnable" and c: "c \<noteq> -1" using assms(3, 6) enclave_cpu_nonneg [OF assms(5)]
    by (auto simp: FifoRq_Enqueue_def bind_eq_Some_conv)
  have s': "s' = upd_cpu c (run_queue_update (\<lambda>rq. if prio_boost t then g # rq else rq @ [g]))
      (s\<lparr>task_map := (task_map s)(g \<mapsto> t\<lparr>run_state := kQueued\<rparr>)\<rparr>)"
    using assms(3, 6) by (auto simp: FifoRq_Enqueue_def upd_task_Some bind_eq_Some_conv)
  have g: "\<not> in_state s g kQueued c'" "\<not> in_state s g kOnCpu c'" for c' using assms(3) st by (auto simp: in_state_def)
  then show ?thesis using assms(1-5) c unfolding s' fifo_ok_def upd_cpu_def
    by (auto split: if_splits)
qed

lemma fifo_unqueue:
  assumes "fifo_inv s" and "task_map s g = Some t" and "run_state t = kQueued"
    and "distinct rq" and "set rq = set (run_queue (cpu_states s (task_cpu t))) - {g}"
  defines "s' \<equiv> upd_cpu (task_cpu t) (run_queue_update (\<lambda>_. rq)) (s\<lparr>task_map := (task_map s)(g \<mapsto> t\<lparr>run_state := kRunnable\<rparr>)\<rparr>)"
  shows "fifo_ok (Some g) s'"
proof -
  have "in_state s g kQueued c \<longleftrightarrow> c = task_cpu t" "\<not> in_state s g kOnCpu c" for c
    using assms(2, 3) by (auto simp: in_state_def)
  then show ?thesis using assms(1-5) unfolding s'_def fifo_ok_def upd_cpu_def by auto
qed

lemma fifo_dequeue:
  assumes "fifo_inv s" and "FifoRq_Dequeue c s = Some (ng, s')"
  shows "case ng of None \<Rightarrow> s' = s \<and> run_queue (cpu_states s c) = []
    | Some g \<Rightarrow> fifo_ok (Some g) s' \<and> in_state s' g kRunnable c \<and> enclave_cpu s' c \<and> cpus s' = cpus s
        \<and> current (cpu_states s' c) = current (cpu_states s c) \<and> run_queue (cpu_states s c) = g # run_queue (cpu_states s' c)"
proof (cases "run_queue (cpu_states s c)")
  case Nil
  then show ?thesis using assms(2) by (auto simp: FifoRq_Dequeue_def)
next
  case (Cons g rq)
  have "in_state s g kQueued c" using fifo_okD(3) [OF assms(1), of g c] Cons by simp
  then obtain t where t: "task_map s g = Some t" "run_state t = kQueued" "task_cpu t = c"
    by (auto simp: in_state_def split: option.splits)
  have s': "ng = Some g" "s' = upd_cpu c (run_queue_update (\<lambda>_. rq)) (s\<lparr>task_map := (task_map s)(g \<mapsto> t\<lparr>run_state := kRunnable\<rparr>)\<rparr>)"
    using assms(2) Cons t by (auto simp: FifoRq_Dequeue_def upd_task_def)
  have d: "distinct (g # rq)" using fifo_okD(2) [OF assms(1), of c] Cons by simp
  have "enclave_cpu s c" using fifo_okD(7) [OF assms(1) t(1)] t(2, 3) by simp
  then show ?thesis using fifo_unqueue [OF assms(1) t(1, 2), of rq] d Cons t s'
    by (auto simp: in_state_def upd_cpu_def)
qed

lemma fifo_off_cpu:
  assumes "fifo_inv s" and "TaskOffCpu g b sw s = Some s'"
  shows "fifo_ok (if b then None else Some g) s'" "\<exists>c. in_state s' g (if b then kBlocked else kRunnable) c \<and> enclave_cpu s' c"
    "cpus s' = cpus s"
proof -
  obtain t where t: "task_map s g = Some t" "0 \<le> task_cpu t" and st: "run_state t = kOnCpu \<or> run_state t = kBlocked"
    using assms(2) by (auto simp: TaskOffCpu_def cpu_state_of_def bind_eq_Some_conv split: if_splits)
  let ?st = "if b then kBlocked else kRunnable"
  define s1 where "s1 = (if run_state t = kOnCpu then upd_cpu (task_cpu t) (current_update (\<lambda>_. None)) s else s)"
  have s': "s' = s1\<lparr>task_map := (task_map s1)(g \<mapsto> t\<lparr>run_state := ?st\<rparr>)\<rparr>"
    using assms(2) t st by (auto simp: TaskOffCpu_def cpu_state_of_def upd_task_def upd_cpu_def s1_def bind_eq_Some_conv split: if_splits)
  have enc: "enclave_cpu s (task_cpu t)" using fifo_okD(6) [OF assms(1) t(1)] t(2) by auto
  have q: "\<not> in_state s g kQueued c" "in_state s g kOnCpu c \<longleftrightarrow> run_state t = kOnCpu \<and> c = task_cpu t" for c
    using t(1) st by (auto simp: in_state_def)
  have one: "h = g" if "in_state s h kOnCpu (task_cpu t)" "run_state t = kOnCpu" for h
    using fifo_okD(4) [OF assms(1), of "task_cpu t"] q(2) that by (metis option.inject)
  show "fifo_ok (if b then None else Some g) s'"
    using assms(1) t q st one enc unfolding s' s1_def fifo_ok_def upd_cpu_def by (auto split: if_splits)
  show "\<exists>c. in_state s' g ?st c \<and> enclave_cpu s' c" "cpus s' = cpus s"
    using enc by (auto simp: s' s1_def upd_cpu_def)
qed


lemma fifo_on_cpu:
  assumes "fifo_ok fl s" and "enclave_cpu s c" and "TaskOnCpu g c s = Some s'"
    and "fl = Some g \<and> in_state s g kRunnable c \<and> current (cpu_states s c) = None
      \<or> fl = None \<and> current (cpu_states s c) = Some g"
  shows "fifo_inv s'"
proof -
  obtain t where t: "task_map s g = Some t" using assms(3) by (auto simp: TaskOnCpu_def upd_task_Some upd_cpu_def)
  have st: "run_state t = kRunnable \<and> fl = Some g \<and> current (cpu_states s c) = None
      \<or> run_state t = kOnCpu \<and> fl = None \<and> current (cpu_states s c) = Some g" and cpu: "task_cpu t = c"
    using assms(4) fifo_okD(4) [OF assms(1), of c g] t by (auto simp: in_state_def)
  have c: "c \<noteq> -1" using enclave_cpu_nonneg [OF assms(2)] by auto
  have s': "s' = upd_cpu c (current_update (\<lambda>_. Some g)) (s\<lparr>task_map := (task_map s)(g \<mapsto>
      t\<lparr>run_state := kOnCpu, task_cpu := c, preempted := False, prio_boost := False\<rparr>)\<rparr>)"
    using assms(3) t by (auto simp: TaskOnCpu_def upd_task_Some upd_cpu_def)
  have q: "\<not> in_state s g kQueued c'" "in_state s g kOnCpu c' \<longrightarrow> c' = c" for c'
    using t st cpu by (auto simp: in_state_def)
  have one: "h = g" if "in_state s h kOnCpu c" for h
    using fifo_okD(4) [OF assms(1), of c h] that st by auto
  have fields: "run_queue (cpu_states s' c') = run_queue (cpu_states s c')"
    "current (cpu_states s' c') = (if c' = c then Some g else current (cpu_states s c'))"
    "in_state s' h u c' = (if h = g then u = kOnCpu \<and> c' = c else in_state s h u c')"
    "placement_ok s' = placement_ok s" "enclave_cpu s' = enclave_cpu s"
    "task_map s' h = (if h = g then Some (t\<lparr>run_state := kOnCpu, task_cpu := c, preempted := False, prio_boost := False\<rparr>)
       else task_map s h)" for c' h u
    by (auto simp: s' upd_cpu_def in_state_def)
  note ok = fifo_okD [OF assms(1)]
  have Q: "h \<in> set (run_queue (cpu_states s' c')) \<longleftrightarrow> in_state s' h kQueued c'" for c' h
    unfolding fields using ok(3) [of h c'] q(1) [of c'] by simp
  have C: "current (cpu_states s' c') = Some h \<longleftrightarrow> in_state s' h kOnCpu c'" for c' h
    unfolding fields using ok(4) [of c' h] q(2) [of c'] one by (metis option.inject)
  show ?thesis
    by (rule fifo_okI [OF _ _ Q C]) (use ok(1, 2, 5, 6, 7) st c assms(2) in \<open>auto simp: fields split: if_splits\<close>)
qed

lemma fifo_free:
  assumes "fifo_ok fl s" and "fl = None \<or> fl = Some g" and "task_map s g = Some t"
    and "run_state t = kBlocked \<or> run_state t = kRunnable" and "FreeTask f g s = Some s'"
  shows "fifo_inv s'"
proof -
  have s': "s' = s\<lparr>task_map := (task_map s)(g := None)\<rparr>" using assms(5) by (auto simp: FreeTask_def)
  have "\<not> in_state s g kQueued c" "\<not> in_state s g kOnCpu c" for c using assms(3, 4) by (auto simp: in_state_def)
  then show ?thesis using assms(1, 2) unfolding s' fifo_ok_def by (auto split: if_splits)
qed

subsection \<open>Erasing from the run queue\<close>

lemma erase_scan_spec:
  "pos \<le> length rq - 1 \<Longrightarrow> erase_scan rq g pos =
     (if g \<in> set (drop pos (butlast rq)) then Some (take pos rq @ remove1 g (drop pos rq)) else None)"
proof (induction rq g pos rule: erase_scan.induct)
  case (1 rq g pos)
  show ?case
  proof (cases "pos < length rq - 1")
    case False
    then have "drop pos (butlast rq) = []" by simp
    then show ?thesis using False by (subst erase_scan.simps) simp
  next
    case True
    then have d: "drop pos (butlast rq) = rq ! pos # drop (Suc pos) (butlast rq)" "drop pos rq = rq ! pos # drop (Suc pos) rq"
      by (simp_all add: Cons_nth_drop_Suc [symmetric] nth_butlast)
    show ?thesis
    proof (cases "rq ! pos = g")
      case True': True
      then show ?thesis using True d by (simp add: erase_scan.simps [of rq g pos] erase_at_def)
    next
      case False
      then show ?thesis using True d 1(1) by (simp add: erase_scan.simps [of rq g pos] take_Suc_conv_app_nth)
    qed
  qed
qed

lemma rq_erase_spec:
  assumes "distinct rq" shows "rq_erase rq g = (if g \<in> set rq then Some (remove1 g rq) else None)"
proof (cases rq rule: rev_cases)
  case (snoc xs x)
  then show ?thesis using assms erase_scan_spec [of 0 rq g]
    by (auto simp: rq_erase_def erase_at_def nth_append remove1_append remove1_idem)
qed (simp add: rq_erase_def)

lemma fifo_erase:
  assumes "fifo_inv s" and "task_map s g = Some t" and "FifoRq_Erase (task_cpu t) g s = Some s'"
  shows "fifo_ok (Some g) s'" "in_state s' g kRunnable (task_cpu t)" "cpus s' = cpus s"
proof -
  have st: "run_state t = kQueued" using assms(2, 3) by (auto simp: FifoRq_Erase_def bind_eq_Some_conv)
  note d = fifo_okD(2) [OF assms(1), of "task_cpu t"]
  let ?rq = "remove1 g (run_queue (cpu_states s (task_cpu t)))"
  have s': "s' = upd_cpu (task_cpu t) (run_queue_update (\<lambda>_. ?rq)) (s\<lparr>task_map := (task_map s)(g \<mapsto> t\<lparr>run_state := kRunnable\<rparr>)\<rparr>)"
    using assms(2, 3) by (auto simp: FifoRq_Erase_def rq_erase_spec [OF d] upd_task_Some bind_eq_Some_conv split: if_splits)
  show "fifo_ok (Some g) s'"
    unfolding s' by (rule fifo_unqueue [OF assms(1, 2) st]) (use d in auto)
  show "in_state s' g kRunnable (task_cpu t)" "cpus s' = cpus s" by (simp_all add: s' upd_cpu_def)
qed

subsection \<open>Placement\<close>

lemma assign_next:
  assumes "map_ok (cpus s)" and "in_topology (cpus s)" and "cpu_ids (cpus s) = ys @ xs" and "next_cpu s = iter_at (cpus s) xs"
    and "zs = (if xs = [] then ys else xs)" and "zs = c # ws"
  shows "AssignCpu s = Some (int c, s\<lparr>next_cpu := iter_at (cpus s) ws\<rparr>)" "\<exists>vs. cpu_ids (cpus s) = vs @ c # ws"
proof -
  have at_end: "it_id (iter_at (cpus s) xs) = it_id (iter_at (cpus s) []) \<longleftrightarrow> xs = []"
    using assms(2, 3) by (cases xs) (auto simp: iter_at_def in_topology_def)
  have zs: "(if it_id (next_cpu s) = it_id (iter_at (cpus s) []) then iter_at (cpus s) (cpu_ids (cpus s)) else next_cpu s)
      = iter_at (cpus s) zs" using at_end assms(3-5) by auto
  obtain vs where vs: "cpu_ids (cpus s) = vs @ c # ws" using assms(3, 5, 6) by (auto split: if_splits)
  then show "\<exists>vs. cpu_ids (cpus s) = vs @ c # ws" by blast
  have "filter (\<lambda>j. c + 1 \<le> j) (cpu_ids (cpus s)) = ws"
  proof -
    have "filter (\<lambda>j. c + 1 \<le> j) ws = ws" "filter (\<lambda>j. c + 1 \<le> j) vs = []"
      using sorted_cpu_ids [of "cpus s"] unfolding vs filter_id_conv filter_empty_conv by (auto simp: sorted_wrt_append)
    then show ?thesis unfolding vs by simp
  qed
  then have "iter_post_inc (cpus s) (iter_at (cpus s) zs) = Some (Some c, iter_at (cpus s) ws)"
    using find_next [OF assms(1, 2), of "c + 1"] assms(6) by (simp add: iter_post_inc_def iter_at_def)
  then show "AssignCpu s = Some (int c, s\<lparr>next_cpu := iter_at (cpus s) ws\<rparr>)"
    by (simp add: AssignCpu_def iter_ends [OF assms(1, 2)] zs)
qed

lemma assign_cpu:
  assumes "placement_ok s" and "cpu_ids (cpus s) \<noteq> []"
  obtains c it where "AssignCpu s = Some (c, s\<lparr>next_cpu := it\<rparr>)" "enclave_cpu s c" "placement_ok (s\<lparr>next_cpu := it\<rparr>)"
proof -
  obtain ys xs where s: "map_ok (cpus s)" "in_topology (cpus s)" "cpu_ids (cpus s) = ys @ xs" "next_cpu s = iter_at (cpus s) xs"
    using assms(1) by (auto simp: placement_ok_def)
  obtain c ws where c: "(if xs = [] then ys else xs) = c # ws" using assms(2) s(3) by (cases xs; cases ys) auto
  note a = assign_next [OF s refl c]
  obtain vs where vs: "cpu_ids (cpus s) = vs @ c # ws" using a(2) by blast
  have "placement_ok (s\<lparr>next_cpu := iter_at (cpus s) ws\<rparr>)"
    unfolding placement_ok_def using s(1, 2) vs by (intro conjI exI [of _ "vs @ [c]"] exI [of _ ws]) simp_all
  moreover have "enclave_cpu s (int c)" unfolding enclave_cpu_def vs by simp
  ultimately show thesis using that a(1) by blast
qed

lemma assign_some:
  assumes "placement_ok s" and "AssignCpu s = Some (c, s')"
  obtains it where "s' = s\<lparr>next_cpu := it\<rparr>" "enclave_cpu s c" "placement_ok s'"
proof (cases "cpu_ids (cpus s) = []")
  case True
  have ok: "map_ok (cpus s)" "in_topology (cpus s)" using assms(1) by (auto simp: placement_ok_def)
  have "next_cpu s = iter_at (cpus s) []" using assms(1) True by (auto simp: placement_ok_def)
  then show thesis using assms(2) True find_next [OF ok]
    by (simp add: AssignCpu_def iter_ends [OF ok] iter_post_inc_def iter_at_def)
next
  case False
  then show thesis using assign_cpu [OF assms(1)] assms(2) that by (metis option.inject prod.inject)
qed

lemma fifo_assign:
  assumes "fifo_ok fl s" and "AssignCpu s = Some (c, s')"
  shows "fifo_ok fl s'" "enclave_cpu s' c" "task_map s' = task_map s" "cpus s' = cpus s"
proof -
  obtain it where "s' = s\<lparr>next_cpu := it\<rparr>" "enclave_cpu s c" "placement_ok s'"
    by (rule assign_some [OF fifo_okD(1) [OF assms(1)] assms(2)])
  then show "fifo_ok fl s'" "enclave_cpu s' c" "task_map s' = task_map s" "cpus s' = cpus s"
    using assms(1) by (simp_all add: fifo_ok_def)
qed

lemma ping_ok: "Ping c s = Some s' \<Longrightarrow> fifo_ok fl s' = fifo_ok fl s"
  by (auto simp: Ping_def)

lemma ping_switchto_ok: "ping_switchto m s = Some s' \<Longrightarrow> fifo_ok fl s' = fifo_ok fl s \<and> task_map s' = task_map s"
  by (auto simp: ping_switchto_def Ping_def split: if_splits)

lemma not_idle: "task_map s g = Some t \<Longrightarrow> run_state t = kBlocked \<or> run_state t = kRunnable \<Longrightarrow>
    \<not> in_state s g kQueued c \<and> \<not> in_state s g kOnCpu c"
  by (auto simp: in_state_def)

lemma fifo_set_cpu:
  assumes "fifo_ok (Some g) s" and "task_map s g = Some t" and "run_state t = kRunnable" and "enclave_cpu s c"
  shows "fifo_ok (Some g) (s\<lparr>task_map := (task_map s)(g \<mapsto> t\<lparr>task_cpu := c\<rparr>)\<rparr>)"
  by (rule fifo_set_idle [OF assms(1)]) (use assms(2-4) not_idle [OF assms(2)] in auto)

lemma fifo_migrate:
  assumes "fifo_ok (Some g) s" and "enclave_cpu s c" and "Migrate K g c n s = Some s'"
  shows "fifo_inv s'"
proof -
  obtain t where t: "task_map s g = Some t" "run_state t = kRunnable"
    using assms(3) by (auto simp: Migrate_def bind_eq_Some_conv)
  let ?s1 = "s\<lparr>task_map := (task_map s)(g \<mapsto> t\<lparr>task_cpu := c\<rparr>)\<rparr>"
  obtain s2 where s2: "FifoRq_Enqueue c g ?s1 = Some s2" "Ping c s2 = Some s'"
    using assms(3) t by (auto simp: Migrate_def upd_task_def bind_eq_Some_conv)
  have "fifo_inv s2"
    by (rule fifo_enqueue [OF fifo_set_cpu [OF assms(1) t assms(2)] _ _ _ _ s2(1)]) (use assms(2) in auto)
  then show ?thesis using ping_ok [OF s2(2)] by simp
qed

lemma fifo_make_runnable:
  assumes "fifo_inv s" and "task_map s g = Some t" and "run_state t = kBlocked" and "run_state t' = kRunnable"
    and "task_cpu t' = task_cpu t"
  shows "fifo_ok (Some g) (s\<lparr>task_map := (task_map s)(g \<mapsto> t')\<rparr>)"
  by (rule fifo_set_idle [OF assms(1)]) (use assms(2-5) not_idle [OF assms(2)] fifo_okD(6) [OF assms(1, 2)] in auto)

subsection \<open>The handlers keep the invariant\<close>

lemma fifo_new:
  assumes "fifo_inv s" and "task_map s g = None"
    and "FifoScheduler_TaskNew K g m (s\<lparr>task_map := (task_map s)(g \<mapsto> FifoTask_init)\<rparr>) = Some s'"
  shows "fifo_inv s'"
proof -
  let ?t = "FifoTask_init\<lparr>seqnum := msg_seqnum m, run_state := kBlocked\<rparr>"
  let ?s = "s\<lparr>task_map := (task_map s)(g \<mapsto> ?t)\<rparr>"
  have ok: "fifo_inv ?s"
    by (rule fifo_set_idle [OF assms(1)]) (use assms(2) in \<open>auto simp: FifoTask_init_def in_state_def\<close>)
  show ?thesis
  proof (cases "runnable m")
    case False
    then show ?thesis using assms(3) ok by (auto simp: FifoScheduler_TaskNew_def upd_task_def)
  next
    case True
    let ?s1 = "s\<lparr>task_map := (task_map s)(g \<mapsto> ?t\<lparr>run_state := kRunnable\<rparr>)\<rparr>"
    have ok1: "fifo_ok (Some g) ?s1"
      using fifo_make_runnable [OF ok, of g ?t "?t\<lparr>run_state := kRunnable\<rparr>"] by (simp add: FifoTask_init_def)
    obtain c s2 where s2: "AssignCpu ?s1 = Some (c, s2)" "Migrate K g c (msg_seqnum m) s2 = Some s'"
      using assms(3) True by (auto simp: FifoScheduler_TaskNew_def upd_task_def bind_eq_Some_conv)
    show ?thesis using fifo_migrate [OF fifo_assign(1, 2) [OF ok1 s2(1)] s2(2)] .
  qed
qed

lemma fifo_runnable:
  assumes "fifo_inv s" and "FifoScheduler_TaskRunnable K g m s = Some s'"
  shows "fifo_inv s'"
proof -
  obtain t where t: "task_map s g = Some t" "run_state t = kBlocked"
    using assms(2) by (auto simp: FifoScheduler_TaskRunnable_def bind_eq_Some_conv)
  let ?t = "t\<lparr>run_state := kRunnable, prio_boost := \<not> deferrable m\<rparr>"
  let ?s = "s\<lparr>task_map := (task_map s)(g \<mapsto> ?t)\<rparr>"
  have ok: "fifo_ok (Some g) ?s" by (rule fifo_make_runnable [OF assms(1) t]) simp_all
  show ?thesis
  proof (cases "task_cpu t < 0")
    case True
    then obtain c s2 where s2: "AssignCpu ?s = Some (c, s2)" "Migrate K g c (msg_seqnum m) s2 = Some s'"
      using assms(2) t by (auto simp: FifoScheduler_TaskRunnable_def upd_task_def bind_eq_Some_conv)
    show ?thesis using fifo_migrate [OF fifo_assign(1, 2) [OF ok s2(1)] s2(2)] .
  next
    case False
    then have s': "FifoRq_Enqueue (task_cpu t) g ?s = Some s'"
      using assms(2) t by (auto simp: FifoScheduler_TaskRunnable_def upd_task_def cpu_state_of_def bind_eq_Some_conv)
    have "enclave_cpu ?s (task_cpu t)" using fifo_okD(6) [OF assms(1) t(1)] False by auto
    then show ?thesis using fifo_enqueue [OF ok _ _ _ _ s'] by simp
  qed
qed

lemma fifo_requeue:
  assumes "fifo_ok (Some g) s" and "in_state s g kRunnable c" and "enclave_cpu s c"
    and "(do { c \<leftarrow> cpu_state_of g s; s \<leftarrow> FifoRq_Enqueue c g s; ping_switchto m s }) = Some s'"
  shows "fifo_inv s'"
proof -
  obtain t where t: "task_map s g = Some t" "task_cpu t = c" using assms(2) by (auto simp: in_state_def split: option.splits)
  obtain s1 where s1: "FifoRq_Enqueue c g s = Some s1" "ping_switchto m s1 = Some s'"
    using assms(4) t by (auto simp: cpu_state_of_def bind_eq_Some_conv)
  show ?thesis using fifo_enqueue [OF assms(1) _ t assms(3) s1(1)] ping_switchto_ok [OF s1(2)] by simp
qed

lemma fifo_yield:
  assumes "fifo_inv s" and "FifoScheduler_TaskYield g m s = Some s'" shows "fifo_inv s'"
proof -
  obtain s1 where s1: "TaskOffCpu g False (from_switchto m) s = Some s1"
    "(do { c \<leftarrow> cpu_state_of g s1; s \<leftarrow> FifoRq_Enqueue c g s1; ping_switchto m s }) = Some s'"
    using assms(2) by (auto simp: FifoScheduler_TaskYield_def bind_eq_Some_conv)
  show ?thesis using fifo_off_cpu(1, 2) [OF assms(1) s1(1)] fifo_requeue [OF _ _ _ s1(2)] by auto
qed

lemma fifo_preempted:
  assumes "fifo_inv s" and "FifoScheduler_TaskPreempted g m s = Some s'" shows "fifo_inv s'"
proof -
  obtain s1 where s1: "TaskOffCpu g False (from_switchto m) s = Some s1"
    using assms(2) by (auto simp: FifoScheduler_TaskPreempted_def bind_eq_Some_conv)
  obtain c where c: "fifo_ok (Some g) s1" "in_state s1 g kRunnable c" "enclave_cpu s1 c"
    using fifo_off_cpu(1, 2) [OF assms(1) s1] by auto
  then obtain t where t: "task_map s1 g = Some t" by (auto simp: in_state_def split: option.splits)
  let ?t = "t\<lparr>preempted := True, prio_boost := True\<rparr>"
  let ?s = "s1\<lparr>task_map := (task_map s1)(g \<mapsto> ?t)\<rparr>"
  have "(do { c \<leftarrow> cpu_state_of g ?s; s \<leftarrow> FifoRq_Enqueue c g ?s; ping_switchto m s }) = Some s'"
    using assms(2) s1 t by (simp add: FifoScheduler_TaskPreempted_def upd_task_def)
  moreover have "fifo_ok (Some g) ?s" by (rule fifo_upd_other [OF c(1) t]) simp_all
  moreover have "in_state ?s g kRunnable c" using c(2) t by (simp add: in_state_def)
  ultimately show ?thesis using fifo_requeue [of g ?s c m s'] c(3) by simp
qed

lemma fifo_blocked:
  assumes "fifo_inv s" and "FifoScheduler_TaskBlocked g m s = Some s'" shows "fifo_inv s'"
proof -
  obtain s1 where s1: "TaskOffCpu g True (from_switchto m) s = Some s1" "ping_switchto m s1 = Some s'"
    using assms(2) by (auto simp: FifoScheduler_TaskBlocked_def bind_eq_Some_conv)
  show ?thesis using fifo_off_cpu(1) [OF assms(1) s1(1)] ping_switchto_ok [OF s1(2)] by simp
qed

lemma fifo_switchto:
  assumes "fifo_inv s" and "FifoScheduler_TaskSwitchto g m s = Some s'" shows "fifo_inv s'"
  using fifo_off_cpu(1) [OF assms(1)] assms(2) by (force simp: FifoScheduler_TaskSwitchto_def)

lemma fifo_dead:
  assumes "fifo_inv s" and "FifoScheduler_TaskDead K g m s = Some s'" shows "fifo_inv s'"
  using assms(2) fifo_free [OF assms(1)] by (auto simp: FifoScheduler_TaskDead_def bind_eq_Some_conv)

lemma fifo_departed:
  assumes "fifo_inv s" and "FifoScheduler_TaskDeparted K g m s = Some s'" shows "fifo_inv s'"
proof -
  obtain t s1 s2 where t: "task_map s g = Some t"
    and s1: "(if run_state t = kOnCpu \<or> from_switchto m then TaskOffCpu g False (from_switchto m) s
           else if run_state t = kQueued then do { c \<leftarrow> cpu_state_of g s; FifoRq_Erase c g s }
           else do { CHECK (run_state t = kBlocked); Some s }) = Some s1"
    and s2: "ping_switchto m s1 = Some s2" "FreeTask (sw_free K) g s2 = Some s'"
    using assms(2) by (auto simp: FifoScheduler_TaskDeparted_def bind_eq_Some_conv)
  have "\<exists>fl t'. fifo_ok fl s1 \<and> (fl = None \<or> fl = Some g) \<and> task_map s1 g = Some t'
      \<and> (run_state t' = kBlocked \<or> run_state t' = kRunnable)"
  proof (cases "run_state t = kOnCpu \<or> from_switchto m")
    case True
    then have s1: "TaskOffCpu g False (from_switchto m) s = Some s1" using s1 by simp
    show ?thesis using fifo_off_cpu(1, 2) [OF assms(1) s1] by (auto simp: in_state_def split: option.splits)
  next
    case False
    show ?thesis
    proof (cases "run_state t = kQueued")
      case True
      then have s1: "FifoRq_Erase (task_cpu t) g s = Some s1"
        using False s1 t by (auto simp: cpu_state_of_def bind_eq_Some_conv)
      show ?thesis using fifo_erase(1, 2) [OF assms(1) t s1] by (auto simp: in_state_def split: option.splits)
    next
      case nq: False
      then show ?thesis using False s1 t assms(1) by auto
    qed
  qed
  then obtain fl t' where "fifo_ok fl s2" "fl = None \<or> fl = Some g" "task_map s2 g = Some t'"
    "run_state t' = kBlocked \<or> run_state t' = kRunnable" using ping_switchto_ok [OF s2(1)] by auto
  then show ?thesis by (rule fifo_free [OF _ _ _ _ s2(2)])
qed

lemma fifo_later_cases:
  assumes "h \<in> later_handlers (FifoScheduler_handlers K)"
  obtains "h = FifoScheduler_TaskRunnable K" | "h = FifoScheduler_TaskDead K" | "h = FifoScheduler_TaskDeparted K"
    | "h = FifoScheduler_TaskYield" | "h = FifoScheduler_TaskBlocked" | "h = FifoScheduler_TaskPreempted"
    | "h = FifoScheduler_TaskSwitchto" | "h = ignore_task"
  using assms by (auto simp: later_handlers_def FifoScheduler_handlers_def)

lemma fifo_later:
  assumes "fifo_inv s" and "h \<in> later_handlers (FifoScheduler_handlers K)" and "h g m s = Some s'"
  shows "fifo_inv s'"
  using assms(2)
proof (cases rule: fifo_later_cases)
  case 1 show ?thesis by (rule fifo_runnable [OF assms(1) assms(3) [unfolded 1]])
next
  case 2 show ?thesis by (rule fifo_dead [OF assms(1) assms(3) [unfolded 2]])
next
  case 3 show ?thesis by (rule fifo_departed [OF assms(1) assms(3) [unfolded 3]])
next
  case 4 show ?thesis by (rule fifo_yield [OF assms(1) assms(3) [unfolded 4]])
next
  case 5 show ?thesis by (rule fifo_blocked [OF assms(1) assms(3) [unfolded 5]])
next
  case 6 show ?thesis by (rule fifo_preempted [OF assms(1) assms(3) [unfolded 6]])
next
  case 7 show ?thesis by (rule fifo_switchto [OF assms(1) assms(3) [unfolded 7]])
next
  case 8 then show ?thesis using assms(1, 3) by (simp add: ignore_task_def)
qed

subsection \<open>What the handlers leave alone\<close>

text \<open>
  A handler for task \<open>g\<close> writes to no other task, keeps the sequence number of \<open>g\<close>, and leaves the
  enclave's CPUs, the channels and the logs of transactions and yields as they are.
\<close>

definition frame :: "gtid \<Rightarrow> FifoScheduler \<Rightarrow> FifoScheduler \<Rightarrow> bool" where
  "frame g s s' \<longleftrightarrow> cpus s' = cpus s \<and> channels s' = channels s \<and> txns s' = txns s \<and> yields s' = yields s
     \<and> (\<forall>h. h \<noteq> g \<longrightarrow> task_map s' h = task_map s h)
     \<and> (\<forall>t'. task_map s' g = Some t' \<longrightarrow> (\<exists>t. task_map s g = Some t \<and> seqnum t' = seqnum t))"

lemma frame_refl [simp]: "frame g s s"
  by (simp add: frame_def)

lemma frame_trans: "frame g s s1 \<Longrightarrow> frame g s1 s2 \<Longrightarrow> frame g s s2"
  by (simp add: frame_def) metis

lemma frame_upd_task: "upd_task g f s = Some s' \<Longrightarrow> (\<And>t. seqnum (f t) = seqnum t) \<Longrightarrow> frame g s s'"
  by (auto simp: frame_def upd_task_Some)

lemma frame_upd_cpu [simp]: "frame g s (upd_cpu c f s)"
  by (simp add: frame_def upd_cpu_def)

lemma frame_ping: "Ping c s = Some s' \<Longrightarrow> frame g s s'" "ping_switchto m s = Some s' \<Longrightarrow> frame g s s'"
  by (auto simp: frame_def ping_switchto_def Ping_def split: if_splits)

lemma frame_enqueue: "FifoRq_Enqueue c g s = Some s' \<Longrightarrow> frame g s s'"
  by (auto simp: FifoRq_Enqueue_def bind_eq_Some_conv intro: frame_trans [OF frame_upd_task])

lemma frame_erase: "FifoRq_Erase c g s = Some s' \<Longrightarrow> frame g s s'"
  by (auto simp: FifoRq_Erase_def bind_eq_Some_conv intro: frame_trans [OF frame_upd_task])

lemma frame_off_cpu: "TaskOffCpu g b sw s = Some s' \<Longrightarrow> frame g s s'"
  by (auto simp: TaskOffCpu_def bind_eq_Some_conv split: if_splits
      intro: frame_trans [OF frame_upd_cpu frame_upd_task] frame_upd_task)

lemma frame_assign: "AssignCpu s = Some (c, s') \<Longrightarrow> frame g s s'"
  by (auto simp: AssignCpu_def frame_def Let_def bind_eq_Some_conv)

lemma frame_migrate: "Migrate K g c n s = Some s' \<Longrightarrow> frame g s s'"
  by (auto simp: Migrate_def bind_eq_Some_conv
      intro: frame_trans [OF frame_upd_task frame_trans [OF frame_enqueue frame_ping(1)]])

lemma frame_free: "FreeTask f g s = Some s' \<Longrightarrow> frame g s s'"
  by (auto simp: FreeTask_def frame_def)

lemmas frames = frame_enqueue frame_erase frame_off_cpu frame_assign frame_migrate frame_free frame_ping frame_upd_task

lemma fifo_later_frame:
  assumes "h \<in> later_handlers (FifoScheduler_handlers K)" and "h g m s = Some s'" shows "frame g s s'"
  using assms(1)
proof (cases rule: fifo_later_cases)
  case 1
  then show ?thesis using assms(2)
    by (auto simp: FifoScheduler_TaskRunnable_def bind_eq_Some_conv split: if_splits
        intro: frame_trans [OF frame_upd_task frame_trans [OF frame_assign frame_migrate]] frame_trans [OF frame_upd_task frame_enqueue])
next
  case 2
  then show ?thesis using assms(2) by (auto simp: FifoScheduler_TaskDead_def bind_eq_Some_conv intro: frames)
next
  case 3
  then show ?thesis using assms(2)
    by (auto simp: FifoScheduler_TaskDeparted_def bind_eq_Some_conv split: if_splits
        intro: frame_trans [OF frame_off_cpu frame_trans [OF frame_ping(2) frame_free]]
          frame_trans [OF frame_erase frame_trans [OF frame_ping(2) frame_free]] frame_trans [OF frame_ping(2) frame_free])
next
  case 4
  then show ?thesis using assms(2)
    by (auto simp: FifoScheduler_TaskYield_def bind_eq_Some_conv intro: frame_trans [OF frame_off_cpu frame_trans [OF frame_enqueue frame_ping(2)]])
next
  case 5
  then show ?thesis using assms(2)
    by (auto simp: FifoScheduler_TaskBlocked_def bind_eq_Some_conv intro: frame_trans [OF frame_off_cpu frame_ping(2)])
next
  case 6
  then show ?thesis using assms(2)
    by (auto simp: FifoScheduler_TaskPreempted_def bind_eq_Some_conv
        intro: frame_trans [OF frame_off_cpu frame_trans [OF frame_upd_task frame_trans [OF frame_enqueue frame_ping(2)]]])
next
  case 7
  then show ?thesis using assms(2) by (auto simp: FifoScheduler_TaskSwitchto_def intro: frames)
next
  case 8
  then show ?thesis using assms(2) by (simp add: ignore_task_def)
qed

lemma enqueue_known: "FifoRq_Enqueue c g s = Some s' \<Longrightarrow> task_map s' g \<noteq> None"
  by (auto simp: FifoRq_Enqueue_def bind_eq_Some_conv upd_task_Some upd_cpu_def)

lemma migrate_known: "Migrate K g c n s = Some s' \<Longrightarrow> task_map s' g \<noteq> None"
  using enqueue_known by (fastforce simp: Migrate_def bind_eq_Some_conv Ping_def)

lemma fifo_new_frame:
  assumes "FifoScheduler_TaskNew K g m s = Some s'"
  obtains t where "task_map s g = Some t" "task_map s' g \<noteq> None"
    "frame g (s\<lparr>task_map := (task_map s)(g \<mapsto> t\<lparr>seqnum := msg_seqnum m, run_state := kBlocked\<rparr>)\<rparr>) s'"
proof -
  obtain s1 where s1: "upd_task g (\<lambda>t. t\<lparr>seqnum := msg_seqnum m, run_state := kBlocked\<rparr>) s = Some s1"
    and rest: "(if runnable m then do {
       s \<leftarrow> upd_task g (run_state_update (\<lambda>_. kRunnable)) s1;
       (c, s) \<leftarrow> AssignCpu s;
       Migrate K g c (msg_seqnum m) s }
     else Some s1) = Some s'"
    using assms by (auto simp: FifoScheduler_TaskNew_def bind_eq_Some_conv)
  have "frame g s1 s'"
    using rest by (auto simp: bind_eq_Some_conv split: if_splits
        intro: frame_trans [OF frame_upd_task frame_trans [OF frame_assign frame_migrate]])
  moreover have "task_map s' g \<noteq> None"
    using rest s1 migrate_known by (auto simp: bind_eq_Some_conv upd_task_Some split: if_splits)
  ultimately show thesis using that s1 by (auto simp: upd_task_Some)
qed

interpretation fifo: handler_contract FifoScheduler_handlers fifo_inv
proof unfold_locales
  fix s :: FifoScheduler and g t h k m s'
  assume inv: "fifo_inv s"
  { assume "task_map s g = None"
      "TaskNew (FifoScheduler_handlers k) g m (s\<lparr>task_map := (task_map s)(g \<mapsto> AllocTask (FifoScheduler_handlers k) g)\<rparr>) = Some s'"
    then show "fifo_inv s'" using fifo_new [OF inv] by (simp add: FifoScheduler_handlers_def) }
  { assume "h \<in> later_handlers (FifoScheduler_handlers k)" "h g m s = Some s'"
    then show "fifo_inv s'" by (rule fifo_later [OF inv]) }
  { fix n assume "task_map s g = Some t"
    then show "fifo_inv (s\<lparr>task_map := (task_map s)(g \<mapsto> t\<lparr>seqnum := n\<rparr>)\<rparr>)" using fifo_upd_other [OF inv] by simp }
qed (auto simp: cpu_handlers_def FifoScheduler_handlers_def ignore_msg_def)

interpretation fifo_const: handler_contract FifoScheduler_handlers "\<lambda>s. cpus s = C \<and> channels s = Ch" for C Ch
proof unfold_locales
  fix s :: FifoScheduler and g t h k m s'
  assume inv: "cpus s = C \<and> channels s = Ch"
  { assume "task_map s g = None"
      "TaskNew (FifoScheduler_handlers k) g m (s\<lparr>task_map := (task_map s)(g \<mapsto> AllocTask (FifoScheduler_handlers k) g)\<rparr>) = Some s'"
    then show "cpus s' = C \<and> channels s' = Ch" using fifo_new_frame inv by (force simp: FifoScheduler_handlers_def frame_def) }
  { assume "h \<in> later_handlers (FifoScheduler_handlers k)" "h g m s = Some s'"
    then show "cpus s' = C \<and> channels s' = Ch" using fifo_later_frame inv by (auto simp: frame_def) }
qed (auto simp: cpu_handlers_def FifoScheduler_handlers_def ignore_msg_def)

interpretation fifo: seqnum_contract FifoScheduler_handlers
proof unfold_locales
  fix s s' :: FifoScheduler and g g' h k m c
  { assume "TaskNew (FifoScheduler_handlers k) g m s = Some s'"
    then have "FifoScheduler_TaskNew k g m s = Some s'" by (simp add: FifoScheduler_handlers_def)
    then obtain t where new: "task_map s g = Some t" "task_map s' g \<noteq> None"
      "frame g (s\<lparr>task_map := (task_map s)(g \<mapsto> t\<lparr>seqnum := msg_seqnum m, run_state := kBlocked\<rparr>)\<rparr>) s'"
      by (rule fifo_new_frame)
    { assume "g' \<noteq> g"
      then show "map_option seqnum (task_map s' g') = map_option seqnum (task_map s g')" using new by (simp add: frame_def) }
    show "map_option seqnum (task_map s' g) = Some (msg_seqnum m)" using new by (auto simp: frame_def) }
  { assume h: "h \<in> later_handlers (FifoScheduler_handlers k)" "h g m s = Some s'"
    note fr = fifo_later_frame [OF h]
    { assume "task_map s' g' \<noteq> None"
      then show "map_option seqnum (task_map s' g') = map_option seqnum (task_map s g')"
        using fr by (cases "g' = g") (auto simp: frame_def) }
    { assume "g' \<noteq> g" then show "task_map s' g' = None \<longleftrightarrow> task_map s g' = None" using fr by (simp add: frame_def) } }
qed (auto simp: cpu_handlers_def FifoScheduler_handlers_def ignore_msg_def)

section \<open>The scheduling step\<close>

text \<open>The task that the step picks.\<close>

definition pick :: "int \<Rightarrow> bool \<Rightarrow> FifoScheduler \<Rightarrow> gtid option" where
  "pick c boosted s = (if boosted then None
     else case current (cpu_states s c) of Some g \<Rightarrow> Some g
     | None \<Rightarrow> (case run_queue (cpu_states s c) of [] \<Rightarrow> None | g # _ \<Rightarrow> Some g))"

text \<open>What the step does to the state of the CPU.\<close>

definition after_step :: "sched_env \<Rightarrow> int \<Rightarrow> u32 \<Rightarrow> bool \<Rightarrow> FifoScheduler \<Rightarrow> FifoScheduler \<Rightarrow> bool" where
  "after_step E c b boosted s s' \<longleftrightarrow> (case pick c boosted s of
     None \<Rightarrow> s' = s\<lparr>yields := yields s @ [(c, b, if boosted \<and> (current (cpu_states s c) \<noteq> None \<or> run_queue (cpu_states s c) \<noteq> [])
         then RTLA_ON_IDLE else 0)]\<rparr>
   | Some g \<Rightarrow> (\<exists>t. task_map s g = Some t \<and> txns s' = txns s @ [(c, g, seqnum t, b)])
       \<and> cpu_states s' = (cpu_states s)(c := (if commit_ok E g
           then \<lparr>current = Some g, run_queue = remove1 g (run_queue (cpu_states s c))\<rparr>
           else \<lparr>current = None, run_queue = g # remove1 g (run_queue (cpu_states s c))\<rparr>))
       \<and> yields s' = yields s \<and> (\<forall>h. h \<noteq> g \<longrightarrow> task_map s' h = task_map s h)
       \<and> map_option seqnum (task_map s' g) = map_option seqnum (task_map s g))"

lemma schedule_current:
  assumes "fifo_inv s" and "current (cpu_states s c) = Some g" and "\<exists>k. \<not> on_cpu E g k"
  shows "\<exists>s'. FifoSchedule E c b False s = Some s' \<and> after_step E c b False s s'"
proof -
  obtain i where w: "wait_off_cpu (on_cpu E g) 0 = Some i" using wait_done [OF assms(3)] by blast
  have "in_state s g kOnCpu c" using fifo_okD(4) [OF assms(1)] assms(2) by simp
  then obtain t where t: "task_map s g = Some t" "run_state t = kOnCpu" "task_cpu t = c"
    by (auto simp: in_state_def split: option.splits)
  have c: "0 \<le> c" "c < int MAX_CPUS"
    using fifo_okD(7) [OF assms(1) t(1)] t enclave_cpu_nonneg enclave_cpu_max [OF _ fifo_okD(1) [OF assms(1)]] by auto
  have "g \<notin> set (run_queue (cpu_states s c))" using fifo_okD(3) [OF assms(1)] t by (auto simp: in_state_def)
  then have r: "remove1 g (run_queue (cpu_states s c)) = run_queue (cpu_states s c)" by (simp add: remove1_idem)
  show ?thesis
  proof (cases "commit_ok E g")
    case True
    then show ?thesis using assms(2) w t r
      by (simp add: FifoSchedule_def TaskOnCpu_def upd_task_def upd_cpu_def after_step_def pick_def fun_eq_iff)
  next
    case False
    then show ?thesis using assms(2) w t c r
      by (simp add: FifoSchedule_def TaskOffCpu_def cpu_state_of_def FifoRq_Enqueue_def upd_task_def upd_cpu_def
          after_step_def pick_def fun_eq_iff)
  qed
qed

lemma schedule_queued:
  assumes "fifo_inv s" and "current (cpu_states s c) = None" and "run_queue (cpu_states s c) = g # rq" and "\<exists>k. \<not> on_cpu E g k"
  shows "\<exists>s'. FifoSchedule E c b False s = Some s' \<and> after_step E c b False s s'"
proof -
  obtain i where w: "wait_off_cpu (on_cpu E g) 0 = Some i" using wait_done [OF assms(4)] by blast
  have "in_state s g kQueued c" using fifo_okD(3) [OF assms(1), of g c] assms(3) by simp
  then obtain t where t: "task_map s g = Some t" "run_state t = kQueued" "task_cpu t = c"
    by (auto simp: in_state_def split: option.splits)
  have c: "0 \<le> c" using fifo_okD(7) [OF assms(1) t(1)] t enclave_cpu_nonneg by auto
  show ?thesis
  proof (cases "commit_ok E g")
    case True
    then show ?thesis using assms(2, 3) w t
      by (simp add: FifoSchedule_def FifoRq_Dequeue_def TaskOnCpu_def upd_task_def upd_cpu_def after_step_def pick_def fun_eq_iff)
  next
    case False
    then show ?thesis using assms(2, 3) w t c
      by (simp add: FifoSchedule_def FifoRq_Dequeue_def FifoRq_Enqueue_def upd_task_def upd_cpu_def after_step_def pick_def fun_eq_iff)
  qed
qed

lemma schedule_total:
  assumes "fifo_inv s" and "\<And>g. pick c boosted s = Some g \<Longrightarrow> \<exists>k. \<not> on_cpu E g k"
  shows "\<exists>s'. FifoSchedule E c b boosted s = Some s' \<and> after_step E c b boosted s s'"
proof (cases "pick c boosted s")
  case None
  have "FifoRq_Dequeue c s = Some (None, s)" if "run_queue (cpu_states s c) = []" using that by (simp add: FifoRq_Dequeue_def)
  then show ?thesis using None by (auto simp: FifoSchedule_def after_step_def pick_def split: if_splits option.splits list.splits)
next
  case (Some g)
  then have boost: "\<not> boosted" and ex: "\<exists>k. \<not> on_cpu E g k" using assms(2) by (auto simp: pick_def)
  show ?thesis
  proof (cases "current (cpu_states s c)")
    case None
    then obtain rq where "run_queue (cpu_states s c) = g # rq" using Some boost by (auto simp: pick_def split: list.splits)
    then show ?thesis using schedule_queued [OF assms(1) None _ ex] boost by simp
  next
    case (Some g')
    then have "g' = g" using \<open>pick c boosted s = Some g\<close> boost by (simp add: pick_def)
    then show ?thesis using schedule_current [OF assms(1) _ ex] Some boost by simp
  qed
qed

lemma fifo_schedule:
  assumes "fifo_inv s" and "enclave_cpu s c" and "FifoSchedule E c b boosted s = Some s'"
  shows "fifo_inv s'"
proof -
  obtain ng s1 where s1: "(if \<not> boosted then (case current (cpu_states s c) of Some g \<Rightarrow> Some (Some g, s) | None \<Rightarrow> FifoRq_Dequeue c s)
      else Some (None, s)) = Some (ng, s1)"
    and rest: "(case ng of Some g \<Rightarrow> do {
         wait_off_cpu (on_cpu E g) 0;
         t \<leftarrow> task_map s1 g;
         let s = s1\<lparr>txns := txns s1 @ [(c, g, seqnum t, b)]\<rparr>;
         if commit_ok E g then TaskOnCpu g c s
         else do {
           s \<leftarrow> (if current (cpu_states s c) = Some g then TaskOffCpu g False False s else Some s);
           s \<leftarrow> upd_task g (prio_boost_update (\<lambda>_. True)) s;
           FifoRq_Enqueue c g s } }
     | None \<Rightarrow>
         let flags = (if boosted \<and> (current (cpu_states s1 c) \<noteq> None \<or> run_queue (cpu_states s1 c) \<noteq> []) then RTLA_ON_IDLE else 0)
         in Some (s1\<lparr>yields := yields s1 @ [(c, b, flags)]\<rparr>)) = Some s'"
    using assms(3) unfolding FifoSchedule_def by (auto simp: bind_eq_Some_conv)
  show ?thesis
  proof (cases ng)
    case None
    then have "s1 = s"
      using s1 fifo_dequeue [OF assms(1), of c] by (auto split: if_splits option.splits)
    then show ?thesis using rest None assms(1) by (auto simp: Let_def)
  next
    case (Some g)
    have pos: "fifo_ok (Some g) s1 \<and> in_state s1 g kRunnable c \<and> current (cpu_states s1 c) = None
        \<or> s1 = s \<and> current (cpu_states s1 c) = Some g" and enc: "enclave_cpu s1 c"
      using s1 Some fifo_dequeue [OF assms(1), of c] assms(2) by (auto split: if_splits option.splits)
    obtain t where t: "task_map s1 g = Some t" using rest Some by (auto simp: bind_eq_Some_conv)
    let ?s = "s1\<lparr>txns := txns s1 @ [(c, g, seqnum t, b)]\<rparr>"
    show ?thesis
    proof (cases "commit_ok E g")
      case True
      then have s': "TaskOnCpu g c ?s = Some s'" using rest Some t by (auto simp: bind_eq_Some_conv Let_def)
      show ?thesis
        by (rule fifo_on_cpu [OF _ _ s', of "if s1 = s \<and> current (cpu_states s1 c) = Some g then None else Some g"])
          (use pos enc assms(1) in \<open>auto split: if_splits\<close>)
    next
      case False
      obtain s2 where s2: "(if current (cpu_states ?s c) = Some g then TaskOffCpu g False False ?s else Some ?s) = Some s2"
        and s': "(do { s \<leftarrow> upd_task g (prio_boost_update (\<lambda>_. True)) s2; FifoRq_Enqueue c g s }) = Some s'"
        using rest Some t False by (auto simp: bind_eq_Some_conv Let_def)
      have s2': "fifo_ok (Some g) s2 \<and> in_state s2 g kRunnable c \<and> enclave_cpu s2 c"
      proof (cases "current (cpu_states ?s c) = Some g")
        case True
        then have off: "TaskOffCpu g False False ?s = Some s2" and inv: "fifo_inv ?s" using s2 pos assms(1) by auto
        have "in_state ?s g kOnCpu c" using fifo_okD(4) [OF inv] True by simp
        then have "in_state s2 g kRunnable c"
          using off by (auto simp: TaskOffCpu_def cpu_state_of_def in_state_def upd_task_def upd_cpu_def bind_eq_Some_conv split: option.splits if_splits)
        moreover have "enclave_cpu s2 c" using enc fifo_off_cpu(3) [OF inv off] by (simp add: enclave_cpu_def)
        ultimately show ?thesis using fifo_off_cpu(1) [OF inv off] by simp
      next
        case False
        then show ?thesis using s2 pos enc by auto
      qed
      obtain t2 where t2: "task_map s2 g = Some t2" "task_cpu t2 = c" using s2' by (auto simp: in_state_def split: option.splits)
      let ?s3 = "s2\<lparr>task_map := (task_map s2)(g \<mapsto> t2\<lparr>prio_boost := True\<rparr>)\<rparr>"
      have "fifo_ok (Some g) ?s3" by (rule fifo_upd_other [OF _ t2(1)]) (use s2' in simp_all)
      moreover have "FifoRq_Enqueue c g ?s3 = Some s'" using s' t2(1) by (simp add: upd_task_def)
      ultimately show ?thesis using fifo_enqueue [of "Some g" ?s3 g "t2\<lparr>prio_boost := True\<rparr>" c s'] s2' t2(2) by simp
    qed
  qed
qed

end
