(* ===== verification/Fifo_Runs.thy ===== *)
theory Fifo_Runs
  imports Fifo_PerCpu
begin

text \<open>
  Runs of the per-CPU FIFO scheduler: the reachable states, the messages on which it aborts, the
  outcome of a scheduling step, placement, and the order in which queued tasks run.
\<close>

section \<open>Runs of the scheduler\<close>

lemma mfold_channels_inv:
  "mfold (\<lambda>c s. let s = s\<lparr>channels := (channels s)(int c \<mapsto> MakeChannel (int c))\<rparr> in
      Some (if default_channel s = None then s\<lparr>default_channel := Some (int c)\<rparr> else s)) cs s
   = Some (s\<lparr>channels := (\<lambda>d. if d \<in> int ` set cs then Some (MakeChannel d) else channels s d),
        default_channel := (if default_channel s = None then (case cs of [] \<Rightarrow> None | c # _ \<Rightarrow> Some (int c)) else default_channel s)\<rparr>)"
proof (induction cs arbitrary: s)
  case (Cons c cs)
  show ?case using Cons.IH by (cases "default_channel s") (auto simp: Let_def fun_eq_iff)
qed simp

lemma fifo_init:
  assumes "map_ok C" and "in_topology C"
  obtains s where "FifoScheduler_init C mk = Some s" "fifo_inv s" "cpus s = C" "dom (channels s) = int ` set (cpu_ids C)"
    "next_cpu s = iter_at C []" "task_map s = Map.empty"
proof -
  define s0 :: FifoScheduler where "s0 = \<lparr>task_map = Map.empty, cpu_states = (\<lambda>_. \<lparr>current = None, run_queue = []\<rparr>), channels = Map.empty,
        cpus = C, next_cpu = iter_at C [], pings = [], txns = [], yields = [], default_channel = None\<rparr>"
  have init: "FifoScheduler_init C mk = Some (s0\<lparr>channels := (\<lambda>d. if d \<in> int ` set (cpu_ids C) then Some (mk d) else channels s0 d),
        default_channel := (if default_channel s0 = None then (case cpu_ids C of [] \<Rightarrow> None | c # _ \<Rightarrow> Some (int c)) else default_channel s0)\<rparr>)"
    (is "_ = Some ?s")
    unfolding FifoScheduler_init_def iter_ends(2) [OF assms] for_cpus_ids [OF assms] bind.bind_lunit
    unfolding mfold_channels_inv s0_def [symmetric] ..
  have "placement_ok ?s" unfolding placement_ok_def using assms by (auto simp: s0_def)
  then have "fifo_inv ?s" by (intro fifo_okI) (auto simp: s0_def in_state_def)
  moreover have "dom (channels ?s) = int ` set (cpu_ids C)" by (auto simp: s0_def dom_def)
  ultimately show thesis using that [OF init] by (simp add: s0_def)
qed

text \<open>
  The runs: messages of any kind arrive in any order on any channel, the agents decide on their
  CPUs, the kernel writes to the channels, and tasks are discovered.
\<close>

inductive fifo_reachable :: "cpu_map \<Rightarrow> FifoScheduler \<Rightarrow> bool" for C where
  init: "map_ok C \<Longrightarrow> in_topology C \<Longrightarrow> FifoScheduler_init C mk = Some s \<Longrightarrow> fifo_reachable C s"
| message: "fifo_reachable C s \<Longrightarrow> DispatchMessage (FifoScheduler_handlers K) m s = Some s' \<Longrightarrow> fifo_reachable C s'"
| decide: "fifo_reachable C s \<Longrightarrow> c \<in> set (cpu_ids C) \<Longrightarrow> FifoSchedule E (int c) b boosted s = Some s' \<Longrightarrow> fifo_reachable C s'"
| produce: "fifo_reachable C s \<Longrightarrow> dom Ch = dom (channels s) \<Longrightarrow> fifo_reachable C (s\<lparr>channels := Ch\<rparr>)"
| discover: "fifo_reachable C s \<Longrightarrow> DiscoverTasks (FifoScheduler_handlers K) sws s = Some s' \<Longrightarrow> fifo_reachable C s'"

definition same_env :: "FifoScheduler \<Rightarrow> FifoScheduler \<Rightarrow> bool" where
  "same_env s s' \<longleftrightarrow> cpus s' = cpus s \<and> channels s' = channels s"

lemma same_env_trans: "same_env s s1 \<Longrightarrow> same_env s1 s2 \<Longrightarrow> same_env s s2"
  by (simp add: same_env_def)

lemma same_env_basic:
  "frame g s s' \<Longrightarrow> same_env s s'" "FifoRq_Dequeue c s = Some (ng, s') \<Longrightarrow> same_env s s'" "TaskOnCpu g c s = Some s' \<Longrightarrow> same_env s s'"
  by (auto simp: same_env_def frame_def FifoRq_Dequeue_def TaskOnCpu_def upd_task_Some upd_cpu_def bind_eq_Some_conv split: list.splits)

lemma schedule_const:
  assumes "FifoSchedule E c b boosted s = Some s'" shows "same_env s s'"
proof -
  obtain ng s1 where s1: "(if \<not> boosted then (case current (cpu_states s c) of Some g \<Rightarrow> Some (Some g, s) | None \<Rightarrow> FifoRq_Dequeue c s)
      else Some (None, s)) = Some (ng, s1)"
    using assms unfolding FifoSchedule_def by (auto simp: bind_eq_Some_conv)
  then have e1: "same_env s s1" using same_env_basic(2) [of c s ng s1] by (auto simp: same_env_def split: if_splits option.splits)
  show ?thesis
  proof (cases ng)
    case None
    then show ?thesis using assms s1 e1 by (auto simp: FifoSchedule_def same_env_def Let_def)
  next
    case (Some g)
    then obtain t where "task_map s1 g = Some t" and rest: "(if commit_ok E g then TaskOnCpu g c (s1\<lparr>txns := txns s1 @ [(c, g, seqnum t, b)]\<rparr>)
         else do {
           s \<leftarrow> (if current (cpu_states (s1\<lparr>txns := txns s1 @ [(c, g, seqnum t, b)]\<rparr>) c) = Some g then TaskOffCpu g False False (s1\<lparr>txns := txns s1 @ [(c, g, seqnum t, b)]\<rparr>)
                else Some (s1\<lparr>txns := txns s1 @ [(c, g, seqnum t, b)]\<rparr>));
           s \<leftarrow> upd_task g (prio_boost_update (\<lambda>_. True)) s;
           FifoRq_Enqueue c g s }) = Some s'"
      using assms s1 by (auto simp: FifoSchedule_def Let_def bind_eq_Some_conv)
    have "same_env (s1\<lparr>txns := txns s1 @ [(c, g, seqnum t, b)]\<rparr>) s'"
      using rest by (auto simp: bind_eq_Some_conv split: if_splits
          intro: same_env_basic(1) [OF frame_trans [OF frame_off_cpu frame_trans [OF frame_upd_task frame_enqueue]]]
            same_env_basic(1) [OF frame_trans [OF frame_upd_task frame_enqueue]] same_env_basic(3))
    then show ?thesis using e1 by (simp add: same_env_def)
  qed
qed

lemma fifo_reachable_inv:
  assumes "fifo_reachable C s" shows "fifo_inv s \<and> cpus s = C \<and> dom (channels s) = int ` set (cpu_ids C)"
  using assms
proof induction
  case (init mk s)
  then show ?case using fifo_init [of C mk] by (metis option.inject)
next
  case (message s K m s')
  then show ?case using fifo.dispatch_inv [of K m s s'] fifo_const.dispatch_inv [of K m s s' C "channels s"] by auto
next
  case (decide s c E b boosted s')
  then have "enclave_cpu s (int c)" by (simp add: enclave_cpu_def)
  then show ?case using decide fifo_schedule [of s "int c"] schedule_const [OF decide.hyps(3)] by (auto simp: same_env_def)
next
  case (produce s Ch)
  then show ?case by simp
next
  case (discover s K sws s')
  then show ?case using fifo.discover_inv [of K sws s s'] fifo_const.discover_inv [of K sws s s' C "channels s"] by auto
qed

text \<open>A whole step of an agent is such a run.\<close>

lemma fifo_reachable_Schedule:
  assumes "fifo_reachable C s" and "c \<in> set (cpu_ids C)" and "Schedule E (int c) b boosted s = Some s'"
  shows "fifo_reachable C s'"
proof -
  obtain r r1 s1 where r: "channels s (int c) = Some r"
    "drain_channel (\<lambda>m. DispatchMessage (FifoScheduler_handlers (msg_env E m)) m) r s = Some (r1, s1)"
    "FifoSchedule E (int c) b boosted (s1\<lparr>channels := (channels s1)(int c \<mapsto> r1)\<rparr>) = Some s'"
    using assms(3) by (auto simp: Schedule_def bind_eq_Some_conv)
  have "fifo_reachable C s1" by (rule drain_inv [where P = "fifo_reachable C", OF r(2) assms(1)]) (rule fifo_reachable.message)
  moreover from this have "int c \<in> dom (channels s1)" using fifo_reachable_inv assms(2) by blast
  then have "dom ((channels s1)(int c \<mapsto> r1)) = dom (channels s1)" by auto
  ultimately show ?thesis using fifo_reachable.decide [OF fifo_reachable.produce assms(2) r(3)] by blast
qed

section \<open>When a message is fatal\<close>

text \<open>The CPU that the next call of \<open>AssignCpu\<close> takes, and whether the kernel lets the task move there.\<close>

definition next_place :: "FifoScheduler \<Rightarrow> int" where
  "next_place s = (case it_cpu (next_cpu s) of Some c \<Rightarrow> int c | None \<Rightarrow> int (hd (cpu_ids (cpus s))))"

definition placeable :: "kernel \<Rightarrow> gtid \<Rightarrow> u32 \<Rightarrow> FifoScheduler \<Rightarrow> bool" where
  "placeable K g n s \<longleftrightarrow> cpu_ids (cpus s) \<noteq> [] \<and> associate K (next_place s) g n"

text \<open>The task can leave a CPU: it is running, or it was blocked and ran by a switchto.\<close>

definition can_leave :: "message \<Rightarrow> FifoTask \<Rightarrow> FifoScheduler \<Rightarrow> bool" where
  "can_leave m t s \<longleftrightarrow> (run_state t = kOnCpu \<or> from_switchto m \<and> run_state t = kBlocked \<and> 0 \<le> task_cpu t)
     \<and> (from_switchto m \<longrightarrow> enclave_cpu s (msg_cpu m))"

definition legal_later :: "kernel \<Rightarrow> message \<Rightarrow> FifoTask \<Rightarrow> FifoScheduler \<Rightarrow> bool" where
  "legal_later K m t s \<longleftrightarrow>
     (if has_type m MSG_TASK_DEAD then run_state t = kBlocked \<and> sw_free K (msg_gtid m)
      else if has_type m MSG_TASK_DEPARTED
      then (run_state t = kOnCpu \<or> from_switchto m \<longrightarrow> can_leave m t s) \<and> sw_free K (msg_gtid m)
      else seqnum t < msg_seqnum m \<and>
        (if has_type m MSG_TASK_WAKEUP then run_state t = kBlocked \<and> (task_cpu t < 0 \<longrightarrow> placeable K (msg_gtid m) (msg_seqnum m) s)
         else if has_type m MSG_TASK_BLOCKED \<or> has_type m MSG_TASK_YIELD \<or> has_type m MSG_TASK_PREEMPT then can_leave m t s
         else if has_type m MSG_TASK_SWITCHTO then run_state t = kOnCpu
         else has_type m MSG_TASK_AFFINITY_CHANGED \<or> has_type m MSG_TASK_PRIORITY_CHANGED \<or> has_type m MSG_TASK_ON_CPU))"

definition fifo_legal :: "kernel \<Rightarrow> message \<Rightarrow> FifoScheduler \<Rightarrow> bool" where
  "fifo_legal K m s \<longleftrightarrow> has_type m MSG_NOP \<or> is_cpu_msg m \<and> msg_type m \<le> type_num MSG_CPU_AGENT_WAKEUP
     \<or> \<not> is_cpu_msg m \<and> msg_gtid m \<noteq> 0 \<and> (case task_map s (msg_gtid m) of
         None \<Rightarrow> if has_type m MSG_TASK_NEW
           then sw_id (msg_sw_info m) = table_id (status_words K) \<and> sw_index (msg_sw_info m) < capacity (status_words K)
             \<and> (runnable m \<longrightarrow> placeable K (msg_gtid m) (msg_seqnum m) s)
           else describe_type m \<noteq> None \<or> verbosity K < 0
       | Some t \<Rightarrow> has_type m MSG_TASK_NEW \<or> legal_later K m t s)"

lemma enqueue_total:
  "task_map s g = Some t \<Longrightarrow> FifoRq_Enqueue c g s = None \<longleftrightarrow> \<not> (0 \<le> task_cpu t \<and> run_state t = kRunnable)"
  by (auto simp: FifoRq_Enqueue_def upd_task_def bind_eq_None_conv)

lemma ping_total: "Ping c s = None \<longleftrightarrow> \<not> enclave_cpu s c"
  by (auto simp: Ping_def enclave_cpu_def)

lemma ping_switchto_total: "ping_switchto m s = None \<longleftrightarrow> from_switchto m \<and> \<not> enclave_cpu s (msg_cpu m)"
  by (auto simp: ping_switchto_def ping_total)

lemma assign_place:
  assumes "placement_ok s" and "cpu_ids (cpus s) \<noteq> []"
  obtains it where "AssignCpu s = Some (next_place s, s\<lparr>next_cpu := it\<rparr>)" "enclave_cpu s (next_place s)"
proof -
  obtain ys xs where s: "map_ok (cpus s)" "in_topology (cpus s)" "cpu_ids (cpus s) = ys @ xs" "next_cpu s = iter_at (cpus s) xs"
    using assms(1) by (auto simp: placement_ok_def)
  obtain c ws where c: "(if xs = [] then ys else xs) = c # ws" using assms(2) s(3) by (cases xs; cases ys) auto
  have p: "next_place s = int c" using c s(3, 4) by (cases xs) (auto simp: next_place_def iter_at_def)
  have "c \<in> set (cpu_ids (cpus s))" using c s(3) by (auto split: if_splits)
  then show thesis using that assign_next(1) [OF s refl c] p by (simp add: enclave_cpu_def)
qed

lemma assign_none: "placement_ok s \<Longrightarrow> cpu_ids (cpus s) = [] \<Longrightarrow> AssignCpu s = None"
  by (rule ccontr) (force simp: enclave_cpu_def elim: assign_some)

lemma place_total:
  assumes "fifo_ok fl s" and "task_map s g = Some t" and "run_state t = kRunnable" and "task_cpu t = -1"
  shows "(do { (c, s) \<leftarrow> AssignCpu s; Migrate K g c n s }) = None \<longleftrightarrow> \<not> placeable K g n s"
proof (cases "cpu_ids (cpus s) = []")
  case True
  then show ?thesis using assign_none [OF fifo_okD(1) [OF assms(1)]] by (simp add: placeable_def)
next
  case False
  obtain it where it: "AssignCpu s = Some (next_place s, s\<lparr>next_cpu := it\<rparr>)" "enclave_cpu s (next_place s)"
    by (rule assign_place [OF fifo_okD(1) [OF assms(1)] False])
  have "Migrate K g (next_place s) n (s\<lparr>next_cpu := it\<rparr>) = None \<longleftrightarrow> \<not> associate K (next_place s) g n"
    using assms(2-4) enclave_cpu_nonneg [OF it(2)] it(2)
    by (auto simp: Migrate_def upd_task_def FifoRq_Enqueue_def Ping_def upd_cpu_def enclave_cpu_def bind_eq_None_conv)
  then show ?thesis using it(1) False by (simp add: placeable_def)
qed

lemma off_cpu_total:
  assumes "fifo_inv s" and "task_map s g = Some t"
  shows "TaskOffCpu g b sw s = None \<longleftrightarrow> \<not> (run_state t = kOnCpu \<or> sw \<and> run_state t = kBlocked \<and> 0 \<le> task_cpu t)"
proof -
  have "task_cpu t < int MAX_CPUS" if "0 \<le> task_cpu t"
    using fifo_okD(6) [OF assms] that enclave_cpu_max [OF _ fifo_okD(1) [OF assms(1)]] by auto
  moreover have "0 \<le> task_cpu t" if "run_state t = kOnCpu"
    using fifo_okD(7) [OF assms] that enclave_cpu_nonneg by auto
  moreover have "current (cpu_states s (task_cpu t)) = Some g" if "run_state t = kOnCpu"
    using fifo_okD(4) [OF assms(1), of "task_cpu t" g] that assms(2) by (simp add: in_state_def)
  ultimately show ?thesis using assms(2)
    by (auto simp: TaskOffCpu_def cpu_state_of_def upd_task_def upd_cpu_def bind_eq_None_conv)
qed

lemma enclave_cong: "cpus s' = cpus s \<Longrightarrow> enclave_cpu s' c = enclave_cpu s c"
  by (simp add: enclave_cpu_def)

lemma placeable_cong: "cpus s' = cpus s \<Longrightarrow> next_cpu s' = next_cpu s \<Longrightarrow> placeable K g n s' = placeable K g n s"
  by (simp add: placeable_def next_place_def split: option.split)

lemma new_total:
  assumes "fifo_inv s" and "task_map s g = None"
  shows "FifoScheduler_TaskNew K g m (s\<lparr>task_map := (task_map s)(g \<mapsto> FifoTask_init)\<rparr>) = None
    \<longleftrightarrow> runnable m \<and> \<not> placeable K g (msg_seqnum m) s"
proof -
  let ?t = "FifoTask_init\<lparr>seqnum := msg_seqnum m, run_state := kRunnable\<rparr>"
  let ?s = "s\<lparr>task_map := (task_map s)(g \<mapsto> ?t)\<rparr>"
  have ok: "fifo_ok (Some g) ?s"
    by (rule fifo_set_idle [OF assms(1)]) (use assms(2) in \<open>auto simp: FifoTask_init_def in_state_def\<close>)
  have "(do { (c, s) \<leftarrow> AssignCpu ?s; Migrate K g c (msg_seqnum m) s }) = None \<longleftrightarrow> \<not> placeable K g (msg_seqnum m) s"
    using place_total [OF ok, of g ?t K "msg_seqnum m"] placeable_cong [of ?s s] by (simp add: FifoTask_init_def)
  then show ?thesis by (simp add: FifoScheduler_TaskNew_def upd_task_def)
qed

lemma runnable_total:
  assumes "fifo_inv s" and "task_map s g = Some t"
  shows "FifoScheduler_TaskRunnable K g m s = None
    \<longleftrightarrow> \<not> (run_state t = kBlocked \<and> (task_cpu t < 0 \<longrightarrow> placeable K g (msg_seqnum m) s))"
proof (cases "run_state t = kBlocked")
  case True
  let ?t = "t\<lparr>run_state := kRunnable, prio_boost := \<not> deferrable m\<rparr>"
  let ?s = "s\<lparr>task_map := (task_map s)(g \<mapsto> ?t)\<rparr>"
  have ok: "fifo_ok (Some g) ?s" by (rule fifo_make_runnable [OF assms True]) simp_all
  show ?thesis
  proof (cases "task_cpu t < 0")
    case neg: True
    then have "task_cpu t = -1" using fifo_okD(6) [OF assms] enclave_cpu_nonneg by fastforce
    then have "(do { (c, s) \<leftarrow> AssignCpu ?s; Migrate K g c (msg_seqnum m) s }) = None \<longleftrightarrow> \<not> placeable K g (msg_seqnum m) s"
      using place_total [OF ok, of g ?t K "msg_seqnum m"] placeable_cong [of ?s s] by simp
    then show ?thesis using True neg assms(2) by (simp add: FifoScheduler_TaskRunnable_def upd_task_def)
  next
    case False
    then have "enclave_cpu s (task_cpu t)" using fifo_okD(6) [OF assms] by auto
    then have "task_cpu t < int MAX_CPUS" using enclave_cpu_max fifo_okD(1) [OF assms(1)] by blast
    then show ?thesis using True False assms(2)
      by (simp add: FifoScheduler_TaskRunnable_def upd_task_def cpu_state_of_def FifoRq_Enqueue_def)
  qed
next
  case False
  then show ?thesis using assms(2) by (simp add: FifoScheduler_TaskRunnable_def)
qed

lemma off_cpu_result:
  assumes "fifo_inv s" and "TaskOffCpu g False sw s = Some s1"
  obtains t1 where "task_map s1 g = Some t1" "run_state t1 = kRunnable" "0 \<le> task_cpu t1" "task_cpu t1 < int MAX_CPUS" "cpus s1 = cpus s"
proof -
  obtain c where "in_state s1 g kRunnable c" "enclave_cpu s1 c" "placement_ok s1" "cpus s1 = cpus s"
    using fifo_off_cpu [OF assms] fifo_okD(1) by auto
  then show thesis using that enclave_cpu_nonneg enclave_cpu_max by (force simp: in_state_def split: option.splits)
qed

lemma leave_total:
  assumes "fifo_inv s" and "task_map s g = Some t"
    and "\<And>s1. TaskOffCpu g b (from_switchto m) s = Some s1 \<Longrightarrow> k s1 = None \<longleftrightarrow> from_switchto m \<and> \<not> enclave_cpu s (msg_cpu m)"
  shows "(do { s \<leftarrow> TaskOffCpu g b (from_switchto m) s; k s }) = None \<longleftrightarrow> \<not> can_leave m t s"
  using off_cpu_total [OF assms(1, 2), of b "from_switchto m"] assms(3)
  by (cases "TaskOffCpu g b (from_switchto m) s") (auto simp: can_leave_def)

lemma blocked_total:
  assumes "fifo_inv s" and "task_map s g = Some t" shows "FifoScheduler_TaskBlocked g m s = None \<longleftrightarrow> \<not> can_leave m t s"
  unfolding FifoScheduler_TaskBlocked_def
  by (rule leave_total [OF assms]) (use fifo_off_cpu(3) [OF assms(1)] in \<open>auto simp: ping_switchto_total enclave_cpu_def\<close>)

lemma yield_total:
  assumes "fifo_inv s" and "task_map s g = Some t" shows "FifoScheduler_TaskYield g m s = None \<longleftrightarrow> \<not> can_leave m t s"
  unfolding FifoScheduler_TaskYield_def
proof (rule leave_total [OF assms])
  fix s1 assume "TaskOffCpu g False (from_switchto m) s = Some s1"
  then obtain t1 where "task_map s1 g = Some t1" "run_state t1 = kRunnable" "0 \<le> task_cpu t1" "task_cpu t1 < int MAX_CPUS" "cpus s1 = cpus s"
    by (rule off_cpu_result [OF assms(1)])
  then show "(do { c \<leftarrow> cpu_state_of g s1; s \<leftarrow> FifoRq_Enqueue c g s1; ping_switchto m s }) = None
      \<longleftrightarrow> from_switchto m \<and> \<not> enclave_cpu s (msg_cpu m)"
    by (simp add: cpu_state_of_def FifoRq_Enqueue_def upd_task_def upd_cpu_def ping_switchto_total enclave_cpu_def)
qed

lemma preempted_total:
  assumes "fifo_inv s" and "task_map s g = Some t" shows "FifoScheduler_TaskPreempted g m s = None \<longleftrightarrow> \<not> can_leave m t s"
  unfolding FifoScheduler_TaskPreempted_def
proof (rule leave_total [OF assms])
  fix s1 assume "TaskOffCpu g False (from_switchto m) s = Some s1"
  then obtain t1 where "task_map s1 g = Some t1" "run_state t1 = kRunnable" "0 \<le> task_cpu t1" "task_cpu t1 < int MAX_CPUS" "cpus s1 = cpus s"
    by (rule off_cpu_result [OF assms(1)])
  then show "(do { s \<leftarrow> upd_task g (\<lambda>t. t\<lparr>preempted := True, prio_boost := True\<rparr>) s1; c \<leftarrow> cpu_state_of g s;
        s \<leftarrow> FifoRq_Enqueue c g s; ping_switchto m s }) = None \<longleftrightarrow> from_switchto m \<and> \<not> enclave_cpu s (msg_cpu m)"
    by (simp add: cpu_state_of_def FifoRq_Enqueue_def upd_task_def upd_cpu_def ping_switchto_total enclave_cpu_def)
qed

lemma departed_total:
  assumes "fifo_inv s" and "task_map s g = Some t"
  shows "FifoScheduler_TaskDeparted K g m s = None
    \<longleftrightarrow> \<not> ((run_state t = kOnCpu \<or> from_switchto m \<longrightarrow> can_leave m t s) \<and> sw_free K g)"
proof (cases "sw_free K g")
  case False
  then show ?thesis using assms(2) by (auto simp: FifoScheduler_TaskDeparted_def FreeTask_def bind_eq_None_conv)
next
  case free: True
  show ?thesis
  proof (cases "run_state t = kOnCpu \<or> from_switchto m")
    case True
    have "(do { s \<leftarrow> TaskOffCpu g False (from_switchto m) s; s \<leftarrow> ping_switchto m s; FreeTask (sw_free K) g s }) = None \<longleftrightarrow> \<not> can_leave m t s"
      by (rule leave_total [OF assms])
        (use fifo_off_cpu(3) [OF assms(1)] free in \<open>auto simp: FreeTask_def bind_eq_None_conv ping_switchto_total enclave_cpu_def\<close>)
    then show ?thesis using True free assms(2) by (simp add: FifoScheduler_TaskDeparted_def)
  next
    case False
    have "FifoRq_Erase (task_cpu t) g s \<noteq> None \<and> 0 \<le> task_cpu t \<and> task_cpu t < int MAX_CPUS" if q: "run_state t = kQueued"
    proof -
      have enc: "enclave_cpu s (task_cpu t)" using fifo_okD(7) [OF assms] q by simp
      have "g \<in> set (run_queue (cpu_states s (task_cpu t)))"
        using fifo_okD(3) [OF assms(1), of g "task_cpu t"] q assms(2) by (simp add: in_state_def)
      then show ?thesis using enclave_cpu_nonneg [OF enc] enclave_cpu_max [OF enc fifo_okD(1) [OF assms(1)]] q assms(2)
          rq_erase_spec [OF fifo_okD(2) [OF assms(1), of "task_cpu t"]]
        by (simp add: FifoRq_Erase_def upd_task_def)
    qed
    moreover have "run_state t \<noteq> kRunnable" using fifo_okD(5) [OF assms] by auto
    ultimately show ?thesis
      by (cases "run_state t"; cases "FifoRq_Erase (task_cpu t) g s")
        (use False free assms(2) in \<open>simp_all add: FifoScheduler_TaskDeparted_def cpu_state_of_def FreeTask_def ping_switchto_def\<close>)
  qed
qed

lemma ping_known: "ping_switchto m s = Some s' \<Longrightarrow> task_map s' = task_map s"
  by (auto simp: ping_switchto_def Ping_def split: if_splits)

lemma off_cpu_known: "TaskOffCpu g b sw s = Some s' \<Longrightarrow> task_map s' g \<noteq> None"
  by (auto simp: TaskOffCpu_def bind_eq_Some_conv upd_task_Some)

text \<open>The handlers that do not free the task.\<close>

definition keeping_handlers :: "kernel \<Rightarrow> (gtid \<Rightarrow> message \<Rightarrow> FifoScheduler \<Rightarrow> FifoScheduler option) set" where
  "keeping_handlers K = {FifoScheduler_TaskRunnable K, FifoScheduler_TaskYield, FifoScheduler_TaskBlocked,
     FifoScheduler_TaskPreempted, FifoScheduler_TaskSwitchto, ignore_task}"

lemma keeping_later: "h \<in> keeping_handlers K \<Longrightarrow> h \<in> later_handlers (FifoScheduler_handlers K)"
  by (auto simp: keeping_handlers_def later_handlers_def FifoScheduler_handlers_def)

lemma keeping_known:
  assumes "h \<in> keeping_handlers K" and "task_map s g \<noteq> None" and "h g m s = Some s'" shows "task_map s' g \<noteq> None"
proof -
  have enq: "task_map s' g \<noteq> None" if "FifoRq_Enqueue c g s1 = Some s2" "ping_switchto m s2 = Some s'" for c s1 s2
    using enqueue_known [OF that(1)] ping_known [OF that(2)] by simp
  consider "h = FifoScheduler_TaskRunnable K" | "h = FifoScheduler_TaskYield" | "h = FifoScheduler_TaskBlocked"
    | "h = FifoScheduler_TaskPreempted" | "h = FifoScheduler_TaskSwitchto" | "h = ignore_task"
    using assms(1) by (auto simp: keeping_handlers_def)
  then show ?thesis
  proof cases
    case 1
    then show ?thesis using assms(3) migrate_known enqueue_known
      by (fastforce simp: FifoScheduler_TaskRunnable_def bind_eq_Some_conv split: if_splits)
  next
    case 2
    then show ?thesis using assms(3) enq by (auto simp: FifoScheduler_TaskYield_def bind_eq_Some_conv)
  next
    case 3
    then show ?thesis using assms(3) off_cpu_known ping_known by (fastforce simp: FifoScheduler_TaskBlocked_def bind_eq_Some_conv)
  next
    case 4
    then show ?thesis using assms(3) enq by (auto simp: FifoScheduler_TaskPreempted_def bind_eq_Some_conv)
  next
    case 5
    then show ?thesis using assms(3) off_cpu_known by (auto simp: FifoScheduler_TaskSwitchto_def)
  next
    case 6
    then show ?thesis using assms(2, 3) by (auto simp: ignore_task_def)
  qed
qed

lemma advance_total:
  assumes "h \<in> keeping_handlers K" and "task_map s g = Some t" and "h g m s = None \<longleftrightarrow> \<not> P"
  shows "(do { s \<leftarrow> h g m s; Advance g n s }) = None \<longleftrightarrow> \<not> (seqnum t < n \<and> P)"
proof (cases "h g m s")
  case (Some s1)
  obtain t1 where t1: "task_map s1 g = Some t1" using keeping_known [OF assms(1) _ Some] assms(2) by auto
  then have "seqnum t1 = seqnum t" using fifo_later_frame [OF keeping_later [OF assms(1)] Some] assms(2) by (auto simp: frame_def)
  then show ?thesis using Some t1 assms(3) by (simp add: Advance_def upd_task_def bind_eq_None_conv)
qed (use assms(3) in simp)

lemma cpu_msg_legal:
  assumes "is_cpu_msg m"
  shows "dispatch_cpu (FifoScheduler_handlers K) m s = None \<longleftrightarrow> type_num MSG_CPU_AGENT_WAKEUP < msg_type m"
proof -
  let ?n = "unat (msg_type m)"
  have "?n \<ge> 128" using assms by (simp add: is_cpu_msg_def type_num_simps word_le_nat_alt)
  then consider "?n > 134" | "?n = 128" | "?n = 129" | "?n = 130" | "?n = 131" | "?n = 132" | "?n = 133" | "?n = 134" by linarith
  then show ?thesis
    by cases (auto simp: dispatch_cpu_def type_num_simps word_less_nat_alt word_unat_eq_iff FifoScheduler_handlers_def ignore_msg_def)
qed

lemma known_advance:
  assumes "task_handler (FifoScheduler_handlers K) m = Some (h, True)" and "h \<in> keeping_handlers K"
    and "task_map s (msg_gtid m) = Some t" and "h (msg_gtid m) m s = None \<longleftrightarrow> \<not> P"
  shows "dispatch_known (FifoScheduler_handlers K) m s = None \<longleftrightarrow> \<not> (seqnum t < msg_seqnum m \<and> P)"
  using advance_total [OF assms(2-4)] by (simp add: dispatch_known_def assms(1))

lemma switchto_total:
  assumes "fifo_inv s" and "task_map s g = Some t" shows "FifoScheduler_TaskSwitchto g m s = None \<longleftrightarrow> run_state t \<noteq> kOnCpu"
  using off_cpu_total [OF assms] by (simp add: FifoScheduler_TaskSwitchto_def)

lemma keeping_members:
  "FifoScheduler_TaskRunnable K \<in> keeping_handlers K" "FifoScheduler_TaskYield \<in> keeping_handlers K"
  "FifoScheduler_TaskBlocked \<in> keeping_handlers K" "FifoScheduler_TaskPreempted \<in> keeping_handlers K"
  "FifoScheduler_TaskSwitchto \<in> keeping_handlers K" "ignore_task \<in> keeping_handlers K"
  by (simp_all add: keeping_handlers_def)

lemma known_legal:
  assumes "fifo_inv s" and "task_map s (msg_gtid m) = Some t" and "\<not> has_type m MSG_TASK_NEW"
  shows "dispatch_known (FifoScheduler_handlers K) m s = None \<longleftrightarrow> \<not> legal_later K m t s"
proof -
  let ?H = "FifoScheduler_handlers K"
  have H: "TaskRunnable ?H = FifoScheduler_TaskRunnable K" "TaskDead ?H = FifoScheduler_TaskDead K"
    "TaskDeparted ?H = FifoScheduler_TaskDeparted K" "TaskYield ?H = FifoScheduler_TaskYield" "TaskBlocked ?H = FifoScheduler_TaskBlocked"
    "TaskPreempted ?H = FifoScheduler_TaskPreempted" "TaskSwitchto ?H = FifoScheduler_TaskSwitchto" "TaskAffinityChanged ?H = ignore_task"
    "TaskPriorityChanged ?H = ignore_task" "TaskOnCpuMsg ?H = ignore_task" by (simp_all add: FifoScheduler_handlers_def)
  note th = task_handler_cases [of m ?H, unfolded H]
  note adv = known_advance [OF _ keeping_members(1) assms(2) runnable_total [OF assms(1, 2)]]
    known_advance [OF _ keeping_members(2) assms(2) yield_total [OF assms(1, 2)]]
    known_advance [OF _ keeping_members(3) assms(2) blocked_total [OF assms(1, 2)]]
    known_advance [OF _ keeping_members(4) assms(2) preempted_total [OF assms(1, 2)]]
    known_advance [OF _ keeping_members(5) assms(2), where P = "run_state t = kOnCpu"]
    known_advance [OF _ keeping_members(6) assms(2), where P = True]
  note lg = legal_later_def type_num_inject
  show ?thesis
  proof (cases "task_handler ?H m")
    case None
    then show ?thesis using assms(3)
      by (auto simp: dispatch_known_def legal_later_def task_handler_def type_num_simps split: if_splits)
  next
    case (Some hu)
    then consider "has_type m MSG_TASK_DEAD" | "has_type m MSG_TASK_DEPARTED" | "has_type m MSG_TASK_WAKEUP" | "has_type m MSG_TASK_YIELD"
      | "has_type m MSG_TASK_BLOCKED" | "has_type m MSG_TASK_PREEMPT" | "has_type m MSG_TASK_SWITCHTO"
      | "has_type m MSG_TASK_AFFINITY_CHANGED" | "has_type m MSG_TASK_PRIORITY_CHANGED" | "has_type m MSG_TASK_ON_CPU"
      using assms(3) by (auto simp: task_handler_def split: if_splits)
    then show ?thesis
    proof cases
      case 1 then show ?thesis using th(3) assms(2)
        by (auto simp: dispatch_known_def lg FifoScheduler_TaskDead_def FreeTask_def bind_eq_None_conv)
    next
      case 2 then show ?thesis using th(7) departed_total [OF assms(1, 2)] by (simp add: dispatch_known_def lg)
    next
      case 3 then show ?thesis using th(4) adv(1) by (simp add: lg)
    next
      case 4 then show ?thesis using th(6) adv(2) by (simp add: lg)
    next
      case 5 then show ?thesis using th(5) adv(3) by (simp add: lg)
    next
      case 6 then show ?thesis using th(2) adv(4) by (simp add: lg)
    next
      case 7 then show ?thesis using th(8) adv(5) switchto_total [OF assms(1, 2)] by (simp add: lg)
    qed (use th(9-11) adv(6) in \<open>simp_all add: lg ignore_task_def\<close>)
  qed
qed

lemma dispatch_legal:
  assumes "fifo_inv s"
  shows "DispatchMessage (FifoScheduler_handlers K) m s = None \<longleftrightarrow> \<not> fifo_legal K m s"
proof -
  let ?g = "msg_gtid m" and ?H = "FifoScheduler_handlers K"
  consider "has_type m MSG_NOP" | "\<not> has_type m MSG_NOP" "is_cpu_msg m" | "\<not> has_type m MSG_NOP" "\<not> is_cpu_msg m" by blast
  then show ?thesis
  proof cases
    case 1
    then show ?thesis by (simp add: DispatchMessage_def fifo_legal_def)
  next
    case 2
    then have "\<not> is_task_msg m" by (auto simp: is_task_msg_def is_cpu_msg_def type_num_simps word_le_nat_alt)
    then show ?thesis using 2 cpu_msg_legal [of m K s] by (auto simp: DispatchMessage_def fifo_legal_def)
  next
    case 3
    have new: "dispatch_known ?H m (s\<lparr>task_map := (task_map s)(?g \<mapsto> FifoTask_init)\<rparr>) = None
        \<longleftrightarrow> runnable m \<and> \<not> placeable K ?g (msg_seqnum m) s" if "task_map s ?g = None" "has_type m MSG_TASK_NEW"
      using new_total [OF assms that(1), of K m] task_handler_cases(1) [OF that(2), of ?H]
      by (simp add: dispatch_known_def FifoScheduler_handlers_def)
    have H: "AllocTask ?H ?g = FifoTask_init" "sw_words ?H = status_words K" "verbose ?H = verbosity K"
      by (simp_all add: FifoScheduler_handlers_def)
    have undeclared: "DispatchMessage ?H m s = None \<longleftrightarrow> \<not> fifo_legal K m s" if d: "describe_type m = None"
    proof -
      have "\<not> legal_later K m t s" for t using d by (simp add: describe_type_None legal_later_def del: type_num.simps)
      then show ?thesis
        using 3 d dispatch_undeclared [OF d 3(2), of ?H s]
        by (auto simp: fifo_legal_def H describe_type_None simp del: type_num.simps split: option.splits)
    qed
    show ?thesis
    proof (cases "task_map s ?g")
      case None
      have "DispatchMessage ?H m s = None \<longleftrightarrow> \<not> fifo_legal K m s" if "has_type m t" for t
        using 3 new None dprint_known [OF that] that describe_type_None [of m]
        by (auto simp: DispatchMessage_def fifo_legal_def GetTask_alloc_def GetTask_def H bind_eq_None_conv status_word_from_info_def simp del: type_num.simps)
      then show ?thesis using undeclared describe_type_None [of m] by metis
    next
      case (Some t)
      have "DispatchMessage ?H m s = None \<longleftrightarrow> \<not> fifo_legal K m s" if "has_type m t" for t
        using 3 known_legal [OF assms Some] Some dprint_known [OF that]
        by (auto simp: DispatchMessage_def fifo_legal_def GetTask_alloc_def GetTask_def bind_eq_None_conv simp del: type_num.simps)
      then show ?thesis using undeclared describe_type_None [of m] by metis
    qed
  qed
qed

section \<open>Serving the queue\<close>

text \<open>The agent of CPU \<open>c\<close> decides, and the task it has put on the CPU blocks.\<close>

definition run_round :: "sched_env \<Rightarrow> int \<Rightarrow> u32 \<Rightarrow> message \<Rightarrow> FifoScheduler \<Rightarrow> FifoScheduler option" where
  "run_round E c b m s = do {
     s \<leftarrow> FifoSchedule E c b False s;
     g \<leftarrow> current (cpu_states s c);
     FifoScheduler_TaskBlocked g m s }"

lemma round_step:
  assumes "fifo_inv s" and "current (cpu_states s c) = None" and "run_queue (cpu_states s c) = g # rq"
    and "commit_ok E g" and "\<exists>k. \<not> on_cpu E g k" and "\<not> from_switchto m"
  obtains s' where "run_round E c b m s = Some s'" "fifo_inv s'" "current (cpu_states s' c) = None" "run_queue (cpu_states s' c) = rq"
    "txns s' = txns s @ [(c, g, seqnum (the (task_map s g)), b)]" "\<And>h. h \<noteq> g \<Longrightarrow> task_map s' h = task_map s h" "in_state s' g kBlocked c"
proof -
  have p: "pick c False s = Some g" using assms(2, 3) by (simp add: pick_def)
  have "in_state s g kQueued c" using fifo_okD(3) [OF assms(1), of g c] assms(3) by simp
  then have enc: "enclave_cpu s c" using fifo_okD(7) [OF assms(1)] by (auto simp: in_state_def split: option.splits)
  obtain s1 where s1: "FifoSchedule E c b False s = Some s1" "after_step E c b False s s1"
    using schedule_total [OF assms(1), of c False E b] p assms(5) by auto
  obtain t where t: "task_map s g = Some t" "txns s1 = txns s @ [(c, g, seqnum t, b)]"
    and a: "cpu_states s1 = (cpu_states s)(c := \<lparr>current = Some g, run_queue = rq\<rparr>)" "\<And>h. h \<noteq> g \<Longrightarrow> task_map s1 h = task_map s h"
    using s1(2) p assms(3, 4) by (auto simp: after_step_def)
  have inv: "fifo_inv s1" by (rule fifo_schedule [OF assms(1) enc s1(1)])
  then have "in_state s1 g kOnCpu c" using fifo_okD(4) [OF inv, of c g] a(1) by simp
  then obtain t1 where t1: "task_map s1 g = Some t1" "run_state t1 = kOnCpu" "task_cpu t1 = c" by (auto simp: in_state_def split: option.splits)
  then obtain s2 where s2: "TaskOffCpu g True False s1 = Some s2"
    using off_cpu_total [OF inv t1(1), of True False] by auto
  then have e: "s2 = s1\<lparr>cpu_states := (cpu_states s1)(c := \<lparr>current = None, run_queue = rq\<rparr>),
      task_map := (task_map s1)(g \<mapsto> t1\<lparr>run_state := kBlocked\<rparr>)\<rparr>"
    using t1 a(1) by (auto simp: TaskOffCpu_def cpu_state_of_def upd_task_def upd_cpu_def bind_eq_Some_conv)
  have "run_round E c b m s = Some s2" using s1(1) s2 a(1) assms(6)
    by (simp add: run_round_def FifoScheduler_TaskBlocked_def ping_switchto_def)
  moreover have "fifo_inv s2" using fifo_off_cpu(1) [OF inv s2] by simp
  ultimately show thesis using that t a(2) t1(3) by (simp add: e in_state_def)
qed

lemma queue_served:
  assumes "fifo_inv s" and "current (cpu_states s c) = None" and "run_queue (cpu_states s c) = gs"
    and "\<And>g. g \<in> set gs \<Longrightarrow> commit_ok E g \<and> (\<exists>k. \<not> on_cpu E g k)" and "length ms = length gs" and "\<And>m. m \<in> set ms \<Longrightarrow> \<not> from_switchto m"
  shows "\<exists>s'. mfold (run_round E c b) ms s = Some s' \<and> txns s' = txns s @ map (\<lambda>g. (c, g, seqnum (the (task_map s g)), b)) gs
    \<and> Empty c s' \<and> (\<forall>g \<in> set gs. in_state s' g kBlocked c) \<and> (\<forall>h. h \<notin> set gs \<longrightarrow> task_map s' h = task_map s h)"
  using assms
proof (induction gs arbitrary: s ms)
  case Nil
  then show ?case by (simp add: Empty_def)
next
  case (Cons g gs)
  obtain m ms' where ms: "ms = m # ms'" using Cons.prems(5) by (cases ms) auto
  have d: "g \<notin> set gs" using fifo_okD(2) [OF Cons.prems(1), of c] Cons.prems(3) by simp
  obtain s1 where s1: "run_round E c b m s = Some s1" "fifo_inv s1" "current (cpu_states s1 c) = None" "run_queue (cpu_states s1 c) = gs"
    "txns s1 = txns s @ [(c, g, seqnum (the (task_map s g)), b)]" "\<And>h. h \<noteq> g \<Longrightarrow> task_map s1 h = task_map s h" "in_state s1 g kBlocked c"
    by (rule round_step [OF Cons.prems(1-3), of E m b]) (use Cons.prems(4, 6) ms in auto)
  obtain s' where s': "mfold (run_round E c b) ms' s1 = Some s'" "txns s' = txns s1 @ map (\<lambda>g. (c, g, seqnum (the (task_map s1 g)), b)) gs"
    "Empty c s'" "\<forall>g \<in> set gs. in_state s' g kBlocked c" "\<forall>h. h \<notin> set gs \<longrightarrow> task_map s' h = task_map s1 h"
    using Cons.IH [OF s1(2-4), of ms'] Cons.prems(4-6) ms by auto
  have same: "task_map s1 h = task_map s h" if "h \<in> set gs" for h using s1(6) d that by metis
  have "map (\<lambda>g. (c, g, seqnum (the (task_map s1 g)), b)) gs = map (\<lambda>g. (c, g, seqnum (the (task_map s g)), b)) gs"
    by (rule map_cong) (simp_all add: same)
  moreover have "in_state s' g kBlocked c" using s'(5) d s1(7) by (simp add: in_state_def)
  ultimately show ?case using s1(1, 5, 6) s' ms by simp
qed

section \<open>Round-robin placement\<close>

fun place_tasks :: "nat \<Rightarrow> FifoScheduler \<Rightarrow> (int list \<times> FifoScheduler) option" where
  "place_tasks 0 s = Some ([], s)"
| "place_tasks (Suc n) s = do { (c, s) \<leftarrow> AssignCpu s; (cs, s) \<leftarrow> place_tasks n s; Some (c # cs, s) }"

lemma place_round_robin:
  assumes "map_ok C" and "in_topology C" and "cpus s = C" and "cpu_ids C = ys @ xs" and "cpu_ids C \<noteq> []" and "next_cpu s = iter_at C xs"
  shows "\<exists>s'. place_tasks n s = Some (map (\<lambda>k. int (cpu_ids C ! ((length ys + k) mod length (cpu_ids C)))) [0..<n], s')"
  using assms(3-6)
proof (induction n arbitrary: s xs ys)
  case (Suc n)
  let ?len = "length (cpu_ids C)"
  obtain c ws where c: "(if xs = [] then ys else xs) = c # ws" using Suc.prems(2, 3) by (cases xs; cases ys) auto
  define vs where "vs = (if xs = [] then [] else ys)"
  have split: "cpu_ids C = (vs @ [c]) @ ws" using c Suc.prems(2) by (auto simp: vs_def split: if_splits)
  have a: "AssignCpu s = Some (int c, s\<lparr>next_cpu := iter_at C ws\<rparr>)"
    using assign_next(1) [of s ys xs _ c ws] assms(1, 2) Suc.prems c by simp
  obtain s' where s': "place_tasks n (s\<lparr>next_cpu := iter_at C ws\<rparr>)
      = Some (map (\<lambda>k. int (cpu_ids C ! ((length (vs @ [c]) + k) mod ?len))) [0..<n], s')"
    using Suc.IH [of "s\<lparr>next_cpu := iter_at C ws\<rparr>" "vs @ [c]" ws] Suc.prems(1, 3) split by auto
  have v: "length vs mod ?len = length ys mod ?len" using Suc.prems(2) by (simp add: vs_def)
  have "cpu_ids C ! (length ys mod ?len) = c"
    unfolding v [symmetric] using split by (simp add: nth_append)
  moreover have "(length (vs @ [c]) + k) mod ?len = (length ys + Suc k) mod ?len" for k
    using mod_add_cong [OF v refl, of "Suc k"] by simp
  ultimately show ?case using a s' by (simp add: map_upt_Suc del: upt_Suc)
qed simp

section \<open>Properties\<close>

lemma distinct_count_list: "distinct xs \<Longrightarrow> count_list xs x = (if x \<in> set xs then 1 else 0)"
  by (induction xs) auto

text \<open>An example: two tasks are queued on CPU 2 of an enclave with the CPUs 0, 2 and 65.\<close>

definition ex_task :: "FifoTaskState \<Rightarrow> u32 \<Rightarrow> FifoTask" where
  "ex_task st n = \<lparr>seqnum = n, run_state = st, task_cpu = 2, preempted = False, prio_boost = False\<rparr>"

definition ex_fifo :: FifoScheduler where
  "ex_fifo = \<lparr>task_map = [7 \<mapsto> ex_task kQueued 3, 8 \<mapsto> ex_task kQueued 5],
     cpu_states = (\<lambda>c. \<lparr>current = None, run_queue = if c = 2 then [7, 8] else []\<rparr>), channels = Map.empty,
     cpus = ex_cpus, next_cpu = iter_at ex_cpus [], pings = [], txns = [], yields = [], default_channel = Some 0\<rparr>"

definition ex_kernel :: kernel where
  "ex_kernel = \<lparr>associate = (\<lambda>_ _ _. True), sw_free = (\<lambda>_. True), status_words = \<lparr>table_id = 0, capacity = 16\<rparr>, verbosity = 0\<rparr>"

definition ex_env :: sched_env where
  "ex_env = \<lparr>on_cpu = (\<lambda>g k. k < 3), commit_ok = (\<lambda>_. True), msg_env = (\<lambda>_. ex_kernel)\<rparr>"

lemma ex_fifo_inv: "fifo_inv ex_fifo"
  by (rule fifo_okI)
    (use ex_cpus_ok in \<open>auto simp: ex_fifo_def placement_ok_def in_state_def ex_task_def enclave_cpu_def simp del: set_cpu_ids split: if_splits\<close>)

text \<open>
  C2. In every reachable state each task is in one place: a blocked task in no run queue and on no
  CPU; a queued task once in the run queue of its CPU, in no other run queue, and on no CPU; a
  running task on its CPU only, and in no run queue.  The CPU is one of the enclave.  No task stays
  in the transitory state, and the queues and CPUs hold known tasks only.
\<close>

theorem fifo_tasks_placed_once:
  assumes "fifo_reachable C s"
  shows "(\<forall>g t. task_map s g = Some t \<longrightarrow> run_state t \<noteq> kRunnable
      \<and> (run_state t = kBlocked \<longrightarrow> (\<forall>c. g \<notin> set (run_queue (cpu_states s c)) \<and> current (cpu_states s c) \<noteq> Some g))
      \<and> (run_state t = kQueued \<longrightarrow> task_cpu t \<in> int ` set (cpu_ids C) \<and> (\<forall>c. current (cpu_states s c) \<noteq> Some g
           \<and> count_list (run_queue (cpu_states s c)) g = (if c = task_cpu t then 1 else 0)))
      \<and> (run_state t = kOnCpu \<longrightarrow> task_cpu t \<in> int ` set (cpu_ids C) \<and> (\<forall>c. g \<notin> set (run_queue (cpu_states s c))
           \<and> (current (cpu_states s c) = Some g \<longleftrightarrow> c = task_cpu t))))
    \<and> (\<forall>c g. g \<in> set (run_queue (cpu_states s c)) \<or> current (cpu_states s c) = Some g \<longrightarrow> task_map s g \<noteq> None)"
proof -
  have inv: "fifo_inv s" "cpus s = C" using fifo_reachable_inv [OF assms] by auto
  note ok = fifo_okD [OF inv(1)]
  have count: "count_list (run_queue (cpu_states s c)) g = (if g \<in> set (run_queue (cpu_states s c)) then 1 else 0)" for c g
    using ok(2) [of c] by (simp add: distinct_count_list)
  have "task_map s g \<noteq> None" if "g \<in> set (run_queue (cpu_states s c)) \<or> current (cpu_states s c) = Some g" for c g
    using ok(3) [of g c] ok(4) [of c g] that by (auto simp: in_state_def split: option.splits)
  moreover have "run_state t \<noteq> kRunnable" "run_state t = kQueued \<or> run_state t = kOnCpu \<longrightarrow> task_cpu t \<in> int ` set (cpu_ids C)"
    if "task_map s g = Some t" for g t
    using ok(5, 7) [OF that] inv(2) by (auto simp: enclave_cpu_def)
  moreover have "g \<in> set (run_queue (cpu_states s c)) \<longleftrightarrow> run_state t = kQueued \<and> c = task_cpu t"
      "current (cpu_states s c) = Some g \<longleftrightarrow> run_state t = kOnCpu \<and> c = task_cpu t" if "task_map s g = Some t" for g t c
    using ok(3) [of g c] ok(4) [of c g] that by (auto simp: in_state_def)
  ultimately show ?thesis unfolding count by auto
qed

lemma ex_new_legal: "fifo_legal ex_kernel (ex_msg MSG_TASK_NEW 7 5) s" if "cpus s = ex_cpus" "task_map s 7 = None"
  using that ex_cpus_ok(3) by (simp add: fifo_legal_def ex_msg_def type_num_simps is_task_msg_def placeable_def ex_kernel_def)

theorem fifo_tasks_placed_once_witness:
  "\<exists>s t. fifo_reachable ex_cpus s \<and> task_map s 7 = Some t \<and> run_state t \<noteq> kRunnable"
proof -
  obtain s where s: "FifoScheduler_init ex_cpus (\<lambda>_. ex_ring) = Some s" "fifo_inv s" "cpus s = ex_cpus" "task_map s = Map.empty"
    by (rule fifo_init [OF ex_cpus_ok(1, 2)]) blast
  obtain s' where s': "DispatchMessage (FifoScheduler_handlers ex_kernel) (ex_msg MSG_TASK_NEW 7 5) s = Some s'"
    using dispatch_legal [OF s(2)] ex_new_legal [of s] s(3, 4) by fastforce
  have "FifoScheduler_TaskNew ex_kernel 7 (ex_msg MSG_TASK_NEW 7 5) (s\<lparr>task_map := (task_map s)(7 \<mapsto> FifoTask_init)\<rparr>) = Some s'"
    using s' by (cases rule: dispatch_elim) (use s(4) in \<open>auto simp: ex_msg_def FifoScheduler_handlers_def is_cpu_msg_def type_num_simps\<close>)
  then obtain t where t: "task_map s' 7 = Some t" by (rule fifo_new_frame) auto
  have "fifo_reachable ex_cpus s'" by (rule fifo_reachable.message [OF fifo_reachable.init [OF ex_cpus_ok(1, 2) s(1)] s'])
  then show ?thesis using fifo_tasks_placed_once [of ex_cpus s'] t by blast
qed

text \<open>
  C6. What an agent's decision does.  It ends whenever the chosen task eventually is off its CPU.  It
  chooses the current task, else the head of the run queue, and nothing while the agent's priority is
  boosted.  When the kernel commits the transaction the task is current and out of the queue;
  when it does not, the task is at the front of the queue and the CPU has no current task.  With
  nothing to run the agent yields, asking to be woken on idle if the boost keeps it from running tasks.
\<close>

theorem fifo_schedule_outcome:
  assumes "fifo_inv s" and "\<And>g. pick c boosted s = Some g \<Longrightarrow> \<exists>k. \<not> on_cpu E g k"
  shows "\<exists>s'. FifoSchedule E c b boosted s = Some s' \<and> after_step E c b boosted s s'"
  using schedule_total [OF assms] .

theorem fifo_schedule_outcome_witness:
  "\<exists>s'. FifoSchedule ex_env 2 9 False ex_fifo = Some s' \<and> cpu_states s' 2 = \<lparr>current = Some 7, run_queue = [8]\<rparr>
     \<and> txns s' = [(2, 7, 3, 9)]"
proof -
  have p: "pick 2 False ex_fifo = Some 7" by (simp add: pick_def ex_fifo_def)
  have "\<exists>k. \<not> on_cpu ex_env g k" for g by (simp add: ex_env_def) (rule exI [of _ 3], simp)
  then show ?thesis using fifo_schedule_outcome [OF ex_fifo_inv, of 2 False ex_env 9]
    by (auto simp: after_step_def p) (auto simp: ex_fifo_def ex_env_def ex_task_def)
qed

text \<open>
  C10. Queued tasks are served first come, first served.  If every task that the agent puts on the
  CPU blocks later, and commits succeed, then as many decisions as the queue is long run all its
  tasks, each once, in the order of the queue, with the sequence number the task had; afterwards
  the queue is empty and no other task has changed.
\<close>

theorem fifo_queue_served_in_order:
  assumes "fifo_inv s" and "current (cpu_states s c) = None" and "run_queue (cpu_states s c) = gs"
    and "\<And>g. g \<in> set gs \<Longrightarrow> commit_ok E g \<and> (\<exists>k. \<not> on_cpu E g k)" and "length ms = length gs" and "\<And>m. m \<in> set ms \<Longrightarrow> \<not> from_switchto m"
  shows "\<exists>s'. mfold (run_round E c b) ms s = Some s' \<and> txns s' = txns s @ map (\<lambda>g. (c, g, seqnum (the (task_map s g)), b)) gs
    \<and> Empty c s' \<and> (\<forall>g \<in> set gs. in_state s' g kBlocked c) \<and> (\<forall>h. h \<notin> set gs \<longrightarrow> task_map s' h = task_map s h)"
  using queue_served [OF assms] .

theorem fifo_queue_served_in_order_witness:
  "\<exists>s'. mfold (run_round ex_env 2 9) [ex_msg MSG_TASK_BLOCKED 7 4, ex_msg MSG_TASK_BLOCKED 8 6] ex_fifo = Some s'
     \<and> txns s' = [(2, 7, 3, 9), (2, 8, 5, 9)] \<and> Empty 2 s'"
proof -
  have "\<exists>k. \<not> on_cpu ex_env g k" for g by (simp add: ex_env_def) (rule exI [of _ 3], simp)
  then have "\<exists>s'. mfold (run_round ex_env 2 9) [ex_msg MSG_TASK_BLOCKED 7 4, ex_msg MSG_TASK_BLOCKED 8 6] ex_fifo = Some s'
      \<and> txns s' = txns ex_fifo @ map (\<lambda>g. (2, g, seqnum (the (task_map ex_fifo g)), 9)) [7, 8]
      \<and> Empty 2 s' \<and> (\<forall>g \<in> set [7, 8]. in_state s' g kBlocked 2) \<and> (\<forall>h. h \<notin> set [7, 8] \<longrightarrow> task_map s' h = task_map ex_fifo h)"
    by (intro fifo_queue_served_in_order [OF ex_fifo_inv]) (auto simp: ex_fifo_def ex_env_def ex_msg_def)
  then show ?thesis by (auto simp: ex_fifo_def ex_task_def)
qed

text \<open>
  C11. In a state that satisfies the invariant, the messages on which the scheduler aborts, or
  dereferences an agent that does not exist, are exactly the ones that break the kernel's protocol:
  a type without a handler, or an undeclared one (which is dropped for an unknown task with a negative
  verbosity); gtid 0; a new task whose status word is not in the table; a wakeup or death of a task
  that is not blocked; a task that leaves a CPU it is not on, unless it was blocked and ran by a switchto on a CPU
  it had been assigned to; a sequence number that is not larger than the last one; a
  placement the kernel refuses or that finds no CPU; a status word that cannot be freed; a
  switchto that ends outside the enclave.
\<close>

theorem fifo_aborts_iff:
  assumes "fifo_inv s"
  shows "DispatchMessage (FifoScheduler_handlers K) m s = None \<longleftrightarrow> \<not> fifo_legal K m s"
  using dispatch_legal [OF assms] .

theorem fifo_aborts_iff_witness:
  "DispatchMessage (FifoScheduler_handlers ex_kernel) (ex_msg MSG_TASK_WAKEUP 7 9) ex_fifo = None
   \<and> DispatchMessage (FifoScheduler_handlers ex_kernel) (ex_msg MSG_TASK_NEW 9 1) ex_fifo \<noteq> None"
proof -
  have "\<not> fifo_legal ex_kernel (ex_msg MSG_TASK_WAKEUP 7 9) ex_fifo"
    by (simp add: fifo_legal_def legal_later_def ex_msg_def ex_fifo_def ex_task_def type_num_simps is_cpu_msg_def)
  moreover have "fifo_legal ex_kernel (ex_msg MSG_TASK_NEW 9 1) ex_fifo"
    using ex_cpus_ok(3) by (simp add: fifo_legal_def ex_msg_def ex_fifo_def type_num_simps is_task_msg_def placeable_def ex_kernel_def)
  ultimately show ?thesis
    using fifo_aborts_iff [OF ex_fifo_inv, of ex_kernel "ex_msg MSG_TASK_WAKEUP 7 9"] fifo_aborts_iff [OF ex_fifo_inv, of ex_kernel "ex_msg MSG_TASK_NEW 9 1"]
    by simp
qed

text \<open>
  C36. Tasks are placed round robin: after construction the k-th task that needs a CPU is assigned the
  CPU at position k modulo the number of CPUs, in the order of the CPU ids.
\<close>

theorem fifo_placement_round_robin:
  assumes "map_ok C" and "in_topology C" and "cpu_ids C \<noteq> []" and "FifoScheduler_init C mk = Some s"
  shows "map_option fst (place_tasks n s) = Some (map (\<lambda>k. int (cpu_ids C ! (k mod length (cpu_ids C)))) [0..<n])"
proof -
  obtain s0 where "FifoScheduler_init C mk = Some s0" "cpus s0 = C" "next_cpu s0 = iter_at C []"
    by (rule fifo_init [OF assms(1, 2)]) blast
  then have s: "cpus s = C" "next_cpu s = iter_at C []" using assms(4) by simp_all
  obtain s' where "place_tasks n s = Some (map (\<lambda>k. int (cpu_ids C ! ((length (cpu_ids C) + k) mod length (cpu_ids C)))) [0..<n], s')"
    using place_round_robin [OF assms(1, 2) s(1) _ assms(3) s(2), of "cpu_ids C" n] by auto
  then show ?thesis by simp
qed

theorem fifo_placement_round_robin_witness:
  "\<exists>s. FifoScheduler_init ex_cpus (\<lambda>_. ex_ring) = Some s \<and> map_option fst (place_tasks 4 s) = Some [0, 2, 65, 0]"
proof -
  obtain s where s: "FifoScheduler_init ex_cpus (\<lambda>_. ex_ring) = Some s" by (rule fifo_init [OF ex_cpus_ok(1, 2)]) blast
  then show ?thesis using fifo_placement_round_robin [OF ex_cpus_ok(1, 2) _ s, of 4] by (simp add: ex_cpus_ok(3) upt_rec)
qed



end
