(* ===== verification/Edf_Heap.thy ===== *)
theory Edf_Heap
  imports Prelude "HOL-Library.Multiset"
begin

text \<open>
  Binary heaps in arrays, as the EDF scheduler keeps its run queue: moving one element up and down
  until the heap property holds again.  The order is the contract \<open>heap_order\<close> of a comparator; the
  EDF comparator provides it.
\<close>

section \<open>Lists as arrays\<close>

definition swap_at :: "nat \<Rightarrow> nat \<Rightarrow> 'a list \<Rightarrow> 'a list" where
  "swap_at i j xs = xs[i := xs ! j, j := xs ! i]"

lemma swap_at_simps [simp]:
  "length (swap_at i j xs) = length xs"
  "i < length xs \<Longrightarrow> j < length xs \<Longrightarrow> mset (swap_at i j xs) = mset xs"
  by (simp_all add: swap_at_def mset_swap)

lemma nth_swap_at:
  "i < length xs \<Longrightarrow> j < length xs \<Longrightarrow> swap_at i j xs ! k = (if k = i then xs ! j else if k = j then xs ! i else xs ! k)"
  by (cases "k < length xs") (auto simp: swap_at_def nth_list_update)

definition parent :: "nat \<Rightarrow> nat" where "parent i = (i - 1) div 2"

lemma parent_child: "0 < i \<Longrightarrow> parent i = p \<longleftrightarrow> i = 2 * p + 1 \<or> i = 2 * p + 2"
  by (auto simp: parent_def)

lemma parent_less [termination_simp]: "0 < i \<Longrightarrow> parent i < i"
  by (auto simp: parent_def)

section \<open>Restoring the heap property\<close>

fun heap_up :: "('a \<Rightarrow> 'a \<Rightarrow> bool) \<Rightarrow> nat \<Rightarrow> 'a list \<Rightarrow> 'a list" where
  "heap_up gt pos xs = (if 0 < pos \<and> gt (xs ! parent pos) (xs ! pos)
     then heap_up gt (parent pos) (swap_at pos (parent pos) xs) else xs)"

declare heap_up.simps [simp del]

definition min_child :: "('a \<Rightarrow> 'a \<Rightarrow> bool) \<Rightarrow> nat \<Rightarrow> 'a list \<Rightarrow> nat" where
  "min_child gt pos xs = (if 2 * pos + 2 < length xs \<and> gt (xs ! (2 * pos + 1)) (xs ! (2 * pos + 2)) then 2 * pos + 2 else 2 * pos + 1)"

function heap_down :: "('a \<Rightarrow> 'a \<Rightarrow> bool) \<Rightarrow> nat \<Rightarrow> 'a list \<Rightarrow> 'a list" where
  "heap_down gt pos xs = (if min_child gt pos xs < length xs \<and> gt (xs ! pos) (xs ! min_child gt pos xs)
     then heap_down gt (min_child gt pos xs) (swap_at pos (min_child gt pos xs) xs) else xs)"
  by pat_completeness auto
termination by (relation "measure (\<lambda>(gt, pos, xs). length xs - pos)") (auto simp: min_child_def split: if_splits)

declare heap_down.simps [simp del]

definition heap_update :: "('a \<Rightarrow> 'a \<Rightarrow> bool) \<Rightarrow> nat \<Rightarrow> 'a list \<Rightarrow> 'a list" where
  "heap_update gt pos xs = (if 0 < pos \<and> gt (xs ! parent pos) (xs ! pos) then heap_up gt pos xs else heap_down gt pos xs)"

lemma heap_up_mset: "pos < length xs \<Longrightarrow> mset (heap_up gt pos xs) = mset xs \<and> length (heap_up gt pos xs) = length xs"
proof (induction gt pos xs rule: heap_up.induct)
  case (1 gt pos xs)
  then show ?case using parent_less [of pos] by (subst (1 2) heap_up.simps) auto
qed

lemma heap_down_mset: "pos < length xs \<Longrightarrow> mset (heap_down gt pos xs) = mset xs \<and> length (heap_down gt pos xs) = length xs"
proof (induction gt pos xs rule: heap_down.induct)
  case (1 gt pos xs)
  then show ?case by (subst (1 2) heap_down.simps) auto
qed

lemma heap_update_mset:
  "pos < length xs \<Longrightarrow> mset (heap_update gt pos xs) = mset xs" "pos < length xs \<Longrightarrow> length (heap_update gt pos xs) = length xs"
  by (simp_all add: heap_update_def heap_up_mset heap_down_mset)

lemma heap_update_set:
  assumes "pos < length xs"
  shows "set (heap_update gt pos xs) = set xs" "distinct (heap_update gt pos xs) = distinct xs"
  using mset_eq_setD [OF heap_update_mset(1) [OF assms]] mset_eq_imp_distinct_iff [OF heap_update_mset(1) [OF assms]] by auto

text \<open>The restored array depends on the comparisons of its elements only.\<close>

lemma heap_up_cong:
  assumes "\<And>a b. a \<in> set xs \<Longrightarrow> b \<in> set xs \<Longrightarrow> gt a b = gt' a b" and "pos < length xs"
  shows "heap_up gt pos xs = heap_up gt' pos xs"
  using assms
proof (induction gt pos xs rule: heap_up.induct)
  case (1 gt pos xs)
  have "set (swap_at pos (parent pos) xs) = set xs" if "0 < pos"
    using 1(3) parent_less [OF that] by (intro mset_eq_setD) simp
  then show ?case using 1 parent_less [of pos] by (subst (1 2) heap_up.simps) auto
qed

lemma heap_down_cong:
  assumes "\<And>a b. a \<in> set xs \<Longrightarrow> b \<in> set xs \<Longrightarrow> gt a b = gt' a b" and "pos < length xs"
  shows "heap_down gt pos xs = heap_down gt' pos xs"
  using assms
proof (induction gt pos xs rule: heap_down.induct)
  case (1 gt pos xs)
  have c: "min_child gt pos xs = min_child gt' pos xs" using 1(2) by (auto simp: min_child_def)
  have "set (swap_at pos (min_child gt pos xs) xs) = set xs" if "min_child gt pos xs < length xs"
    using 1(3) that by (intro mset_eq_setD) simp
  then show ?case using 1 c by (subst (1 2) heap_down.simps) auto
qed

lemma heap_update_cong:
  assumes "\<And>a b. a \<in> set xs \<Longrightarrow> b \<in> set xs \<Longrightarrow> gt a b = gt' a b" and "pos < length xs"
  shows "heap_update gt pos xs = heap_update gt' pos xs"
  using heap_up_cong [OF assms] heap_down_cong [OF assms] assms parent_less [of pos] by (auto simp: heap_update_def)

section \<open>The contract of the order\<close>

definition heap :: "('a \<Rightarrow> 'a \<Rightarrow> bool) \<Rightarrow> 'a list \<Rightarrow> bool" where
  "heap gt xs \<longleftrightarrow> (\<forall>i < length xs. 0 < i \<longrightarrow> \<not> gt (xs ! parent i) (xs ! i))"

text \<open>Every edge of the heap holds but those at position \<open>p\<close>, around which the order is right.\<close>

definition heap_but :: "('a \<Rightarrow> 'a \<Rightarrow> bool) \<Rightarrow> nat \<Rightarrow> 'a list \<Rightarrow> bool" where
  "heap_but gt p xs \<longleftrightarrow> (\<forall>i < length xs. 0 < i \<longrightarrow> i \<noteq> p \<longrightarrow>
     (if parent i = p then 0 < p \<longrightarrow> \<not> gt (xs ! parent p) (xs ! i) else \<not> gt (xs ! parent i) (xs ! i)))"

lemma heap_butD:
  "heap_but gt p xs \<Longrightarrow> i < length xs \<Longrightarrow> 0 < i \<Longrightarrow> i \<noteq> p \<Longrightarrow> parent i \<noteq> p \<Longrightarrow> \<not> gt (xs ! parent i) (xs ! i)"
  "heap_but gt p xs \<Longrightarrow> i < length xs \<Longrightarrow> 0 < i \<Longrightarrow> i \<noteq> p \<Longrightarrow> parent i = p \<Longrightarrow> 0 < p \<Longrightarrow> \<not> gt (xs ! parent p) (xs ! i)"
  unfolding heap_but_def by metis+

lemma heap_butI:
  assumes "\<And>i. i < length xs \<Longrightarrow> 0 < i \<Longrightarrow> i \<noteq> p \<Longrightarrow> parent i \<noteq> p \<Longrightarrow> \<not> gt (xs ! parent i) (xs ! i)"
    and "\<And>i. i < length xs \<Longrightarrow> 0 < i \<Longrightarrow> i \<noteq> p \<Longrightarrow> parent i = p \<Longrightarrow> 0 < p \<Longrightarrow> \<not> gt (xs ! parent p) (xs ! i)"
  shows "heap_but gt p xs"
  using assms unfolding heap_but_def by metis

text \<open>The element at \<open>p\<close> is exchanged with the last one, which is dropped.\<close>

lemma heap_but_remove:
  assumes "heap_but gt p xs" and "p < length xs - 1"
  shows "heap_but gt p (butlast (swap_at p (length xs - 1) xs))"
proof (rule heap_butI)
  let ?ys = "butlast (swap_at p (length xs - 1) xs)"
  have ys: "?ys ! k = xs ! k" if "k < length xs - 1" "k \<noteq> p" for k
    using that assms(2) by (simp add: nth_butlast nth_swap_at)
  fix i assume i: "i < length ?ys" "0 < i" "i \<noteq> p"
  { assume "parent i \<noteq> p"
    then show "\<not> gt (?ys ! parent i) (?ys ! i)"
      using heap_butD(1) [OF assms(1) _ i(2, 3)] i ys [of i] ys [of "parent i"] parent_less [OF i(2)] by simp }
  { assume p: "parent i = p" "0 < p"
    then show "\<not> gt (?ys ! parent p) (?ys ! i)"
      using heap_butD(2) [OF assms(1) _ i(2, 3)] i ys [of i] ys [of "parent p"] parent_less [OF p(2)] assms(2) by simp }
qed

lemma heap_but_last:
  assumes "heap_but gt (length xs - 1) xs" shows "heap gt (butlast xs)"
  unfolding heap_def
proof (intro allI impI)
  fix i assume i: "i < length (butlast xs)" "0 < i"
  then have "parent i < length xs - 1" using parent_less [of i] by simp
  then show "\<not> gt (butlast xs ! parent i) (butlast xs ! i)"
    using heap_butD(1) [OF assms _ i(2)] i by (simp add: nth_butlast)
qed

locale heap_order =
  fixes gt :: "'a \<Rightarrow> 'a \<Rightarrow> bool"
  assumes gt_asym: "gt a b \<Longrightarrow> \<not> gt b a"
    and gt_negtrans: "\<not> gt a b \<Longrightarrow> \<not> gt b c \<Longrightarrow> \<not> gt a c"
begin

lemma gt_trans: "gt a b \<Longrightarrow> gt b c \<Longrightarrow> gt a c"
  using gt_negtrans gt_asym by metis

lemma gt_irrefl: "\<not> gt a a"
  using gt_asym by blast

lemma heap_up_heap:
  assumes "p < length xs" and "heap_but gt p xs" and "\<And>i. i < length xs \<Longrightarrow> 0 < i \<Longrightarrow> parent i = p \<Longrightarrow> \<not> gt (xs ! p) (xs ! i)"
  shows "heap gt (heap_up gt p xs)"
  using assms
proof (induction p arbitrary: xs rule: less_induct)
  case (less p)
  let ?q = "parent p"
  show ?case
  proof (cases "0 < p \<and> gt (xs ! ?q) (xs ! p)")
    case False
    have "heap gt xs" unfolding heap_def
    proof (intro allI impI)
      fix i assume i: "i < length xs" "0 < i"
      show "\<not> gt (xs ! parent i) (xs ! i)"
        using heap_butD(1) [OF less.prems(2) i] less.prems(3) [OF i] i False by (cases "i = p"; cases "parent i = p") simp_all
    qed
    then show ?thesis using False by (subst heap_up.simps) auto
  next
    case True
    then have q: "?q < p" "?q < length xs" "p \<noteq> ?q" using less.prems(1) parent_less [of p] by auto
    let ?ys = "swap_at p ?q xs"
    have ys: "?ys ! k = (if k = p then xs ! ?q else if k = ?q then xs ! p else xs ! k)" for k
      using nth_swap_at less.prems(1) q(2) by metis
    have edge: "\<not> gt (xs ! ?q) (xs ! i)" if "i < length xs" "0 < i" "parent i = ?q" "i \<noteq> p" for i
      using heap_butD(1) [OF less.prems(2) that(1, 2, 4)] that(3) q(3) by simp
    have below: "\<not> gt (xs ! ?q) (xs ! i)" if "i < length xs" "0 < i" "parent i = p" for i
      using heap_butD(2) [OF less.prems(2) that(1, 2)] that parent_less [OF that(2)] True by simp
    have top: "\<not> gt (xs ! parent ?q) (xs ! ?q)" if "0 < ?q"
      using heap_butD(1) [OF less.prems(2) q(2) that] q parent_less [OF that] by simp
    have rest: "\<not> gt (xs ! parent i) (xs ! i)" if "i < length xs" "0 < i" "i \<noteq> p" "parent i \<noteq> p" for i
      using heap_butD(1) [OF less.prems(2) that] .
    have "heap_but gt ?q ?ys"
    proof (rule heap_butI)
      fix i assume i: "i < length ?ys" "0 < i" "i \<noteq> ?q" "parent i \<noteq> ?q"
      have "i \<noteq> p" using i(4) by auto
      then show "\<not> gt (?ys ! parent i) (?ys ! i)"
        using below [of i] rest [of i] i q by (cases "parent i = p") (simp_all add: ys)
    next
      fix i assume i: "i < length ?ys" "0 < i" "i \<noteq> ?q" "parent i = ?q" "0 < ?q"
      have "parent ?q \<noteq> p" "parent ?q \<noteq> ?q" using parent_less [OF i(5)] q by simp_all
      then have e: "?ys ! parent ?q = xs ! parent ?q" by (simp add: ys)
      show "\<not> gt (?ys ! parent ?q) (?ys ! i)" unfolding e
      proof (cases "i = p")
        case True
        then show "\<not> gt (xs ! parent ?q) (?ys ! i)" using top [OF i(5)] by (simp add: ys)
      next
        case False
        have "\<not> gt (xs ! parent ?q) (xs ! i)" using gt_negtrans [OF top [OF i(5)] edge] i False by simp
        then show "\<not> gt (xs ! parent ?q) (?ys ! i)" using False i(3) by (simp add: ys)
      qed
    qed
    moreover have "\<not> gt (?ys ! ?q) (?ys ! i)" if "i < length ?ys" "0 < i" "parent i = ?q" for i
    proof (cases "i = p")
      case True': True
      then show ?thesis using gt_asym [OF conjunct2 [OF True]] q by (simp add: ys)
    next
      case False
      have "i \<noteq> ?q" using that parent_less [of i] by auto
      then show ?thesis using edge [of i] False that True gt_trans [of "xs ! ?q" "xs ! p" "xs ! i"] by (auto simp: ys)
    qed
    ultimately have "heap gt (heap_up gt ?q ?ys)" using less.IH [of ?q ?ys] q by simp
    then show ?thesis using True by (subst heap_up.simps) simp
  qed
qed

lemma heap_down_heap:
  assumes "p < length xs" and "heap_but gt p xs" and "0 < p \<Longrightarrow> \<not> gt (xs ! parent p) (xs ! p)"
  shows "heap gt (heap_down gt p xs)"
  using assms
proof (induction "length xs - p" arbitrary: p xs rule: less_induct)
  case less
  let ?c = "min_child gt p xs"
  have c: "parent ?c = p" "0 < ?c" "p < ?c" by (auto simp: min_child_def parent_def)
  have least: "\<not> gt (xs ! ?c) (xs ! i)" if "i < length xs" "0 < i" "parent i = p" for i
    using that(1) iffD1 [OF parent_child [OF that(2)] that(3)] gt_irrefl [of "xs ! i"] gt_asym [of "xs ! (2 * p + 1)" "xs ! (2 * p + 2)"]
    by (auto simp: min_child_def)
  have rest: "\<not> gt (xs ! parent i) (xs ! i)" if "i < length xs" "0 < i" "parent i \<noteq> p" for i
    using less.prems(3) heap_butD(1) [OF less.prems(2) that(1, 2)] that by (cases "i = p") simp_all
  show ?case
  proof (cases "?c < length xs \<and> gt (xs ! p) (xs ! ?c)")
    case False
    have "\<not> gt (xs ! p) (xs ! i)" if "i < length xs" "0 < i" "parent i = p" for i
    proof -
      have "?c < length xs" using that iffD1 [OF parent_child [OF that(2)] that(3)] by (auto simp: min_child_def)
      then show ?thesis using False least [OF that] gt_negtrans by blast
    qed
    then have "heap gt xs" using rest by (auto simp: heap_def)
    then show ?thesis using False by (subst heap_down.simps) auto
  next
    case True
    let ?ys = "swap_at p ?c xs"
    have ys: "?ys ! k = (if k = p then xs ! ?c else if k = ?c then xs ! p else xs ! k)" for k
      using nth_swap_at less.prems(1) True by metis
    have "heap_but gt ?c ?ys"
    proof (rule heap_butI)
      fix i assume i: "i < length ?ys" "0 < i" "i \<noteq> ?c" "parent i \<noteq> ?c"
      have up: "\<not> gt (xs ! parent p) (xs ! ?c)" if "0 < p"
        using heap_butD(2) [OF less.prems(2) conjunct1 [OF True] c(2) _ c(1) that] c(3) by simp
      have "parent p \<noteq> p" if "0 < p" using parent_less [OF that] by simp
      then show "\<not> gt (?ys ! parent i) (?ys ! i)"
        using up least [of i] rest [of i] i c by (cases "i = p"; cases "parent i = p") (simp_all add: ys)
    next
      fix i assume i: "i < length ?ys" "0 < i" "i \<noteq> ?c" "parent i = ?c"
      then have "i \<noteq> p" using c parent_less [OF i(2)] by simp
      then show "\<not> gt (?ys ! parent ?c) (?ys ! i)" using rest [of i] i c by (simp add: ys)
    qed
    moreover have "\<not> gt (?ys ! parent ?c) (?ys ! ?c)" using gt_asym [OF conjunct2 [OF True]] c by (simp add: ys)
    ultimately have "heap gt (heap_down gt ?c ?ys)" using less.hyps [of ?ys ?c] True c diff_less_mono2 [OF c(3) less.prems(1)] by simp
    then show ?thesis using True by (subst heap_down.simps) simp
  qed
qed

lemma heap_update_heap:
  assumes "p < length xs" and "heap_but gt p xs"
  shows "heap gt (heap_update gt p xs)"
proof (cases "0 < p \<and> gt (xs ! parent p) (xs ! p)")
  case True
  have "\<not> gt (xs ! p) (xs ! i)" if "i < length xs" "0 < i" "parent i = p" for i
  proof -
    have "i \<noteq> p" using that parent_less [of i] by auto
    then have "\<not> gt (xs ! parent p) (xs ! i)" using heap_butD(2) [OF assms(2) that(1, 2)] that True by simp
    then show ?thesis using True gt_trans by blast
  qed
  then show ?thesis using True heap_up_heap [OF assms] by (simp add: heap_update_def)
next
  case False
  then show ?thesis using heap_down_heap [OF assms] by (auto simp: heap_update_def)
qed

text \<open>The first element of a heap is a least one.\<close>

lemma heap_min:
  assumes "heap gt xs" and "i < length xs" shows "\<not> gt (xs ! 0) (xs ! i)"
  using assms(2)
proof (induction i rule: less_induct)
  case (less i)
  show ?case
  proof (cases "i = 0")
    case False
    then have "\<not> gt (xs ! 0) (xs ! parent i)" "\<not> gt (xs ! parent i) (xs ! i)"
      using less assms(1) parent_less [of i] by (auto simp: heap_def)
    then show ?thesis using gt_negtrans by blast
  qed (simp add: gt_irrefl)
qed

text \<open>A heap in which one element changes, loses its place to the last one, or is appended.\<close>

lemma heap_change:
  assumes "heap gt xs" and "p < length xs" and "length ys = length xs" and "\<And>i. i < length xs \<Longrightarrow> i \<noteq> p \<Longrightarrow> ys ! i = xs ! i"
  shows "heap_but gt p ys"
proof (rule heap_butI)
  have e: "\<not> gt (xs ! parent j) (xs ! j)" if "0 < j" "j < length xs" for j using assms(1) that by (simp add: heap_def)
  fix i assume i: "i < length ys" "0 < i" "i \<noteq> p"
  { assume "parent i \<noteq> p"
    then show "\<not> gt (ys ! parent i) (ys ! i)" using e [of i] assms(3, 4) i parent_less [OF i(2)] by simp }
  { assume p: "parent i = p" "0 < p"
    have "\<not> gt (xs ! parent p) (xs ! i)" using gt_negtrans [OF e [OF p(2) assms(2)]] e [of i] i assms(3) p by simp
    then show "\<not> gt (ys ! parent p) (ys ! i)" using assms(2-4) i parent_less [OF p(2)] by simp }
qed

text \<open>A heap in which the key of one element changes.\<close>

lemma heap_rekey:
  assumes "heap gt xs" and "distinct xs" and "p < length xs"
    and "\<And>a b. a \<in> set xs \<Longrightarrow> b \<in> set xs \<Longrightarrow> a \<noteq> xs ! p \<Longrightarrow> b \<noteq> xs ! p \<Longrightarrow> gt' a b = gt a b"
  shows "heap_but gt' p xs"
proof (rule heap_butI)
  have e: "\<not> gt (xs ! parent j) (xs ! j)" if "0 < j" "j < length xs" for j using assms(1) that by (simp add: heap_def)
  have ne: "xs ! j \<noteq> xs ! p" if "j < length xs" "j \<noteq> p" for j using that assms(2, 3) by (simp add: nth_eq_iff_index_eq)
  fix i assume i: "i < length xs" "0 < i" "i \<noteq> p"
  have pi: "parent i < length xs" using parent_less [OF i(2)] i(1) by simp
  { assume "parent i \<noteq> p"
    then show "\<not> gt' (xs ! parent i) (xs ! i)" using e [OF i(2, 1)] assms(4) [OF nth_mem [OF pi] nth_mem [OF i(1)]] ne i pi by simp }
  { assume p: "parent i = p" "0 < p"
    then have pp: "parent p < length xs" "parent p \<noteq> p" using parent_less [OF p(2)] assms(3) by simp_all
    have "\<not> gt (xs ! parent p) (xs ! i)" using gt_negtrans [OF e [OF p(2) assms(3)]] e [OF i(2, 1)] p by simp
    then show "\<not> gt' (xs ! parent p) (xs ! i)" using assms(4) [OF nth_mem [OF pp(1)] nth_mem [OF i(1)]] ne i pp by simp }
qed

lemma heap_is_but: "heap gt xs \<Longrightarrow> p < length xs \<Longrightarrow> heap_but gt p xs"
  by (rule heap_change) auto

lemma heap_butlast: "heap gt xs \<Longrightarrow> heap gt (butlast xs)"
proof -
  assume h: "heap gt xs"
  have "butlast xs ! parent i = xs ! parent i" if "i < length xs - 1" "0 < i" for i
    using that parent_less [of i] by (intro nth_butlast) simp
  then show ?thesis using h by (auto simp: heap_def nth_butlast)
qed

lemma heap_append:
  assumes "heap gt xs" shows "heap_but gt (length xs) (xs @ [x])"
proof (rule heap_butI)
  fix i assume i: "i < length (xs @ [x])" "0 < i" "i \<noteq> length xs"
  then have p: "i < length xs" "parent i < length xs" using parent_less [OF i(2)] by auto
  then show "\<not> gt ((xs @ [x]) ! parent i) ((xs @ [x]) ! i)" using assms i(2) by (simp add: nth_append heap_def)
  show "parent i = length xs \<Longrightarrow> \<not> gt ((xs @ [x]) ! parent (length xs)) ((xs @ [x]) ! i)" using p(2) by simp
qed

end

end
