(* ===== verification/Prio_Items.thy ===== *)
theory Prio_Items
  imports Prelude
begin

unbundle bit_operations_syntax

text \<open>
  The contents of the priority table of \<open>shared/prio_table.h\<close>: flags, work classes, the sequence counts that guard
  the items, and the codes of the stream of updates.
\<close>

definition SCHED_ITEM_RUNNABLE :: u32 where "SCHED_ITEM_RUNNABLE = push_bit 0 1"
definition WORK_CLASS_REPEATING :: u32 where "WORK_CLASS_REPEATING = push_bit 1 1"

record work_class =
  wc_flags :: u32
  wc_qos :: u32
  exectime :: u64
  period :: u64

definition kLocked :: u32 where "kLocked = 1"

definition read_end :: "u32 \<Rightarrow> u32 \<Rightarrow> bool" where
  "read_end begin n = (if begin AND kLocked \<noteq> 0 \<or> begin \<noteq> n then False else True)"

definition kStreamNoEntries :: int where "kStreamNoEntries = -1"
definition kStreamOverflow :: int where "kStreamOverflow = -2"

end
