(* ===== verification/Edf_Scheduler.thy ===== *)
theory Edf_Scheduler
  imports Dispatch Cpu_Map Edf_Heap Prio_Items "HOL-Library.Signed_Division"
begin

unbundle bit_operations_syntax

text \<open>
  The earliest-deadline-first scheduler of \<open>schedulers/edf\<close>: its tasks, the heap that is its run
  queue, the orchestrators with the scheduling parameters that applications publish, the message
  handlers and the global scheduling decision.  An \<open>EdfTask*\<close> is the gtid of the task, a
  \<open>SchedParams*\<close> the process and the position in its cache.  What the kernel and the applications
  decide is an argument of the operations.
\<close>

section \<open>Time\<close>

text \<open>
  \<open>absl::Duration\<close> and finite \<open>absl::Time\<close> as integers in ticks of a quarter of a nanosecond, the
  resolution of the library.
\<close>

datatype abs_time = Time int | InfiniteFuture

instantiation abs_time :: linorder
begin

fun less_eq_abs_time :: "abs_time \<Rightarrow> abs_time \<Rightarrow> bool" where
  "Time a \<le> Time b \<longleftrightarrow> a \<le> b"
| "InfiniteFuture \<le> Time b \<longleftrightarrow> False"
| "x \<le> InfiniteFuture \<longleftrightarrow> True"

definition less_abs_time :: "abs_time \<Rightarrow> abs_time \<Rightarrow> bool" where
  "less_abs_time x y \<longleftrightarrow> x \<le> y \<and> \<not> y \<le> x"

instance
proof
  fix x y z :: abs_time
  show "x < y \<longleftrightarrow> x \<le> y \<and> \<not> y \<le> x" by (rule less_abs_time_def)
  show "x \<le> x" by (cases x) auto
  show "x \<le> y \<Longrightarrow> y \<le> z \<Longrightarrow> x \<le> z" by (cases x; cases y; cases z) auto
  show "x \<le> y \<Longrightarrow> y \<le> x \<Longrightarrow> x = y" by (cases x; cases y) auto
  show "x \<le> y \<or> y \<le> x" by (cases x; cases y) auto
qed

end

fun time_minus :: "abs_time \<Rightarrow> int \<Rightarrow> abs_time" where
  "time_minus (Time t) d = Time (t - d)"
| "time_minus InfiniteFuture d = InfiniteFuture"

section \<open>Scheduling parameters\<close>

record SchedParams =
  sp_sid :: u32
  sp_wcid :: u32
  sp_gpid :: gtid
  sp_flags :: u32
  sp_seqcount :: u32
  sp_deadline :: u64
  sp_qos :: u32

definition SchedParams_init :: SchedParams where
  "SchedParams_init = \<lparr>sp_sid = 0, sp_wcid = 0, sp_gpid = 0, sp_flags = 0, sp_seqcount = 0, sp_deadline = 0, sp_qos = 0\<rparr>"

definition HasWork :: "SchedParams \<Rightarrow> bool" where
  "HasWork p \<longleftrightarrow> sp_flags p AND SCHED_ITEM_RUNNABLE \<noteq> 0"

definition SetRunnable :: "SchedParams \<Rightarrow> SchedParams" where
  "SetRunnable p = p\<lparr>sp_flags := sp_flags p OR SCHED_ITEM_RUNNABLE\<rparr>"

definition GetDeadline :: "SchedParams \<Rightarrow> abs_time" where
  "GetDeadline p = Time (Nanoseconds (sp_deadline p))"

text \<open>
  What the reads of a \<open>sched_item\<close> in shared memory give: the work class that is read first, the
  sequence count before and after the copy, and the copied fields.
\<close>

record item_read =
  rd_class :: u32
  rd_begin :: u32
  rd_sid :: u32
  rd_wcid :: u32
  rd_gpid :: gtid
  rd_flags :: u32
  rd_deadline :: u64
  rd_end :: u32

definition SeqCopyParams :: "item_read \<Rightarrow> work_class \<Rightarrow> SchedParams \<Rightarrow> SchedParams \<times> bool" where
  "SeqCopyParams r wc p = (if rd_begin r = sp_seqcount p then (p, False)
     else let success = read_end (rd_begin r) (rd_end r); p = p\<lparr>sp_qos := wc_qos wc\<rparr> in
       if \<not> success then
         (if sp_flags p AND SCHED_ITEM_RUNNABLE = 0
          then (p\<lparr>sp_seqcount := rd_begin r, sp_flags := sp_flags p OR SCHED_ITEM_RUNNABLE\<rparr>, True)
          else (p, False))
       else (p\<lparr>sp_seqcount := rd_begin r, sp_sid := rd_sid r, sp_wcid := rd_wcid r, sp_gpid := rd_gpid r,
               sp_flags := rd_flags r, sp_deadline := rd_deadline r\<rparr>, True))"

record WorkClassStats =
  runtimes :: int
  samples :: u64
  overshots :: u64

record Orchestrator =
  wc_stats :: "WorkClassStats list"
  work_classes :: "work_class list"
  st_cap :: nat
  cachedsids :: "SchedParams list"

text \<open>What \<open>PrioTable::Attach\<close> finds: the number of items, the work classes, the stream's capacity.\<close>

record prio_table =
  pt_items :: nat
  pt_classes :: "work_class list"
  pt_cap :: nat

definition Orchestrator_Init :: "prio_table \<Rightarrow> Orchestrator" where
  "Orchestrator_Init t = \<lparr>wc_stats = map (\<lambda>wc. \<lparr>runtimes = Nanoseconds (exectime wc), samples = 1, overshots = 0\<rparr>) (pt_classes t),
     work_classes = pt_classes t, st_cap = pt_cap t, cachedsids = replicate (pt_items t) SchedParams_init\<rparr>"

definition table_work_class :: "Orchestrator \<Rightarrow> u32 \<Rightarrow> work_class option" where
  "table_work_class orch wcid = do { REQUIRE (unat wcid < length (work_classes orch)); Some (work_classes orch ! unat wcid) }"

definition Repeating :: "Orchestrator \<Rightarrow> SchedParams \<Rightarrow> bool option" where
  "Repeating orch p = do { wc \<leftarrow> table_work_class orch (sp_wcid p); Some (wc_flags wc AND WORK_CLASS_REPEATING \<noteq> 0) }"

definition UpdateWorkClassStats :: "int \<Rightarrow> u32 \<Rightarrow> int \<Rightarrow> abs_time \<Rightarrow> Orchestrator \<Rightarrow> Orchestrator option" where
  "UpdateWorkClassStats now wcid elapsed_runtime deadline orch = do {
     CHECK (unat wcid < length (wc_stats orch));
     let st = wc_stats orch ! unat wcid;
     let st = st\<lparr>runtimes := runtimes st + elapsed_runtime, samples := samples st + 1\<rparr>;
     let st = (if Time now > deadline then st\<lparr>overshots := overshots st + 1\<rparr> else st);
     Some (orch\<lparr>wc_stats := (wc_stats orch)[unat wcid := st]\<rparr>) }"

definition EstimateRuntime :: "Orchestrator \<Rightarrow> u32 \<Rightarrow> int option" where
  "EstimateRuntime orch wcid = do {
     CHECK (unat wcid < length (wc_stats orch));
     let st = wc_stats orch ! unat wcid;
     CHECK (samples st \<ge> 1);
     let rt = runtimes st sdiv sint (samples st);
     Some (if rt > 0 then rt else Nanoseconds 1) }"

definition GetWorkClassPeriod :: "Orchestrator \<Rightarrow> u32 \<Rightarrow> int option" where
  "GetWorkClassPeriod orch wcid = do { wc \<leftarrow> table_work_class orch wcid; Some (Nanoseconds (period wc)) }"

section \<open>The state\<close>

datatype RunState = kBlocked | kQueued | kOnCpu | kYielding | kPaused

text \<open>A \<open>SchedParams*\<close>: the static dummy, or an entry of the cache of a process's orchestrator.\<close>

datatype sp_ptr = Dummy_sp | Cached int nat

record EdfTask = task +
  run_state :: RunState
  task_cpu :: int
  rq_pos :: int
  prio_boost :: bool
  task_runtime :: int
  elapsed_runtime :: int
  preempted :: bool
  estimated_runtime :: int
  deadline :: abs_time
  sched_deadline :: abs_time
  sp :: "sp_ptr option"
  has_work :: bool
  wcid :: u32

definition EdfTask_init :: EdfTask where
  "EdfTask_init = \<lparr>seqnum = 0, run_state = kBlocked, task_cpu = -1, rq_pos = -1, prio_boost = False, task_runtime = 0,
     elapsed_runtime = 0, preempted = False, estimated_runtime = 4 * 1000000, deadline = InfiniteFuture,
     sched_deadline = InfiniteFuture, sp = None, has_work = False, wcid = - 1\<rparr>"

record EdfCpuState =
  current :: "gtid option"
  next_task :: "gtid option"

record EdfScheduler = "EdfTask scheduler" +
  cpu_states :: "int \<Rightarrow> EdfCpuState"
  cpus :: cpu_map
  global_cpu :: int
  num_tasks :: int
  in_discovery :: bool
  run_queue :: "gtid list"
  yielding_tasks :: "gtid list"
  orchs :: "int \<rightharpoonup> Orchestrator"
  pings :: "int list"
  txns :: "(int \<times> gtid option \<times> u32 \<times> u32 option) list"
  made_runnable :: "(int \<times> nat) list"

text \<open>What the environment answers during one step.\<close>

record edf_env =
  now :: int
  sw_runtime :: "gtid \<Rightarrow> u64"
  sw_on_cpu :: "gtid \<Rightarrow> bool"
  sw_free :: "gtid \<Rightarrow> bool"
  commit_ok :: "int \<Rightarrow> gtid option \<Rightarrow> bool"
  avail :: "int \<Rightarrow> bool"
  agent_cpu :: int
  tgid_of :: "gtid \<Rightarrow> int"
  attach :: "int \<Rightarrow> prio_table option"
  orch_order :: "int list"
  next_index :: "int \<Rightarrow> nat \<Rightarrow> int"
  item :: "int \<Rightarrow> nat \<Rightarrow> nat \<Rightarrow> item_read"
  item_gpid :: "int \<Rightarrow> nat \<Rightarrow> gtid"
  status_words :: sw_table
  verbosity :: int

definition upd_ecpu :: "int \<Rightarrow> (EdfCpuState \<Rightarrow> EdfCpuState) \<Rightarrow> EdfScheduler \<Rightarrow> EdfScheduler" where
  "upd_ecpu c f s = s\<lparr>cpu_states := (cpu_states s)(c := f (cpu_states s c))\<rparr>"

definition set_state :: "gtid \<Rightarrow> RunState \<Rightarrow> EdfScheduler \<Rightarrow> EdfScheduler option" where
  "set_state g st = upd_task g (run_state_update (\<lambda>_. st))"

definition sp_value :: "EdfScheduler \<Rightarrow> sp_ptr \<Rightarrow> SchedParams option" where
  "sp_value s p = (case p of Dummy_sp \<Rightarrow> Some SchedParams_init
     | Cached pid i \<Rightarrow> do { orch \<leftarrow> orchs s pid; CHECK (i < length (cachedsids orch)); Some (cachedsids orch ! i) })"

text \<open>\<open>task->sp->GetQoS()\<close>\<close>

definition GetQoS :: "EdfScheduler \<Rightarrow> EdfTask \<Rightarrow> u32 option" where
  "GetQoS s t = do { p \<leftarrow> sp t; v \<leftarrow> sp_value s p; Some (sp_qos v) }"

section \<open>Tasks\<close>

definition SetRuntime :: "int \<Rightarrow> bool \<Rightarrow> EdfTask \<Rightarrow> EdfTask option" where
  "SetRuntime new_runtime update_elapsed_runtime t = do {
     CHECK (new_runtime \<ge> task_runtime t);
     let t = (if update_elapsed_runtime then t\<lparr>elapsed_runtime := elapsed_runtime t + (new_runtime - task_runtime t)\<rparr> else t);
     Some (t\<lparr>task_runtime := new_runtime\<rparr>) }"

text \<open>A task function that may abort, applied to the task behind a pointer.\<close>

definition on_task :: "gtid \<Rightarrow> (EdfTask \<Rightarrow> EdfTask option) \<Rightarrow> EdfScheduler \<Rightarrow> EdfScheduler option" where
  "on_task g f s = do { t \<leftarrow> task_map s g; t' \<leftarrow> f t; upd_task g (\<lambda>_. t') s }"

definition UpdateRuntime :: "edf_env \<Rightarrow> gtid \<Rightarrow> EdfScheduler \<Rightarrow> EdfScheduler option" where
  "UpdateRuntime E g = on_task g (SetRuntime (Nanoseconds (sw_runtime E g)) True)"

partial_function (option) scale_estimate :: "int \<Rightarrow> int \<Rightarrow> int option" where
  "scale_estimate est elapsed = (if est \<le> elapsed then scale_estimate (est * 2) elapsed else Some est)"

definition CalculateSchedDeadline :: "EdfTask \<Rightarrow> EdfTask option" where
  "CalculateSchedDeadline t = do {
     est \<leftarrow> scale_estimate (estimated_runtime t) (elapsed_runtime t);
     let t = t\<lparr>estimated_runtime := est\<rparr>;
     CHECK (estimated_runtime t > elapsed_runtime t);
     let remaining_time = estimated_runtime t - elapsed_runtime t;
     Some (t\<lparr>sched_deadline := time_minus (deadline t) remaining_time\<rparr>) }"

definition UpdateTaskRuntime :: "gtid \<Rightarrow> int \<Rightarrow> bool \<Rightarrow> EdfScheduler \<Rightarrow> EdfScheduler option" where
  "UpdateTaskRuntime g new_runtime update_elapsed_runtime s = do {
     s \<leftarrow> on_task g (SetRuntime new_runtime update_elapsed_runtime) s;
     t \<leftarrow> task_map s g;
     if sp t \<noteq> None
     then do { CHECK (run_state t = kOnCpu); on_task g CalculateSchedDeadline s }
     else do { CHECK (run_state t \<noteq> kQueued); Some s } }"

section \<open>The run queue\<close>

definition SchedDeadlineGreater :: "EdfScheduler \<Rightarrow> gtid \<Rightarrow> gtid \<Rightarrow> bool option" where
  "SchedDeadlineGreater s a b = do {
     ta \<leftarrow> task_map s a;
     tb \<leftarrow> task_map s b;
     if prio_boost ta \<noteq> prio_boost tb then Some (prio_boost tb)
     else do {
       qa \<leftarrow> GetQoS s ta;
       qb \<leftarrow> GetQoS s tb;
       if qa \<noteq> qb then Some (qa < qb) else Some (sched_deadline ta > sched_deadline tb) } }"

text \<open>\<open>run_queue_[i]\<close>\<close>

definition rq_at :: "EdfScheduler \<Rightarrow> nat \<Rightarrow> gtid option" where
  "rq_at s i = (if i < length (run_queue s) then Some (run_queue s ! i) else None)"

text \<open>The comparison of two positions, and the exchange of two positions.\<close>

definition rq_greater :: "EdfScheduler \<Rightarrow> nat \<Rightarrow> nat \<Rightarrow> bool option" where
  "rq_greater s i j = do { a \<leftarrow> rq_at s i; b \<leftarrow> rq_at s j; SchedDeadlineGreater s a b }"

definition rq_swap :: "nat \<Rightarrow> nat \<Rightarrow> EdfScheduler \<Rightarrow> EdfScheduler option" where
  "rq_swap i j s = do {
     a \<leftarrow> rq_at s i;
     b \<leftarrow> rq_at s j;
     ta \<leftarrow> task_map s a;
     tb \<leftarrow> task_map s b;
     let s = s\<lparr>run_queue := swap_at i j (run_queue s)\<rparr>;
     s \<leftarrow> upd_task a (rq_pos_update (\<lambda>_. rq_pos tb)) s;
     upd_task b (rq_pos_update (\<lambda>_. rq_pos ta)) s }"

text \<open>
  \<open>CheckRunQueue\<close>: \<open>std::is_heap\<close>, then the states and positions.  It is compiled into debug builds only,
  so that the operations below do not depend on it; that it would pass is proved.
\<close>

definition is_heap :: "EdfScheduler \<Rightarrow> bool" where
  "is_heap s \<longleftrightarrow> list_all (\<lambda>i. rq_greater s (parent i) i = Some False) [1..<length (run_queue s)]"

definition CheckRunQueue :: "EdfScheduler \<Rightarrow> unit option" where
  "CheckRunQueue s = do {
     CHECK (is_heap s);
     mfold (\<lambda>i _. do { g \<leftarrow> rq_at s i; t \<leftarrow> task_map s g; CHECK (run_state t = kQueued); CHECK (rq_pos t = int i) })
       [0..<length (run_queue s)] () }"

fun sift_up :: "nat \<Rightarrow> EdfScheduler \<Rightarrow> EdfScheduler option" where
  "sift_up pos s = (if pos = 0 then Some s
     else do {
       b \<leftarrow> rq_greater s (parent pos) pos;
       if b then do { s \<leftarrow> rq_swap pos (parent pos) s; sift_up (parent pos) s } else Some s })"

declare sift_up.simps [simp del]

lemma rq_swap_length: "rq_swap i j s = Some s' \<Longrightarrow> length (run_queue s') = length (run_queue s) \<and> i < length (run_queue s) \<and> j < length (run_queue s)"
  by (auto simp: rq_swap_def upd_task_Some rq_at_def Let_def bind_eq_Some_conv split: if_splits)

definition smaller_child :: "nat \<Rightarrow> EdfScheduler \<Rightarrow> nat option" where
  "smaller_child pos s = (let left = pos * 2 + 1; right = pos * 2 + 2 in
     if right < length (run_queue s) then do { b \<leftarrow> rq_greater s left right; Some (if b then right else left) } else Some left)"

function sift_down :: "nat \<Rightarrow> EdfScheduler \<Rightarrow> EdfScheduler option" where
  "sift_down pos s = do {
     child \<leftarrow> smaller_child pos s;
     if child < length (run_queue s)
     then do {
       b \<leftarrow> rq_greater s pos child;
       if b then do { s \<leftarrow> rq_swap pos child s; sift_down child s } else Some s }
     else Some s }"
  by pat_completeness auto
termination
  by (relation "measure (\<lambda>(pos, s). length (run_queue s) - pos)")
    (auto simp: smaller_child_def Let_def bind_eq_Some_conv split: if_splits dest!: rq_swap_length)

declare sift_down.simps [simp del]

definition UpdateRunqueuePosition :: "nat \<Rightarrow> EdfScheduler \<Rightarrow> EdfScheduler option" where
  "UpdateRunqueuePosition pos s = do {
     up \<leftarrow> (if pos \<noteq> 0 then rq_greater s (parent pos) pos else Some False);
     (if up then sift_up pos s else sift_down pos s) }"

definition Enqueue :: "gtid \<Rightarrow> EdfScheduler \<Rightarrow> EdfScheduler option" where
  "Enqueue g s = do {
     t \<leftarrow> task_map s g;
     if \<not> has_work t then set_state g kPaused s
     else do {
       CHECK (rq_pos t < 0);
       s \<leftarrow> set_state g kQueued s;
       let s = s\<lparr>run_queue := run_queue s @ [g]\<rparr>;
       s \<leftarrow> upd_task g (rq_pos_update (\<lambda>_. int (length (run_queue s)) - 1)) s;
       UpdateRunqueuePosition (length (run_queue s) - 1) s } }"

definition Dequeue :: "EdfScheduler \<Rightarrow> (gtid option \<times> EdfScheduler) option" where
  "Dequeue s = (if run_queue s = [] then Some (None, s)
     else do {
       s \<leftarrow> rq_swap 0 (length (run_queue s) - 1) s;
       let g = last (run_queue s);
       t \<leftarrow> task_map s g;
       CHECK (has_work t);
       CHECK (rq_pos t = int (length (run_queue s)) - 1);
       s \<leftarrow> upd_task g (rq_pos_update (\<lambda>_. -1)) s;
       let s = s\<lparr>run_queue := butlast (run_queue s)\<rparr>;
       s \<leftarrow> (if run_queue s \<noteq> [] then UpdateRunqueuePosition 0 s else Some s);
       Some (Some g, s) })"

definition Peek_rq :: "EdfScheduler \<Rightarrow> gtid option option" where
  "Peek_rq s = (case run_queue s of [] \<Rightarrow> Some None
     | g # _ \<Rightarrow> do { t \<leftarrow> task_map s g; CHECK (has_work t); CHECK (rq_pos t = 0); Some (Some g) })"

definition RemoveFromRunqueue :: "gtid \<Rightarrow> EdfScheduler \<Rightarrow> EdfScheduler option" where
  "RemoveFromRunqueue g s = do {
     t \<leftarrow> task_map s g;
     CHECK (run_state t = kQueued);
     CHECK (rq_pos t \<ge> 0);
     CHECK (rq_pos t < int (length (run_queue s)));
     let pos = nat (rq_pos t);
     let need_update = (pos \<noteq> length (run_queue s) - 1);
     s \<leftarrow> (if need_update then rq_swap pos (length (run_queue s) - 1) s else Some s);
     t \<leftarrow> task_map s g;
     CHECK (rq_pos t = int (length (run_queue s)) - 1);
     s \<leftarrow> upd_task g (rq_pos_update (\<lambda>_. -1)) s;
     let s = s\<lparr>run_queue := butlast (run_queue s)\<rparr>;
     s \<leftarrow> (if need_update then UpdateRunqueuePosition pos s else Some s);
     set_state g kPaused s }"

definition UpdateRunqueue :: "gtid \<Rightarrow> EdfScheduler \<Rightarrow> EdfScheduler option" where
  "UpdateRunqueue g s = do {
     t \<leftarrow> task_map s g;
     CHECK (run_state t = kQueued);
     CHECK (rq_pos t \<ge> 0);
     CHECK (rq_pos t < int (length (run_queue s)));
     UpdateRunqueuePosition (nat (rq_pos t)) s }"

definition Yield :: "gtid \<Rightarrow> EdfScheduler \<Rightarrow> EdfScheduler option" where
  "Yield g s = do {
     t \<leftarrow> task_map s g;
     CHECK (run_state t = kOnCpu \<or> run_state t = kQueued);
     s \<leftarrow> set_state g kYielding s;
     Some (s\<lparr>yielding_tasks := yielding_tasks s @ [g]\<rparr>) }"

definition Unyield :: "gtid \<Rightarrow> EdfScheduler \<Rightarrow> EdfScheduler option" where
  "Unyield g s = do {
     t \<leftarrow> task_map s g;
     CHECK (run_state t = kYielding);
     CHECK (g \<in> set (yielding_tasks s));
     Enqueue g (s\<lparr>yielding_tasks := remove1 g (yielding_tasks s)\<rparr>) }"

section \<open>Updated parameters\<close>

definition PreemptTask :: "edf_env \<Rightarrow> gtid \<Rightarrow> gtid option \<Rightarrow> u32 \<Rightarrow> EdfScheduler \<Rightarrow> (bool \<times> EdfScheduler) option" where
  "PreemptTask E prev next agent_barrier s = do {
     t \<leftarrow> task_map s prev;
     CHECK (0 \<le> task_cpu t \<and> task_cpu t < int (topo_cpus (cpus s)));
     CHECK (run_state t = kOnCpu);
     if next = Some prev then Some (True, s)
     else do {
       (ok, s) \<leftarrow> (case next of
           Some n \<Rightarrow> do {
             tn \<leftarrow> task_map s n;
             CHECK (run_state tn \<noteq> kOnCpu);
             Some (commit_ok E (task_cpu t) (Some n), s\<lparr>txns := txns s @ [(task_cpu t, Some n, seqnum tn, Some agent_barrier)]\<rparr>) }
         | None \<Rightarrow> do {
             CHECK (task_cpu t \<noteq> agent_cpu E);
             CHECK (commit_ok E (task_cpu t) None);
             Some (True, s\<lparr>txns := txns s @ [(task_cpu t, None, 0, None)]\<rparr>) });
       if \<not> ok then Some (False, s)
       else do {
         let s = upd_ecpu (task_cpu t) (current_update (\<lambda>_. next)) s;
         s \<leftarrow> set_state prev kPaused s;
         s \<leftarrow> (case next of None \<Rightarrow> Some s
           | Some n \<Rightarrow> do {
               s \<leftarrow> upd_task n (\<lambda>tn. tn\<lparr>run_state := kOnCpu, task_cpu := task_cpu t\<rparr>) s;
               UpdateRuntime E prev s });
         Some (True, s) } } }"

definition upd_orch :: "int \<Rightarrow> (Orchestrator \<Rightarrow> Orchestrator option) \<Rightarrow> EdfScheduler \<Rightarrow> EdfScheduler option" where
  "upd_orch p f s = do { orch \<leftarrow> orchs s p; orch \<leftarrow> f orch; Some (s\<lparr>orchs := (orchs s)(p \<mapsto> orch)\<rparr>) }"

definition MakeEngineRunnable :: "edf_env \<Rightarrow> int \<Rightarrow> nat \<Rightarrow> EdfScheduler \<Rightarrow> EdfScheduler option" where
  "MakeEngineRunnable E p i s = do {
     orch \<leftarrow> orchs s p;
     CHECK (i < length (cachedsids orch));
     let v = cachedsids orch ! i;
     CHECK (item_gpid E p i = sp_gpid v);
     rep \<leftarrow> Repeating orch v;
     CHECK rep;
     CHECK (\<not> HasWork v);
     s \<leftarrow> upd_orch p (\<lambda>orch. Some (orch\<lparr>cachedsids := (cachedsids orch)[i := SetRunnable v]\<rparr>)) s;
     Some (s\<lparr>made_runnable := made_runnable s @ [(p, i)]\<rparr>) }"

text \<open>
  \<open>SchedParamsCallback\<close> for the task with updated parameters: copying the parameters, charging the
  old work class, and the new deadline; then the change of the run state.
\<close>

definition bill_work :: "edf_env \<Rightarrow> int \<Rightarrow> gtid \<Rightarrow> u32 \<Rightarrow> EdfScheduler \<Rightarrow> EdfScheduler option" where
  "bill_work E p g old_wcid s = do {
     s \<leftarrow> UpdateRuntime E g s;
     t \<leftarrow> task_map s g;
     orch \<leftarrow> orchs s p;
     CHECK (unat (wcid t) < length (work_classes orch));
     s \<leftarrow> upd_orch p (UpdateWorkClassStats (now E) old_wcid (elapsed_runtime t) (deadline t)) s;
     upd_task g (elapsed_runtime_update (\<lambda>_. 0)) s }"

definition new_deadline :: "edf_env \<Rightarrow> int \<Rightarrow> nat \<Rightarrow> gtid \<Rightarrow> EdfScheduler \<Rightarrow> EdfScheduler option" where
  "new_deadline E p i g s = do {
     v \<leftarrow> sp_value s (Cached p i);
     orch \<leftarrow> orchs s p;
     est \<leftarrow> EstimateRuntime orch (sp_wcid v);
     s \<leftarrow> upd_task g (estimated_runtime_update (\<lambda>_. est)) s;
     rep \<leftarrow> Repeating orch v;
     dl \<leftarrow> (if rep then do { per \<leftarrow> GetWorkClassPeriod orch (sp_wcid v); Some (Time (now E + per)) } else Some (GetDeadline v));
     s \<leftarrow> upd_task g (deadline_update (\<lambda>_. dl)) s;
     on_task g CalculateSchedDeadline s }"

definition work_edge :: "edf_env \<Rightarrow> int \<Rightarrow> nat \<Rightarrow> gtid \<Rightarrow> bool \<Rightarrow> EdfScheduler \<Rightarrow> EdfScheduler option" where
  "work_edge E p i g had_work s = do {
     t \<leftarrow> task_map s g;
     v \<leftarrow> sp_value s (Cached p i);
     orch \<leftarrow> orchs s p;
     if run_state t = kBlocked then Some s
     else if \<not> had_work then do {
       CHECK (run_state t = kPaused);
       if has_work t then Enqueue g s else Some s }
     else do {
       CHECK (run_state t \<noteq> kPaused);
       if has_work t
       then (if run_state t = kQueued
             then do { rep \<leftarrow> Repeating orch v; CHECK (\<not> rep); UpdateRunqueue g s }
             else Some s)
       else do {
         s \<leftarrow> (if run_state t = kOnCpu then do { (ok, s) \<leftarrow> PreemptTask E g None 0 s; CHECK ok; Some s }
               else if run_state t = kQueued then RemoveFromRunqueue g s
               else None);
         t \<leftarrow> task_map s g;
         CHECK (run_state t = kPaused);
         rep \<leftarrow> Repeating orch v;
         if rep then do {
           s \<leftarrow> MakeEngineRunnable E p i s;
           s \<leftarrow> upd_task g (has_work_update (\<lambda>_. True)) s;
           Enqueue g s }
         else Some s } } }"

definition update_task_params :: "edf_env \<Rightarrow> int \<Rightarrow> nat \<Rightarrow> gtid \<Rightarrow> EdfScheduler \<Rightarrow> EdfScheduler option" where
  "update_task_params E p i g s = do {
     t \<leftarrow> task_map s g;
     s \<leftarrow> (if run_state t = kYielding then Unyield g s else Some s);
     t \<leftarrow> task_map s g;
     v \<leftarrow> sp_value s (Cached p i);
     let had_work = has_work t;
     let old_wcid = wcid t;
     s \<leftarrow> upd_task g (\<lambda>t. t\<lparr>sp := Some (Cached p i), has_work := HasWork v, wcid := sp_wcid v\<rparr>) s;
     s \<leftarrow> (if had_work then bill_work E p g old_wcid s else Some s);
     s \<leftarrow> new_deadline E p i g s;
     work_edge E p i g had_work s }"

definition SchedParamsCallback :: "edf_env \<Rightarrow> int \<Rightarrow> nat \<Rightarrow> gtid \<Rightarrow> EdfScheduler \<Rightarrow> EdfScheduler option" where
  "SchedParamsCallback E p i oldgtid s = do {
     v \<leftarrow> sp_value s (Cached p i);
     orch \<leftarrow> orchs s p;
     let g = sp_gpid v;
     CHECK (oldgtid = 0 \<or> oldgtid = g);
     if g = 0 then Some s
     else do {
       s \<leftarrow> (if in_discovery s
             then do { rep \<leftarrow> Repeating orch v; if rep \<and> \<not> HasWork v then MakeEngineRunnable E p i s else Some s }
             else Some s);
       if GetTask s g = None then Some s else update_task_params E p i g s } }"

definition RefreshSchedParam :: "edf_env \<Rightarrow> int \<Rightarrow> nat \<Rightarrow> nat \<Rightarrow> EdfScheduler \<Rightarrow> EdfScheduler option" where
  "RefreshSchedParam E p k i s = do {
     orch \<leftarrow> orchs s p;
     CHECK (i < length (cachedsids orch));
     wc \<leftarrow> table_work_class orch (rd_class (item E p k i));
     let v = cachedsids orch ! i;
     let (v', changed) = SeqCopyParams (item E p k i) wc v;
     s \<leftarrow> upd_orch p (\<lambda>orch. Some (orch\<lparr>cachedsids := (cachedsids orch)[i := v']\<rparr>)) s;
     if changed then SchedParamsCallback E p i (sp_gpid v) s else Some s }"

definition RefreshAllSchedParams :: "edf_env \<Rightarrow> int \<Rightarrow> nat \<Rightarrow> EdfScheduler \<Rightarrow> EdfScheduler option" where
  "RefreshAllSchedParams E p k s = do {
     orch \<leftarrow> orchs s p;
     mfold (RefreshSchedParam E p k) [0..<length (cachedsids orch)] s }"

fun refresh_loop :: "edf_env \<Rightarrow> int \<Rightarrow> nat list \<Rightarrow> EdfScheduler \<Rightarrow> EdfScheduler option" where
  "refresh_loop E p [] s = Some s"
| "refresh_loop E p (k # ks) s = do {
     orch \<leftarrow> orchs s p;
     let idx = next_index E p k;
     if 0 \<le> idx \<and> idx < int (length (cachedsids orch))
     then do { s \<leftarrow> RefreshSchedParam E p k (nat idx) s; refresh_loop E p ks s }
     else if idx = kStreamOverflow then RefreshAllSchedParams E p k s
     else if idx = kStreamNoEntries then Some s
     else None }"

definition RefreshSchedParams :: "edf_env \<Rightarrow> int \<Rightarrow> EdfScheduler \<Rightarrow> EdfScheduler option" where
  "RefreshSchedParams E p s = do { orch \<leftarrow> orchs s p; refresh_loop E p [0..<st_cap orch] s }"

text \<open>The loops over the hash map \<open>orchs_\<close>, in the order in which it lists its entries.\<close>

definition for_orchs :: "edf_env \<Rightarrow> (int \<Rightarrow> EdfScheduler \<Rightarrow> EdfScheduler option) \<Rightarrow> EdfScheduler \<Rightarrow> EdfScheduler option" where
  "for_orchs E f s = mfold f (filter (\<lambda>p. orchs s p \<noteq> None) (orch_order E)) s"

definition UpdateSchedParams :: "edf_env \<Rightarrow> EdfScheduler \<Rightarrow> EdfScheduler option" where
  "UpdateSchedParams E = for_orchs E (RefreshSchedParams E)"

definition GetSchedParams :: "edf_env \<Rightarrow> int \<Rightarrow> gtid \<Rightarrow> EdfScheduler \<Rightarrow> EdfScheduler option" where
  "GetSchedParams E p g s = do {
     orch \<leftarrow> orchs s p;
     case find (\<lambda>i. sp_gpid (cachedsids orch ! i) = g) [0..<length (cachedsids orch)] of
       None \<Rightarrow> Some s
     | Some i \<Rightarrow> SchedParamsCallback E p i (sp_gpid (cachedsids orch ! i)) s }"

section \<open>Message handlers\<close>

definition edf_cpu_state_of :: "gtid \<Rightarrow> EdfScheduler \<Rightarrow> int option" where
  "edf_cpu_state_of g s = do {
     t \<leftarrow> task_map s g;
     CHECK (run_state t = kOnCpu);
     CHECK (current (cpu_states s (task_cpu t)) = Some g);
     Some (task_cpu t) }"

definition HandleNewGtid :: "edf_env \<Rightarrow> gtid \<Rightarrow> int \<Rightarrow> EdfScheduler \<Rightarrow> EdfScheduler option" where
  "HandleNewGtid E g tgid s = do {
     CHECK (tgid \<ge> 0);
     if orchs s tgid = None
     then (case attach E tgid of
         None \<Rightarrow> upd_task g (\<lambda>t. t\<lparr>has_work := True, sp := Some Dummy_sp\<rparr>) s
       | Some pt \<Rightarrow> Some (s\<lparr>orchs := (orchs s)(tgid \<mapsto> Orchestrator_Init pt)\<rparr>))
     else Some s }"

definition EdfScheduler_TaskNew :: "edf_env \<Rightarrow> gtid \<Rightarrow> message \<Rightarrow> EdfScheduler \<Rightarrow> EdfScheduler option" where
  "EdfScheduler_TaskNew E g m s = do {
     s \<leftarrow> UpdateTaskRuntime g (Nanoseconds (runtime m)) False s;
     s \<leftarrow> upd_task g (\<lambda>t. t\<lparr>seqnum := msg_seqnum m, run_state := kBlocked\<rparr>) s;
     let tgid = tgid_of E (msg_gtid m);
     s \<leftarrow> HandleNewGtid E g tgid s;
     s \<leftarrow> (if runnable m then Enqueue g s else Some s);
     let s = s\<lparr>num_tasks := num_tasks s + 1\<rparr>;
     if \<not> in_discovery s \<and> orchs s tgid \<noteq> None then GetSchedParams E tgid g s else Some s }"

definition EdfScheduler_TaskRunnable :: "gtid \<Rightarrow> message \<Rightarrow> EdfScheduler \<Rightarrow> EdfScheduler option" where
  "EdfScheduler_TaskRunnable g m s = do {
     t \<leftarrow> task_map s g;
     CHECK (run_state t = kBlocked);
     s \<leftarrow> upd_task g (prio_boost_update (\<lambda>_. \<not> deferrable m)) s;
     Enqueue g s }"

definition off_current :: "gtid \<Rightarrow> EdfScheduler \<Rightarrow> EdfScheduler option" where
  "off_current g s = do { c \<leftarrow> edf_cpu_state_of g s; Some (upd_ecpu c (current_update (\<lambda>_. None)) s) }"

definition EdfScheduler_TaskDeparted :: "edf_env \<Rightarrow> gtid \<Rightarrow> message \<Rightarrow> EdfScheduler \<Rightarrow> EdfScheduler option" where
  "EdfScheduler_TaskDeparted E g m s = do {
     t \<leftarrow> task_map s g;
     s \<leftarrow> (if run_state t = kYielding then Unyield g s else Some s);
     t \<leftarrow> task_map s g;
     s \<leftarrow> (if run_state t = kOnCpu then off_current g s
           else if run_state t = kQueued then RemoveFromRunqueue g s
           else do { CHECK (run_state t = kBlocked \<or> run_state t = kPaused); Some s });
     s \<leftarrow> FreeTask (sw_free E) g s;
     Some (s\<lparr>num_tasks := num_tasks s - 1\<rparr>) }"

definition EdfScheduler_TaskDead :: "edf_env \<Rightarrow> gtid \<Rightarrow> message \<Rightarrow> EdfScheduler \<Rightarrow> EdfScheduler option" where
  "EdfScheduler_TaskDead E g m s = do {
     t \<leftarrow> task_map s g;
     CHECK (run_state t = kBlocked);
     s \<leftarrow> FreeTask (sw_free E) g s;
     Some (s\<lparr>num_tasks := num_tasks s - 1\<rparr>) }"

definition EdfScheduler_TaskBlocked :: "gtid \<Rightarrow> message \<Rightarrow> EdfScheduler \<Rightarrow> EdfScheduler option" where
  "EdfScheduler_TaskBlocked g m s = do {
     t \<leftarrow> task_map s g;
     s \<leftarrow> (if run_state t = kOnCpu then do { s \<leftarrow> UpdateTaskRuntime g (Nanoseconds (runtime m)) True s; off_current g s }
           else if run_state t = kQueued then RemoveFromRunqueue g s
           else do { CHECK (run_state t = kPaused); Some s });
     set_state g kBlocked s }"

definition EdfScheduler_TaskPreempted :: "gtid \<Rightarrow> message \<Rightarrow> EdfScheduler \<Rightarrow> EdfScheduler option" where
  "EdfScheduler_TaskPreempted g m s = do {
     s \<leftarrow> upd_task g (\<lambda>t. t\<lparr>preempted := True, prio_boost := True\<rparr>) s;
     t \<leftarrow> task_map s g;
     if run_state t = kOnCpu
     then do { s \<leftarrow> UpdateTaskRuntime g (Nanoseconds (runtime m)) True s; s \<leftarrow> off_current g s; Enqueue g s }
     else if run_state t = kQueued then UpdateRunqueue g s
     else do { CHECK (run_state t = kPaused); Some s } }"

definition EdfScheduler_TaskYield :: "gtid \<Rightarrow> message \<Rightarrow> EdfScheduler \<Rightarrow> EdfScheduler option" where
  "EdfScheduler_TaskYield g m s = do {
     t \<leftarrow> task_map s g;
     if run_state t = kOnCpu
     then do { s \<leftarrow> UpdateTaskRuntime g (Nanoseconds (runtime m)) True s; s \<leftarrow> off_current g s; Yield g s }
     else do { CHECK (run_state t = kQueued \<or> run_state t = kPaused); Some s } }"

definition EdfScheduler_DiscoveryStart :: "EdfScheduler \<Rightarrow> EdfScheduler option" where
  "EdfScheduler_DiscoveryStart s = Some (s\<lparr>in_discovery := True\<rparr>)"

definition EdfScheduler_DiscoveryComplete :: "edf_env \<Rightarrow> EdfScheduler \<Rightarrow> EdfScheduler option" where
  "EdfScheduler_DiscoveryComplete E s = do {
     s \<leftarrow> for_orchs E (\<lambda>p. RefreshAllSchedParams E p 0) s;
     Some (s\<lparr>in_discovery := False\<rparr>) }"

definition EdfScheduler_handlers :: "edf_env \<Rightarrow> (EdfTask, EdfScheduler) handlers" where
  "EdfScheduler_handlers E = \<lparr>sw_words = status_words E, verbose = verbosity E, AllocTask = (\<lambda>_. EdfTask_init), TaskNew = EdfScheduler_TaskNew E,
     TaskRunnable = EdfScheduler_TaskRunnable, TaskDead = EdfScheduler_TaskDead E,
     TaskDeparted = EdfScheduler_TaskDeparted E, TaskYield = EdfScheduler_TaskYield,
     TaskBlocked = EdfScheduler_TaskBlocked, TaskPreempted = EdfScheduler_TaskPreempted,
     TaskSwitchto = ignore_task, TaskAffinityChanged = ignore_task,
     TaskPriorityChanged = ignore_task, TaskOnCpuMsg = ignore_task, TaskDiscovered = (\<lambda>g s. Some s),
     DiscoveryStart = EdfScheduler_DiscoveryStart, DiscoveryComplete = EdfScheduler_DiscoveryComplete E,
     CpuTick = ignore_msg, CpuNotIdle = ignore_msg, CpuTimerExpired = ignore_msg, CpuAvailable = ignore_msg,
     CpuBusy = ignore_msg, AgentBlocked = ignore_msg, AgentWakeup = ignore_msg\<rparr>"

section \<open>The global decision\<close>

lemma sift_up_length: "sift_up pos s = Some s' \<Longrightarrow> length (run_queue s') = length (run_queue s)"
proof (induction pos s rule: sift_up.induct)
  case (1 pos s)
  show ?case using 1(2) 1(1) rq_swap_length
    by (subst (asm) sift_up.simps) (fastforce simp: bind_eq_Some_conv split: if_splits)
qed

lemma sift_down_length: "sift_down pos s = Some s' \<Longrightarrow> length (run_queue s') = length (run_queue s)"
proof (induction pos s rule: sift_down.induct)
  case (1 pos s)
  show ?case using 1(2) 1(1) rq_swap_length
    by (subst (asm) sift_down.simps) (fastforce simp: bind_eq_Some_conv split: if_splits)
qed

lemma update_position_length:
  "UpdateRunqueuePosition pos s = Some s' \<Longrightarrow> length (run_queue s') = length (run_queue s)"
  by (auto simp: UpdateRunqueuePosition_def bind_eq_Some_conv split: if_splits dest: sift_up_length sift_down_length)

lemma dequeue_length: "Dequeue s = Some (Some g, s') \<Longrightarrow> length (run_queue s') < length (run_queue s)"
  by (auto simp: Dequeue_def Let_def bind_eq_Some_conv upd_task_Some split: if_splits
      dest!: rq_swap_length update_position_length) 

lemma yield_length: "Yield g s = Some s' \<Longrightarrow> length (run_queue s') = length (run_queue s)"
  by (auto simp: Yield_def set_state_def bind_eq_Some_conv upd_task_Some)

text \<open>
  The choice for one CPU.  The result is the chosen task, and whether the loop over the CPUs is left
  because there are no more tasks.
\<close>

definition keep_current :: "int \<Rightarrow> EdfScheduler \<Rightarrow> bool option" where
  "keep_current c s = (case current (cpu_states s c) of None \<Rightarrow> Some False
     | Some cur \<Rightarrow> do {
         peek \<leftarrow> Peek_rq s;
         case peek of None \<Rightarrow> Some False
         | Some g \<Rightarrow> do {
             tg \<leftarrow> task_map s g; qg \<leftarrow> GetQoS s tg;
             tc \<leftarrow> task_map s cur; qc \<leftarrow> GetQoS s tc;
             Some (qg \<le> qc) } })"

function pick_for :: "edf_env \<Rightarrow> int \<Rightarrow> EdfScheduler \<Rightarrow> (EdfScheduler \<times> gtid option \<times> bool) option" where
  "pick_for E c s = do {
     keep \<leftarrow> keep_current c s;
     if keep then Some (s, None, False)
     else do {
       (to_run, s') \<leftarrow> Dequeue s;
       case to_run of None \<Rightarrow> Some (s', None, True)
       | Some g \<Rightarrow> if sw_on_cpu E g then do { s'' \<leftarrow> Yield g s'; pick_for E c s'' }
                   else Some (s', Some g, False) } }"
  by pat_completeness auto
termination
  by (relation "measure (\<lambda>(E, c, s). length (run_queue s))") (auto dest!: dequeue_length yield_length)

declare pick_for.simps [simp del]

definition pick_all :: "edf_env \<Rightarrow> EdfScheduler \<Rightarrow> (EdfScheduler \<times> cpu_map) option" where
  "pick_all E s = do {
     updated \<leftarrow> CpuMap_init (topo_cpus (cpus s));
     (s, updated, _) \<leftarrow> for_cpus (cpus s) (\<lambda>c (s, updated, stop).
        if stop \<or> \<not> avail E (int c) \<or> int c = global_cpu s then Some (s, updated, stop)
        else do {
          (s, to_run, stop) \<leftarrow> pick_for E (int c) s;
          case to_run of None \<Rightarrow> Some (s, updated, stop)
          | Some g \<Rightarrow> do {
              updated \<leftarrow> cpu_set c updated;
              Some (upd_ecpu (int c) (next_task_update (\<lambda>_. Some g)) s, updated, stop) } }) (s, updated, False);
     Some (s, updated) }"

text \<open>The commit on one of the chosen CPUs.\<close>

definition commit_next :: "edf_env \<Rightarrow> u32 \<Rightarrow> int \<Rightarrow> gtid option \<Rightarrow> EdfScheduler \<Rightarrow> (bool \<times> EdfScheduler) option" where
  "commit_next E b c next s = (case next of
     Some n \<Rightarrow> (case current (cpu_states s c) of
         Some prev \<Rightarrow> do {
           (in_sync, s) \<leftarrow> PreemptTask E prev (Some n) b s;
           if in_sync then do { s \<leftarrow> Enqueue prev s; Some (True, s) } else Some (False, s) }
       | None \<Rightarrow> do {
           t \<leftarrow> task_map s n;
           Some (commit_ok E c (Some n), s\<lparr>txns := txns s @ [(c, Some n, seqnum t, None)]\<rparr>) })
   | None \<Rightarrow> do { CHECK (c \<noteq> agent_cpu E); Some (commit_ok E c None, s\<lparr>txns := txns s @ [(c, None, 0, None)]\<rparr>) })"

definition sync_cpu :: "edf_env \<Rightarrow> u32 \<Rightarrow> nat \<Rightarrow> EdfScheduler \<times> bool \<Rightarrow> (EdfScheduler \<times> bool) option" where
  "sync_cpu E b c = (\<lambda>(s, in_sync).
     let next = next_task (cpu_states s (int c)); s = upd_ecpu (int c) (next_task_update (\<lambda>_. None)) s in
     if current (cpu_states s (int c)) = next then Some (s, in_sync)
     else do {
       (in_sync, s) \<leftarrow> (if in_sync then commit_next E b (int c) next s else Some (False, s));
       case next of None \<Rightarrow> Some (s, in_sync)
       | Some n \<Rightarrow> if \<not> in_sync then do { s \<leftarrow> Enqueue n s; Some (s, in_sync) }
           else do {
             let s = upd_ecpu (int c) (current_update (\<lambda>_. Some n)) s;
             s \<leftarrow> upd_task n (\<lambda>t. t\<lparr>run_state := kOnCpu, task_cpu := int c, preempted := False, prio_boost := False\<rparr>) s;
             Some (s, in_sync) } })"

definition requeue_yielding :: "EdfScheduler \<Rightarrow> EdfScheduler option" where
  "requeue_yielding s = do {
     s \<leftarrow> mfold (\<lambda>g s. do { t \<leftarrow> task_map s g; CHECK (run_state t = kYielding); Enqueue g s }) (yielding_tasks s) s;
     Some (s\<lparr>yielding_tasks := []\<rparr>) }"

definition GlobalSchedule :: "edf_env \<Rightarrow> u32 \<Rightarrow> EdfScheduler \<Rightarrow> EdfScheduler option" where
  "GlobalSchedule E agent_sw_last s = do {
     (s, updated) \<leftarrow> pick_all E s;
     (s, _) \<leftarrow> for_cpus updated (sync_cpu E agent_sw_last) (s, True);
     requeue_yielding s }"

definition PickNextGlobalCPU :: "edf_env \<Rightarrow> EdfScheduler \<Rightarrow> EdfScheduler option" where
  "PickNextGlobalCPU E s = do {
     (s, _) \<leftarrow> for_cpus (cpus s) (\<lambda>c (s, found).
        if found \<or> \<not> (avail E (int c) \<and> int c \<noteq> global_cpu s) then Some (s, found)
        else do {
          (case current (cpu_states s (int c)) of None \<Rightarrow> Some ()
           | Some prev \<Rightarrow> do { t \<leftarrow> task_map s prev; CHECK (run_state t = kOnCpu) });
          Some (s\<lparr>global_cpu := int c, pings := pings s @ [int c]\<rparr>, True) }) (s, False);
     Some s }"

text \<open>One round of the agent on the global CPU.\<close>

definition global_round :: "(message \<Rightarrow> edf_env) \<Rightarrow> edf_env \<Rightarrow> u32 \<Rightarrow> bool \<Rightarrow> ghost_ring \<Rightarrow> EdfScheduler \<Rightarrow> (ghost_ring \<times> EdfScheduler) option" where
  "global_round env E agent_barrier boosted r s = (if boosted then do { s \<leftarrow> PickNextGlobalCPU E s; Some (r, s) }
     else do {
       (r, s) \<leftarrow> drain_channel (\<lambda>m. DispatchMessage (EdfScheduler_handlers (env m)) m) r s;
       s \<leftarrow> UpdateSchedParams E s;
       s \<leftarrow> GlobalSchedule E agent_barrier s;
       Some (r, s) })"

text \<open>The constructor, without the loading of the BPF programs.\<close>

definition EdfScheduler_init :: "cpu_map \<Rightarrow> nat \<Rightarrow> EdfScheduler option" where
  "EdfScheduler_init cpulist config_global_cpu = do {
     b \<leftarrow> IsSet cpulist config_global_cpu;
     gc \<leftarrow> (if \<not> b then do { c \<leftarrow> Front cpulist; c } else Some config_global_cpu);
     Some \<lparr>task_map = Map.empty, cpu_states = (\<lambda>_. \<lparr>current = None, next_task = None\<rparr>), cpus = cpulist,
       global_cpu = int gc, num_tasks = 0, in_discovery = False, run_queue = [], yielding_tasks = [],
       orchs = Map.empty, pings = [], txns = [], made_runnable = []\<rparr> }"

end
