(* ===== verification/Edf_Queue.thy ===== *)
theory Edf_Queue
  imports Edf_Scheduler "HOL-Library.Product_Lexorder"
begin

text \<open>
  The run queue of the EDF scheduler is a heap whose tasks know their positions: the loops that move a
  task are the list operations of \<open>Edf_Heap\<close>, with the positions kept up to date.
\<close>

section \<open>The order of the tasks\<close>

text \<open>Boosted tasks first, then the higher class, then the earlier scheduling deadline.\<close>

definition edf_key :: "EdfScheduler \<Rightarrow> gtid \<Rightarrow> bool \<times> int \<times> abs_time" where
  "edf_key s g = (case task_map s g of None \<Rightarrow> (True, 0, InfiniteFuture)
     | Some t \<Rightarrow> (\<not> prio_boost t, - uint (the (GetQoS s t)), sched_deadline t))"

definition edf_gt :: "EdfScheduler \<Rightarrow> gtid \<Rightarrow> gtid \<Rightarrow> bool" where
  "edf_gt s a b \<longleftrightarrow> edf_key s b < edf_key s a"

interpretation edf: heap_order "edf_gt s" for s
  by unfold_locales (auto simp: edf_gt_def)

definition keyed :: "EdfScheduler \<Rightarrow> gtid \<Rightarrow> bool" where
  "keyed s g \<longleftrightarrow> (\<exists>t q. task_map s g = Some t \<and> GetQoS s t = Some q)"

lemma greater_key: "keyed s a \<Longrightarrow> keyed s b \<Longrightarrow> SchedDeadlineGreater s a b = Some (edf_gt s a b)"
  by (auto simp: keyed_def SchedDeadlineGreater_def edf_gt_def edf_key_def word_less_def word_uint_eq_iff)

section \<open>Positions\<close>

definition pos_of :: "gtid list \<Rightarrow> gtid \<Rightarrow> nat" where
  "pos_of xs g = length (takeWhile (\<lambda>x. x \<noteq> g) xs)"

lemma pos_of_nth: "distinct xs \<Longrightarrow> i < length xs \<Longrightarrow> pos_of xs (xs ! i) = i"
proof (induction xs arbitrary: i)
  case (Cons x xs)
  then show ?case by (cases i) (auto simp: pos_of_def)
qed simp

lemma pos_of_mem: "g \<in> set xs \<Longrightarrow> pos_of xs g < length xs \<and> xs ! pos_of xs g = g"
  by (induction xs) (auto simp: pos_of_def)

definition relink :: "gtid list \<Rightarrow> (gtid \<rightharpoonup> EdfTask) \<Rightarrow> gtid \<rightharpoonup> EdfTask" where
  "relink xs m = (\<lambda>g. if g \<in> set xs then map_option (rq_pos_update (\<lambda>_. int (pos_of xs g))) (m g) else m g)"

definition with_rq :: "gtid list \<Rightarrow> EdfScheduler \<Rightarrow> EdfScheduler" where
  "with_rq xs s = s\<lparr>run_queue := xs, task_map := relink xs (task_map s)\<rparr>"

lemma with_rq_simps [simp]:
  "run_queue (with_rq xs s) = xs" "task_map (with_rq xs s) = relink xs (task_map s)" "cpu_states (with_rq xs s) = cpu_states s"
  "cpus (with_rq xs s) = cpus s" "orchs (with_rq xs s) = orchs s" "yielding_tasks (with_rq xs s) = yielding_tasks s"
  "in_discovery (with_rq xs s) = in_discovery s" "global_cpu (with_rq xs s) = global_cpu s" "num_tasks (with_rq xs s) = num_tasks s"
  "txns (with_rq xs s) = txns s"
  by (simp_all add: with_rq_def)

text \<open>The tasks of the run queue are known, and the position of each is where it is.\<close>

definition rq_linked :: "EdfScheduler \<Rightarrow> bool" where
  "rq_linked s \<longleftrightarrow> distinct (run_queue s)
     \<and> (\<forall>g \<in> set (run_queue s). \<exists>t. task_map s g = Some t \<and> rq_pos t = int (pos_of (run_queue s) g))"

lemma linkedD:
  assumes "rq_linked s" shows "distinct (run_queue s)"
    "i < length (run_queue s) \<Longrightarrow> \<exists>t. task_map s (run_queue s ! i) = Some t \<and> rq_pos t = int i"
proof -
  show d: "distinct (run_queue s)" using assms by (simp add: rq_linked_def)
  show "\<exists>t. task_map s (run_queue s ! i) = Some t \<and> rq_pos t = int i" if "i < length (run_queue s)"
    using assms that pos_of_nth [OF d that] nth_mem [OF that] unfolding rq_linked_def by metis
qed

lemma relink_relink: "set ys = set xs \<Longrightarrow> relink ys (relink xs m) = relink ys m"
  by (auto simp: relink_def fun_eq_iff option.map_comp comp_def)

lemma with_rq_twice: "set ys = set xs \<Longrightarrow> with_rq ys (with_rq xs s) = with_rq ys s"
  by (simp add: with_rq_def relink_relink)

lemma with_rq_same: "rq_linked s \<Longrightarrow> with_rq (run_queue s) s = s"
proof -
  assume l: "rq_linked s"
  have "relink (run_queue s) (task_map s) g = task_map s g" for g
    using l by (cases "task_map s g") (auto simp: relink_def rq_linked_def)
  then have "relink (run_queue s) (task_map s) = task_map s" by blast
  then show ?thesis by (simp add: with_rq_def)
qed

lemma linked_with_rq: "rq_linked s \<Longrightarrow> distinct xs \<Longrightarrow> set xs = set (run_queue s) \<Longrightarrow> rq_linked (with_rq xs s)"
  by (auto simp: rq_linked_def relink_def)

lemma sp_value_cong: "orchs s' = orchs s \<Longrightarrow> sp_value s' = sp_value s"
  by (simp add: fun_eq_iff sp_value_def split: sp_ptr.split)

lemma GetQoS_cong: "orchs s' = orchs s \<Longrightarrow> sp t' = sp t \<Longrightarrow> GetQoS s' t' = GetQoS s t"
  using sp_value_cong [of s' s] by (simp add: GetQoS_def)

lemma GetQoS_task [simp]: "GetQoS s (t\<lparr>rq_pos := i\<rparr>) = GetQoS s t" "GetQoS s (t\<lparr>run_state := st\<rparr>) = GetQoS s t"
  by (simp_all add: GetQoS_def)

lemma GetQoS_with_rq [simp]: "GetQoS (with_rq xs s) t = GetQoS s t"
  by (rule GetQoS_cong) simp_all

lemma key_with_rq [simp]: "edf_key (with_rq xs s) = edf_key s" "edf_gt (with_rq xs s) = edf_gt s" "keyed (with_rq xs s) = keyed s"
proof -
  show k: "edf_key (with_rq xs s) = edf_key s"
    by (auto simp: fun_eq_iff edf_key_def relink_def split: option.splits)
  show "edf_gt (with_rq xs s) = edf_gt s" by (simp add: fun_eq_iff edf_gt_def k)
  show "keyed (with_rq xs s) = keyed s"
    by (auto simp: fun_eq_iff keyed_def relink_def)
qed

lemma swap_linked:
  assumes "rq_linked s" and "i < length (run_queue s)" and "j < length (run_queue s)"
  shows "rq_swap i j s = Some (with_rq (swap_at i j (run_queue s)) s)"
proof -
  let ?xs = "run_queue s" and ?ys = "swap_at i j (run_queue s)"
  note d = linkedD(1) [OF assms(1)]
  obtain ti tj where t: "task_map s (?xs ! i) = Some ti" "rq_pos ti = int i" "task_map s (?xs ! j) = Some tj" "rq_pos tj = int j"
    using linkedD(2) [OF assms(1)] assms(2, 3) by blast
  have ms: "mset ?ys = mset ?xs" using assms(2, 3) by simp
  have dy: "distinct ?ys" "set ?ys = set ?xs" using d mset_eq_imp_distinct_iff [OF ms] mset_eq_setD [OF ms] by auto
  have py: "pos_of ?ys (?xs ! k) = (if k = i then j else if k = j then i else k)" if "k < length ?xs" for k
    using pos_of_nth [OF dy(1), of k] pos_of_nth [OF dy(1), of i] pos_of_nth [OF dy(1), of j] that assms(2, 3) nth_swap_at [OF assms(2, 3)]
    by (auto split: if_splits)
  have "relink ?ys (task_map s) = (task_map s)(?xs ! i \<mapsto> ti\<lparr>rq_pos := rq_pos tj\<rparr>, ?xs ! j \<mapsto> tj\<lparr>rq_pos := rq_pos ti\<rparr>)"
  proof
    fix g
    show "relink ?ys (task_map s) g = ((task_map s)(?xs ! i \<mapsto> ti\<lparr>rq_pos := rq_pos tj\<rparr>, ?xs ! j \<mapsto> tj\<lparr>rq_pos := rq_pos ti\<rparr>)) g"
    proof (cases "g \<in> set ?xs")
      case True
      then obtain k where k: "k < length ?xs" "g = ?xs ! k" by (auto simp: in_set_conv_nth)
      obtain tk where "task_map s g = Some tk" "rq_pos tk = int k" using linkedD(2) [OF assms(1) k(1)] k(2) by auto
      moreover have "g = ?xs ! i \<longleftrightarrow> k = i" "g = ?xs ! j \<longleftrightarrow> k = j" using k d assms(2, 3) by (simp_all add: nth_eq_iff_index_eq)
      moreover have "pos_of ?ys g = (if k = i then j else if k = j then i else k)" using py [OF k(1)] k(2) by simp
      ultimately show ?thesis using t True dy(2) by (cases "k = j"; cases "k = i") (auto simp: relink_def)
    next
      case False
      then show ?thesis using assms(2, 3) dy(2) nth_mem by (auto simp: relink_def)
    qed
  qed
  then have e: "with_rq ?ys s = s\<lparr>run_queue := ?ys, task_map := (task_map s)(?xs ! i \<mapsto> ti\<lparr>rq_pos := rq_pos tj\<rparr>, ?xs ! j \<mapsto> tj\<lparr>rq_pos := rq_pos ti\<rparr>)\<rparr>"
    by (simp add: with_rq_def)
  show ?thesis
  proof (cases "i = j")
    case True
    then have "ti = tj" using t by simp
    then show ?thesis using t assms(2) True unfolding e by (simp add: rq_swap_def rq_at_def upd_task_def)
  next
    case False
    then have "?xs ! i \<noteq> ?xs ! j" using d assms(2, 3) by (simp add: nth_eq_iff_index_eq)
    then show ?thesis using t assms(2, 3) unfolding e by (simp add: rq_swap_def rq_at_def upd_task_def)
  qed
qed

lemma rq_greater_key:
  assumes "\<And>g. g \<in> set (run_queue s) \<Longrightarrow> keyed s g" and "i < length (run_queue s)" and "j < length (run_queue s)"
  shows "rq_greater s i j = Some (edf_gt s (run_queue s ! i) (run_queue s ! j))"
  using greater_key assms by (simp add: rq_greater_def rq_at_def)

section \<open>The loops are the list operations\<close>

lemma sift_up_linked:
  assumes "rq_linked s" and "\<And>g. g \<in> set (run_queue s) \<Longrightarrow> keyed s g" and "pos < length (run_queue s)"
  shows "sift_up pos s = Some (with_rq (heap_up (edf_gt s) pos (run_queue s)) s)"
  using assms
proof (induction pos arbitrary: s rule: less_induct)
  case (less pos)
  let ?xs = "run_queue s" and ?q = "parent pos"
  show ?case
  proof (cases "pos = 0 \<or> \<not> edf_gt s (?xs ! ?q) (?xs ! pos)")
    case True
    then have "heap_up (edf_gt s) pos ?xs = ?xs" by (subst heap_up.simps) auto
    then show ?thesis using True rq_greater_key [OF less.prems(2)] less.prems(3) parent_less [of pos] with_rq_same [OF less.prems(1)]
      by (subst sift_up.simps) auto
  next
    case False
    let ?ys = "swap_at pos ?q ?xs"
    have q: "?q < pos" "?q < length ?xs" using False less.prems(3) parent_less [of pos] by auto
    have ms: "mset ?ys = mset ?xs" using q less.prems(3) by simp
    have dy: "distinct ?ys" "set ?ys = set ?xs"
      using linkedD(1) [OF less.prems(1)] mset_eq_imp_distinct_iff [OF ms] mset_eq_setD [OF ms] by auto
    have "sift_up ?q (with_rq ?ys s) = Some (with_rq (heap_up (edf_gt s) ?q ?ys) (with_rq ?ys s))"
      using less.IH [OF q(1) linked_with_rq [OF less.prems(1) dy]] less.prems(2) q dy(2) by simp
    moreover have "set (heap_up (edf_gt s) ?q ?ys) = set ?ys" using q by (intro mset_eq_setD) (simp add: heap_up_mset)
    moreover have "heap_up (edf_gt s) pos ?xs = heap_up (edf_gt s) ?q ?ys" using False by (subst heap_up.simps) simp
    ultimately show ?thesis
      using False rq_greater_key [OF less.prems(2) q(2) less.prems(3)] swap_linked [OF less.prems(1) less.prems(3) q(2)]
      by (subst sift_up.simps) (simp add: with_rq_twice)
  qed
qed

lemma smaller_child_key:
  assumes "\<And>g. g \<in> set (run_queue s) \<Longrightarrow> keyed s g"
  shows "smaller_child pos s = Some (min_child (edf_gt s) pos (run_queue s))"
  using rq_greater_key [OF assms, of "pos * 2 + 1" "pos * 2 + 2"] by (auto simp: smaller_child_def min_child_def Let_def mult.commute)

lemma sift_down_linked:
  assumes "rq_linked s" and "\<And>g. g \<in> set (run_queue s) \<Longrightarrow> keyed s g" and "pos < length (run_queue s)"
  shows "sift_down pos s = Some (with_rq (heap_down (edf_gt s) pos (run_queue s)) s)"
  using assms
proof (induction "length (run_queue s) - pos" arbitrary: pos s rule: less_induct)
  case less
  let ?xs = "run_queue s" and ?c = "min_child (edf_gt s) pos (run_queue s)"
  have c: "pos < ?c" by (simp add: min_child_def)
  note child = smaller_child_key [OF less.prems(2)]
  show ?case
  proof (cases "?c < length ?xs \<and> edf_gt s (?xs ! pos) (?xs ! ?c)")
    case False
    then have "heap_down (edf_gt s) pos ?xs = ?xs" by (subst heap_down.simps) auto
    then show ?thesis using False child rq_greater_key [OF less.prems(2) less.prems(3)] with_rq_same [OF less.prems(1)]
      by (subst sift_down.simps) auto
  next
    case True
    let ?ys = "swap_at pos ?c ?xs"
    have ms: "mset ?ys = mset ?xs" using True less.prems(3) by simp
    have dy: "distinct ?ys" "set ?ys = set ?xs"
      using linkedD(1) [OF less.prems(1)] mset_eq_imp_distinct_iff [OF ms] mset_eq_setD [OF ms] by auto
    have "sift_down ?c (with_rq ?ys s) = Some (with_rq (heap_down (edf_gt s) ?c ?ys) (with_rq ?ys s))"
      using less.hyps [OF _ linked_with_rq [OF less.prems(1) dy], of ?c] less.prems True dy(2) diff_less_mono2 [OF c less.prems(3)] by simp
    moreover have "set (heap_down (edf_gt s) ?c ?ys) = set ?ys" using True by (intro mset_eq_setD) (simp add: heap_down_mset)
    moreover have "heap_down (edf_gt s) pos ?xs = heap_down (edf_gt s) ?c ?ys" using True by (subst heap_down.simps) simp
    ultimately show ?thesis
      using True child rq_greater_key [OF less.prems(2) less.prems(3)] swap_linked [OF less.prems(1) less.prems(3)]
      by (subst sift_down.simps) (simp add: with_rq_twice)
  qed
qed

lemma update_position:
  assumes "rq_linked s" and "\<And>g. g \<in> set (run_queue s) \<Longrightarrow> keyed s g" and "pos < length (run_queue s)"
  shows "UpdateRunqueuePosition pos s = Some (with_rq (heap_update (edf_gt s) pos (run_queue s)) s)"
  using rq_greater_key [OF assms(2) _ assms(3), of "parent pos"] sift_up_linked [OF assms] sift_down_linked [OF assms] assms(3) parent_less [of pos]
  by (auto simp: UpdateRunqueuePosition_def heap_update_def)

section \<open>The operations of the run queue\<close>

lemma key_cong:
  assumes "orchs s' = orchs s" and "\<And>g. task_map s' g = None \<longleftrightarrow> task_map s g = None"
    and "\<And>g t t'. task_map s g = Some t \<Longrightarrow> task_map s' g = Some t' \<Longrightarrow>
      prio_boost t' = prio_boost t \<and> sp t' = sp t \<and> sched_deadline t' = sched_deadline t"
  shows "edf_key s' = edf_key s" "edf_gt s' = edf_gt s" "keyed s' = keyed s"
proof -
  have q: "GetQoS s' t' = GetQoS s t" if "task_map s g = Some t" "task_map s' g = Some t'" for g t t'
    using assms(1, 3) that by (intro GetQoS_cong) auto
  have "edf_key s' g = edf_key s g \<and> keyed s' g = keyed s g" for g
  proof (cases "task_map s g")
    case None
    then have "task_map s' g = None" using assms(2) by simp
    then show ?thesis using None by (simp add: edf_key_def keyed_def)
  next
    case (Some t)
    then obtain t' where t': "task_map s' g = Some t'" using assms(2) [of g] by auto
    then show ?thesis using Some assms(3) [OF Some t'] q [OF Some t'] by (auto simp: edf_key_def keyed_def)
  qed
  then show k: "edf_key s' = edf_key s" "keyed s' = keyed s" by (simp_all add: fun_eq_iff)
  show "edf_gt s' = edf_gt s" by (simp add: fun_eq_iff edf_gt_def k)
qed

lemma key_upd:
  assumes "task_map s g = Some t" and "prio_boost t' = prio_boost t" and "sp t' = sp t" and "sched_deadline t' = sched_deadline t"
    and "orchs s' = orchs s" and "task_map s' = (task_map s)(g \<mapsto> t')"
  shows "edf_key s' = edf_key s" "edf_gt s' = edf_gt s" "keyed s' = keyed s"
  by (rule key_cong; use assms in \<open>auto split: if_splits\<close>)+

lemma with_rq_upd:
  "g \<in> set xs \<Longrightarrow> with_rq xs (s\<lparr>run_queue := ys, task_map := (task_map s)(g \<mapsto> t\<lparr>rq_pos := i\<rparr>)\<rparr>)
     = with_rq xs (s\<lparr>task_map := (task_map s)(g \<mapsto> t)\<rparr>)"
  by (auto simp: with_rq_def relink_def fun_eq_iff)

lemma pos_of_append: "g \<in> set xs \<Longrightarrow> pos_of (xs @ ys) g = pos_of xs g" "g \<notin> set xs \<Longrightarrow> pos_of (xs @ [g]) g = length xs"
  unfolding pos_of_def by (induction xs) auto

lemma enqueue_eq:
  assumes "rq_linked s" and "\<And>h. h \<in> set (run_queue s) \<Longrightarrow> keyed s h" and "keyed s g" and "task_map s g = Some t"
    and "has_work t" and "rq_pos t < 0" and "g \<notin> set (run_queue s)"
    and xs_def: "xs = heap_update (edf_gt s) (length (run_queue s)) (run_queue s @ [g])"
  shows "Enqueue g s = Some (with_rq xs (s\<lparr>task_map := (task_map s)(g \<mapsto> t\<lparr>run_state := kQueued\<rparr>)\<rparr>))"
    "mset xs = add_mset g (mset (run_queue s))" "heap (edf_gt s) (run_queue s) \<Longrightarrow> heap (edf_gt s) xs"
proof -
  let ?ys = "run_queue s @ [g]" and ?n = "length (run_queue s)"
  define s1 where "s1 = s\<lparr>run_queue := ?ys, task_map := (task_map s)(g \<mapsto> t\<lparr>run_state := kQueued, rq_pos := int ?n\<rparr>)\<rparr>"
  have key: "edf_gt s1 = edf_gt s" "keyed s1 = keyed s" by (rule key_upd [OF assms(4)]; simp add: s1_def)+
  have l: "rq_linked s1" using assms(1, 7) by (auto simp: rq_linked_def s1_def pos_of_append)
  have "UpdateRunqueuePosition ?n s1 = Some (with_rq xs s1)"
    using update_position [OF l, of ?n] assms(2, 3) by (auto simp: key xs_def) (auto simp: s1_def key)
  moreover show m: "mset xs = add_mset g (mset (run_queue s))" using heap_update_mset(1) [of ?n ?ys] by (simp add: xs_def)
  have "g \<in> set xs" using m by (metis union_single_eq_member set_mset_mset)
  then have "with_rq xs s1 = with_rq xs (s\<lparr>task_map := (task_map s)(g \<mapsto> t\<lparr>run_state := kQueued\<rparr>)\<rparr>)"
    unfolding s1_def by (rule with_rq_upd)
  moreover have "Enqueue g s = UpdateRunqueuePosition ?n s1"
    using assms(4-6) by (simp add: Enqueue_def set_state_def upd_task_def s1_def)
  ultimately show "Enqueue g s = Some (with_rq xs (s\<lparr>task_map := (task_map s)(g \<mapsto> t\<lparr>run_state := kQueued\<rparr>)\<rparr>))" by simp
  show "heap (edf_gt s) xs" if "heap (edf_gt s) (run_queue s)"
    unfolding xs_def using edf.heap_append [OF that] by (intro edf.heap_update_heap) simp_all
qed

end
