(* ===== verification/Edf_Inv.thy ===== *)
theory Edf_Inv
  imports Edf_Queue
begin

text \<open>
  The invariant of the EDF scheduler: the run queue, the CPUs and the list of yielding tasks hold
  exactly the tasks that are in the state for it, the tasks know their positions, tasks that can run have
  scheduling parameters, and the run queue is a heap.
\<close>

section \<open>The invariant\<close>

definition in_st :: "EdfScheduler \<Rightarrow> gtid \<Rightarrow> RunState \<Rightarrow> bool" where
  "in_st s g st \<longleftrightarrow> (\<exists>t. task_map s g = Some t \<and> run_state t = st)"

definition active :: "EdfTask \<Rightarrow> bool" where
  "active t \<longleftrightarrow> run_state t \<in> {kQueued, kOnCpu, kYielding}"

text \<open>
  What holds of a single task.  An active task has work, unless it is in \<open>W\<close>: those are the tasks whose
  parameters are being updated.
\<close>

definition task_ok :: "EdfScheduler \<Rightarrow> gtid set \<Rightarrow> gtid \<Rightarrow> EdfTask \<Rightarrow> bool" where
  "task_ok s W g t \<longleftrightarrow> (run_state t = kOnCpu \<longrightarrow> task_cpu t \<in> int ` set (cpu_ids (cpus s)))
     \<and> (active t \<longrightarrow> has_work t \<or> g \<in> W) \<and> (active t \<or> has_work t \<longrightarrow> sp t \<noteq> None)
     \<and> (\<forall>p i. sp t = Some (Cached p i) \<longrightarrow> g \<noteq> 0
          \<and> (\<exists>orch. orchs s p = Some orch \<and> i < length (cachedsids orch) \<and> sp_gpid (cachedsids orch ! i) = g))
     \<and> 0 < estimated_runtime t"

text \<open>\<open>F\<close> are the tasks that have been taken out of the run queue for a CPU and keep the state.\<close>

definition edf_core :: "gtid set \<Rightarrow> gtid set \<Rightarrow> EdfScheduler \<Rightarrow> bool" where
  "edf_core F W s \<longleftrightarrow> map_ok (cpus s) \<and> in_topology (cpus s) \<and> rq_linked s
     \<and> (\<forall>g. g \<in> set (run_queue s) \<longleftrightarrow> in_st s g kQueued \<and> g \<notin> F) \<and> (\<forall>g \<in> F. in_st s g kQueued)
     \<and> (\<forall>g t. task_map s g = Some t \<longrightarrow> g \<notin> set (run_queue s) \<longrightarrow> rq_pos t = -1)
     \<and> distinct (yielding_tasks s) \<and> (\<forall>g. g \<in> set (yielding_tasks s) \<longleftrightarrow> in_st s g kYielding)
     \<and> (\<forall>c g. current (cpu_states s c) = Some g \<longleftrightarrow> (\<exists>t. task_map s g = Some t \<and> run_state t = kOnCpu \<and> task_cpu t = c))
     \<and> (\<forall>g t. task_map s g = Some t \<longrightarrow> task_ok s W g t)"

definition ordered :: "EdfScheduler \<Rightarrow> bool" where
  "ordered s \<longleftrightarrow> heap (edf_gt s) (run_queue s)"

definition ordered_but :: "gtid \<Rightarrow> EdfScheduler \<Rightarrow> bool" where
  "ordered_but g s \<longleftrightarrow> (if g \<in> set (run_queue s) then heap_but (edf_gt s) (pos_of (run_queue s) g) (run_queue s) else ordered s)"

lemma coreD:
  assumes "edf_core F W s"
  shows "map_ok (cpus s)" "in_topology (cpus s)" "rq_linked s" "g \<in> set (run_queue s) \<longleftrightarrow> in_st s g kQueued \<and> g \<notin> F"
    "g \<in> F \<Longrightarrow> in_st s g kQueued" "task_map s g = Some t \<Longrightarrow> g \<notin> set (run_queue s) \<Longrightarrow> rq_pos t = -1" "distinct (yielding_tasks s)"
    "g \<in> set (yielding_tasks s) \<longleftrightarrow> in_st s g kYielding"
    "current (cpu_states s c) = Some g \<longleftrightarrow> (\<exists>t. task_map s g = Some t \<and> run_state t = kOnCpu \<and> task_cpu t = c)"
    "task_map s g = Some t \<Longrightarrow> task_ok s W g t"
  using assms unfolding edf_core_def by blast+

lemma coreI:
  assumes "map_ok (cpus s)" and "in_topology (cpus s)" and "rq_linked s" and "\<And>g. g \<in> set (run_queue s) \<longleftrightarrow> in_st s g kQueued \<and> g \<notin> F"
    and "\<And>g. g \<in> F \<Longrightarrow> in_st s g kQueued" and "\<And>g t. task_map s g = Some t \<Longrightarrow> g \<notin> set (run_queue s) \<Longrightarrow> rq_pos t = -1"
    and "distinct (yielding_tasks s)" and "\<And>g. g \<in> set (yielding_tasks s) \<longleftrightarrow> in_st s g kYielding"
    and "\<And>c g. current (cpu_states s c) = Some g \<longleftrightarrow> (\<exists>t. task_map s g = Some t \<and> run_state t = kOnCpu \<and> task_cpu t = c)"
    and "\<And>g t. task_map s g = Some t \<Longrightarrow> task_ok s W g t"
  shows "edf_core F W s"
  using assms unfolding edf_core_def by blast

lemma task_ok_cong: "cpus s' = cpus s \<Longrightarrow> orchs s' = orchs s \<Longrightarrow> task_ok s' W g t = task_ok s W g t"
  by (simp add: task_ok_def)

lemma task_ok_pos [simp]: "task_ok s W g (t\<lparr>rq_pos := i\<rparr>) = task_ok s W g t"
  by (simp add: task_ok_def active_def)

lemma task_ok_mono: "task_ok s W g t \<Longrightarrow> g \<notin> W \<or> g \<in> W' \<Longrightarrow> task_ok s W' g t"
  by (auto simp: task_ok_def)

lemma core_keyed: "edf_core F W s \<Longrightarrow> task_map s g = Some t \<Longrightarrow> active t \<Longrightarrow> keyed s g"
proof -
  assume c: "edf_core F W s" and t: "task_map s g = Some t" "active t"
  have ok: "task_ok s W g t" using coreD(10) [OF c t(1)] .
  then obtain p where p: "sp t = Some p" using t(2) by (auto simp: task_ok_def)
  have "\<exists>v. sp_value s p = Some v"
  proof (cases p)
    case (Cached pid i)
    then show ?thesis using ok p by (fastforce simp: task_ok_def sp_value_def)
  qed (simp add: sp_value_def)
  then show ?thesis using t(1) p by (auto simp: keyed_def GetQoS_def)
qed

lemma rq_keyed: "edf_core F W s \<Longrightarrow> g \<in> set (run_queue s) \<Longrightarrow> keyed s g"
  using core_keyed coreD(4) by (fastforce simp: in_st_def active_def)

text \<open>One task changes, together with the lists and CPUs it is in, and the run queue is linked anew.\<close>

lemma core_task:
  assumes core: "edf_core F W s" and env: "cpus s1 = cpus s" "orchs s1 = orchs s"
    and map: "task_map s1 = (task_map s)(g \<mapsto> t')" and ok: "task_ok s W' g t'" and W: "W - {g} \<subseteq> W'"
    and xs: "distinct xs" "set xs = (set (run_queue s) - {g}) \<union> (if run_state t' = kQueued \<and> g \<notin> F' then {g} else {})"
    and F: "F' - {g} = F - {g}" "g \<in> F' \<Longrightarrow> run_state t' = kQueued" and pos: "g \<notin> set xs \<Longrightarrow> rq_pos t' = -1"
    and y: "distinct (yielding_tasks s1)" "set (yielding_tasks s1) = (set (yielding_tasks s) - {g}) \<union> (if run_state t' = kYielding then {g} else {})"
    and cur: "\<And>c h. h \<noteq> g \<Longrightarrow> current (cpu_states s1 c) = Some h \<longleftrightarrow> current (cpu_states s c) = Some h"
      "\<And>c. current (cpu_states s1 c) = Some g \<longleftrightarrow> run_state t' = kOnCpu \<and> task_cpu t' = c"
  shows "edf_core F' W' (with_rq xs s1)"
proof (rule coreI)
  note c = coreD [OF core]
  let ?s = "with_rq xs s1"
  have tm: "relink xs (task_map s1) h = (if h \<in> set xs then map_option (rq_pos_update (\<lambda>_. int (pos_of xs h))) (if h = g then Some t' else task_map s h)
      else if h = g then Some t' else task_map s h)" for h by (simp add: relink_def map)
  have st: "in_st ?s h r \<longleftrightarrow> (if h = g then run_state t' = r else in_st s h r)" for h r by (auto simp: in_st_def tm)
  show "map_ok (cpus ?s)" "in_topology (cpus ?s)" using c(1, 2) env by simp_all
  show "distinct (yielding_tasks ?s)" using y(1) by simp
  show "h \<in> set (run_queue ?s) \<longleftrightarrow> in_st ?s h kQueued \<and> h \<notin> F'" for h
    using xs(2) c(4) [of h] F(1) by (cases "h = g") (auto simp: st)
  show "in_st ?s h kQueued" if "h \<in> F'" for h using that F c(5) [of h] by (cases "h = g") (auto simp: st)
  show "h \<in> set (yielding_tasks ?s) \<longleftrightarrow> in_st ?s h kYielding" for h
    using y(2) c(8) [of h] by (cases "h = g") (auto simp: st)
  have known: "\<exists>t. task_map ?s h = Some t \<and> rq_pos t = int (pos_of xs h)" if "h \<in> set xs" for h
  proof (cases "h = g")
    case False
    then have "in_st s h kQueued" using that xs(2) c(4) [of h] by (auto split: if_splits)
    then show ?thesis using that False by (auto simp: tm in_st_def)
  qed (use that in \<open>simp add: tm\<close>)
  then show "rq_linked ?s" using xs(1) by (simp add: rq_linked_def)
  show "rq_pos t = -1" if "task_map ?s h = Some t" "h \<notin> set (run_queue ?s)" for h t
  proof (cases "h = g")
    case True
    then show ?thesis using that pos by (simp add: tm)
  next
    case False
    then have "h \<notin> set (run_queue s)" using that(2) xs(2) by auto
    then show ?thesis using c(6) [of h t] that False by (simp add: tm)
  qed
  show "current (cpu_states ?s d) = Some h \<longleftrightarrow> (\<exists>t. task_map ?s h = Some t \<and> run_state t = kOnCpu \<and> task_cpu t = d)" for d h
    using cur(1) [of h d] cur(2) [of d] c(9) [of d h] by (cases "h = g") (auto simp: tm)
  show "task_ok ?s W' h t" if mp: "task_map ?s h = Some t" for h t
  proof -
    have tk: "task_ok ?s W' h u = task_ok s W' h u" for u by (rule task_ok_cong) (simp_all add: env)
    show ?thesis
    proof (cases "h = g")
      case True
      then show ?thesis using that ok tk by (auto simp: tm split: if_splits)
    next
      case False
      then obtain u where u: "task_map s h = Some u" "t = u \<or> t = u\<lparr>rq_pos := int (pos_of xs h)\<rparr>" using mp by (auto simp: tm split: if_splits)
      have "task_ok s W' h u" using task_ok_mono [OF c(10) [OF u(1)], of W'] W False by auto
      then show ?thesis using u(2) tk by auto
    qed
  qed
qed

text \<open>The same when the run queue does not change.\<close>

lemma core_task_same:
  assumes core: "edf_core F W s" and env: "cpus s1 = cpus s" "orchs s1 = orchs s" "run_queue s1 = run_queue s"
    and map: "task_map s1 = (task_map s)(g \<mapsto> t')" and ok: "task_ok s W' g t'" and W: "W - {g} \<subseteq> W'"
    and q: "g \<in> set (run_queue s) \<Longrightarrow> run_state t' = kQueued \<and> g \<notin> F' \<and> (\<exists>t. task_map s g = Some t \<and> rq_pos t' = rq_pos t)"
      "g \<notin> set (run_queue s) \<Longrightarrow> (run_state t' = kQueued \<longrightarrow> g \<in> F') \<and> rq_pos t' = -1"
    and F: "F' - {g} = F - {g}" "g \<in> F' \<Longrightarrow> run_state t' = kQueued"
    and y: "distinct (yielding_tasks s1)" "set (yielding_tasks s1) = (set (yielding_tasks s) - {g}) \<union> (if run_state t' = kYielding then {g} else {})"
    and cur: "\<And>c h. h \<noteq> g \<Longrightarrow> current (cpu_states s1 c) = Some h \<longleftrightarrow> current (cpu_states s c) = Some h"
      "\<And>c. current (cpu_states s1 c) = Some g \<longleftrightarrow> run_state t' = kOnCpu \<and> task_cpu t' = c"
  shows "edf_core F' W' s1"
proof -
  have l: "rq_linked s" using coreD(3) [OF core] .
  have "rq_linked s1" using l q(1) unfolding rq_linked_def env(3) map by (auto split: if_splits)
  then have "with_rq (run_queue s1) s1 = s1" by (rule with_rq_same)
  moreover have "edf_core F' W' (with_rq (run_queue s1) s1)"
    by (rule core_task [OF core env(1, 2) map ok W _ _ F _ y cur]) (use l q env(3) linkedD(1) [OF l] in \<open>auto split: if_splits\<close>)
  ultimately show ?thesis by simp
qed

end
