(* ===== verification/Edf_Ops.thy ===== *)
theory Edf_Ops
  imports Edf_Inv
begin

text \<open>
  The operations of the EDF scheduler on the run queue and the list of yielding tasks: what they compute
  in the states of the invariant, and that they keep it.
\<close>

section \<open>Taking a task out of the run queue\<close>

lemma heap_but_out:
  assumes "heap_but gt i xs" and "i < length xs" and "ys = butlast (swap_at i (length xs - 1) xs)"
  shows "if i = length xs - 1 then heap gt ys else heap_but gt i ys"
proof (cases "i = length xs - 1")
  case True
  then have "swap_at i (length xs - 1) xs = xs" by (simp add: swap_at_def)
  then show ?thesis using assms(1, 3) True by (auto intro: heap_but_last)
next
  case False
  then show ?thesis using heap_but_remove [OF assms(1)] assms(2, 3) by simp
qed

text \<open>Taking out the last element, after the exchange.\<close>

lemma take_out:
  assumes "rq_linked s" and "\<forall>h \<in> set (run_queue s). keyed s h" and "i < length (run_queue s)" and "run_queue s ! i = g"
    and "task_map s g = Some t" and "ys = swap_at i (length (run_queue s) - 1) (run_queue s)"
    and "s2 = (with_rq ys s)\<lparr>task_map := (relink ys (task_map s))(g \<mapsto> t\<lparr>rq_pos := -1\<rparr>), run_queue := butlast ys\<rparr>"
  shows "last ys = g" "rq_linked s2" "edf_gt s2 = edf_gt s" "mset (run_queue s) = add_mset g (mset (butlast ys))"
    "mset xs = mset (butlast ys) \<Longrightarrow> with_rq xs s2 = with_rq xs (s\<lparr>task_map := (task_map s)(g \<mapsto> t\<lparr>rq_pos := -1\<rparr>)\<rparr>)"
    "\<And>h. h \<in> set (butlast ys) \<Longrightarrow> keyed s2 h" "relink ys (task_map s) g = Some (t\<lparr>rq_pos := int (length ys) - 1\<rparr>)"
proof -
  let ?n = "length (run_queue s)"
  note d = linkedD(1) [OF assms(1)]
  have ne: "run_queue s \<noteq> []" "ys \<noteq> []" "length ys = ?n"
    using assms(3, 6) swap_at_simps(1) [of i "?n - 1" "run_queue s"] by (auto simp: length_greater_0_conv [symmetric] simp del: length_greater_0_conv)
  have ms: "mset ys = mset (run_queue s)" using assms(3, 6) by simp
  have dy: "distinct ys" "set ys = set (run_queue s)" using d mset_eq_imp_distinct_iff [OF ms] mset_eq_setD [OF ms] by auto
  show last: "last ys = g" using ne assms(3, 4, 6) by (simp add: last_conv_nth nth_swap_at)
  then obtain zs where split: "ys = zs @ [g]" using ne by (metis append_butlast_last_id)
  then have bl: "butlast ys = zs" by simp
  show m: "mset (run_queue s) = add_mset g (mset (butlast ys))" using ms split by simp
  have g: "g \<notin> set (butlast ys)" "distinct (butlast ys)" "set ys = insert g (set (butlast ys))" using dy(1) split by auto
  have pos: "pos_of ys h = pos_of (butlast ys) h" if "h \<in> set (butlast ys)" for h using pos_of_append(1) [OF that, of "[g]"] split by simp
  have pg: "pos_of ys g = length ys - 1" using pos_of_append(2) [OF g(1)] split by simp
  show "relink ys (task_map s) g = Some (t\<lparr>rq_pos := int (length ys) - 1\<rparr>)"
    using g(3) pg assms(5) ne by (simp add: relink_def of_nat_diff Suc_leI)
  have l: "rq_linked (with_rq ys s)" by (rule linked_with_rq [OF assms(1) dy])
  show "rq_linked s2" using l g pos unfolding rq_linked_def assms(7) by auto
  have "task_map s2 = (task_map (with_rq ys s))(g \<mapsto> t\<lparr>rq_pos := -1\<rparr>)" by (simp add: assms(7))
  moreover have "task_map (with_rq ys s) g = Some (t\<lparr>rq_pos := int (length ys) - 1\<rparr>)"
    using g(3) pg assms(5) ne by (simp add: relink_def of_nat_diff Suc_leI)
  ultimately have key: "edf_gt s2 = edf_gt (with_rq ys s)" "keyed s2 = keyed (with_rq ys s)"
    using key_upd [of "with_rq ys s" g "t\<lparr>rq_pos := int (length ys) - 1\<rparr>" "t\<lparr>rq_pos := -1\<rparr>" s2] by (simp_all add: assms(7))
  then show "edf_gt s2 = edf_gt s" by simp
  show "keyed s2 h" if "h \<in> set (butlast ys)" for h using that g(3) dy(2) assms(2) by (simp add: key)
  show "with_rq xs s2 = with_rq xs (s\<lparr>task_map := (task_map s)(g \<mapsto> t\<lparr>rq_pos := -1\<rparr>)\<rparr>)" if "mset xs = mset (butlast ys)"
    using mset_eq_setD [OF that] g(1, 3) unfolding assms(7) by (auto simp: with_rq_def relink_def fun_eq_iff option.map_comp comp_def)
qed

text \<open>The rest of the run queue, after the last element has been dropped.\<close>

lemma settle_eq:
  assumes "rq_linked s" and "\<forall>h \<in> set (run_queue s). keyed s h" and "c \<Longrightarrow> i < length (run_queue s)"
  shows "\<exists>xs. (if c then UpdateRunqueuePosition i s else Some s) = Some (with_rq xs s) \<and> mset xs = mset (run_queue s)
    \<and> ((if c then heap_but (edf_gt s) i (run_queue s) else heap (edf_gt s) (run_queue s)) \<longrightarrow> heap (edf_gt s) xs)"
proof (cases c)
  case True
  note i = assms(3) [OF True]
  show ?thesis using True update_position [OF assms(1) _ i] assms(2) edf.heap_update_heap [OF i] heap_update_mset(1) [OF i] by auto
next
  case False
  then show ?thesis using with_rq_same [OF assms(1)] by (intro exI [of _ "run_queue s"]) simp
qed

lemma with_rq_upd_out:
  "g \<notin> set xs \<Longrightarrow> upd_task g f (with_rq xs (s\<lparr>task_map := (task_map s)(g \<mapsto> t)\<rparr>)) = Some (with_rq xs (s\<lparr>task_map := (task_map s)(g \<mapsto> f t)\<rparr>))"
  by (auto simp: upd_task_def with_rq_def relink_def fun_eq_iff)

lemma settled:
  assumes "rq_linked s" and "\<forall>h \<in> set (run_queue s). keyed s h" and "i < length (run_queue s)" and "run_queue s ! i = g"
    and "task_map s g = Some t" and "ys = swap_at i (length (run_queue s) - 1) (run_queue s)"
    and "s2 = (with_rq ys s)\<lparr>task_map := (relink ys (task_map s))(g \<mapsto> t\<lparr>rq_pos := -1\<rparr>), run_queue := butlast ys\<rparr>"
  shows "\<exists>xs. (if i \<noteq> length (run_queue s) - 1 then UpdateRunqueuePosition i s2 else Some s2)
        = Some (with_rq xs (s\<lparr>task_map := (task_map s)(g \<mapsto> t\<lparr>rq_pos := -1\<rparr>)\<rparr>))
    \<and> mset (run_queue s) = add_mset g (mset xs) \<and> (heap_but (edf_gt s) i (run_queue s) \<longrightarrow> heap (edf_gt s) xs)"
proof -
  note o = take_out [OF assms]
  let ?c = "i \<noteq> length (run_queue s) - 1"
  have gt: "edf_gt s2 = edf_gt s" by (rule o(3))
  have rq: "run_queue s2 = butlast ys" "length ys = length (run_queue s)" using assms(6, 7) by simp_all
  have "\<exists>xs. (if ?c then UpdateRunqueuePosition i s2 else Some s2) = Some (with_rq xs s2) \<and> mset xs = mset (run_queue s2)
      \<and> ((if ?c then heap_but (edf_gt s2) i (run_queue s2) else heap (edf_gt s2) (run_queue s2)) \<longrightarrow> heap (edf_gt s2) xs)"
    by (rule settle_eq [OF o(2)]) (use o(6) rq assms(3) in auto)
  then obtain xs where xs: "(if ?c then UpdateRunqueuePosition i s2 else Some s2) = Some (with_rq xs s2)" "mset xs = mset (butlast ys)"
    "(if ?c then heap_but (edf_gt s) i (butlast ys) else heap (edf_gt s) (butlast ys)) \<Longrightarrow> heap (edf_gt s) xs"
    unfolding gt rq(1) by blast
  have "heap (edf_gt s) xs" if "heap_but (edf_gt s) i (run_queue s)"
    using heap_but_out [OF that assms(3), of "butlast ys"] assms(6) by (intro xs(3)) (auto split: if_splits)
  then show ?thesis using xs(1) o(5) [OF xs(2)] o(4) xs(2) by auto
qed

lemma mset_out: "mset ys = add_mset g (mset xs) \<Longrightarrow> distinct ys \<Longrightarrow> g \<notin> set xs \<and> distinct xs \<and> set ys = insert g (set xs)"
proof -
  assume a: "mset ys = add_mset g (mset xs)" "distinct ys"
  have "mset ys = mset (g # xs)" using a(1) by simp
  then have "distinct (g # xs)" "set ys = set (g # xs)" using a(2) mset_eq_imp_distinct_iff mset_eq_setD by blast+
  then show ?thesis by simp
qed

lemma remove_eq:
  assumes "rq_linked s" and "\<forall>h \<in> set (run_queue s). keyed s h" and "g \<in> set (run_queue s)"
    and "task_map s g = Some t" and "run_state t = kQueued"
  shows "\<exists>xs. RemoveFromRunqueue g s = Some (with_rq xs (s\<lparr>task_map := (task_map s)(g \<mapsto> t\<lparr>rq_pos := -1, run_state := kPaused\<rparr>)\<rparr>))
    \<and> mset (run_queue s) = add_mset g (mset xs) \<and> (ordered_but g s \<longrightarrow> heap (edf_gt s) xs)"
proof -
  let ?n = "length (run_queue s)"
  define i where "i = pos_of (run_queue s) g"
  have i: "i < ?n" "run_queue s ! i = g" using pos_of_mem [OF assms(3)] by (simp_all add: i_def)
  have tp: "rq_pos t = int i" using assms(1, 3, 4) unfolding rq_linked_def i_def by auto
  define ys where "ys = swap_at i (?n - 1) (run_queue s)"
  define s2 where "s2 = (with_rq ys s)\<lparr>task_map := (relink ys (task_map s))(g \<mapsto> t\<lparr>rq_pos := -1\<rparr>), run_queue := butlast ys\<rparr>"
  note o = take_out [OF assms(1, 2) i assms(4) ys_def s2_def]
  have len: "length ys = ?n" by (simp add: ys_def)
  have sw: "(if i \<noteq> ?n - 1 then rq_swap i (?n - 1) s else Some s) = Some (with_rq ys s)"
    using swap_linked [OF assms(1) i(1), of "?n - 1"] i(1) with_rq_same [OF assms(1)] by (auto simp: ys_def swap_at_def)
  obtain xs where xs: "(if i \<noteq> ?n - 1 then UpdateRunqueuePosition i s2 else Some s2)
        = Some (with_rq xs (s\<lparr>task_map := (task_map s)(g \<mapsto> t\<lparr>rq_pos := -1\<rparr>)\<rparr>))"
      "mset (run_queue s) = add_mset g (mset xs)" "heap_but (edf_gt s) i (run_queue s) \<Longrightarrow> heap (edf_gt s) xs"
    using settled [OF assms(1, 2) i assms(4) ys_def s2_def] by auto
  have gx: "g \<notin> set xs" using mset_out [OF xs(2) linkedD(1) [OF assms(1)]] by simp
  have "RemoveFromRunqueue g s = do { s \<leftarrow> (if i \<noteq> ?n - 1 then UpdateRunqueuePosition i s2 else Some s2); set_state g kPaused s }"
    using i(1) tp assms(4, 5) o(7) sw len by (simp add: RemoveFromRunqueue_def Let_def s2_def upd_task_def cong: if_cong split del: if_split)
  also have "\<dots> = Some (with_rq xs (s\<lparr>task_map := (task_map s)(g \<mapsto> t\<lparr>rq_pos := -1, run_state := kPaused\<rparr>)\<rparr>))"
    using xs(1) with_rq_upd_out [OF gx] by (simp add: set_state_def)
  finally show ?thesis using xs(2, 3) assms(3) by (auto simp: ordered_but_def i_def)
qed

lemma dequeue_eq:
  assumes "rq_linked s" and "\<forall>h \<in> set (run_queue s). keyed s h" and "run_queue s \<noteq> []" and "g = run_queue s ! 0"
    and "task_map s g = Some t" and "has_work t"
  shows "\<exists>xs. Dequeue s = Some (Some g, with_rq xs (s\<lparr>task_map := (task_map s)(g \<mapsto> t\<lparr>rq_pos := -1\<rparr>)\<rparr>))
    \<and> mset (run_queue s) = add_mset g (mset xs) \<and> (ordered s \<longrightarrow> heap (edf_gt s) xs)"
proof -
  let ?n = "length (run_queue s)"
  have i: "0 < ?n" "run_queue s ! 0 = g" using assms(3, 4) by simp_all
  define ys where "ys = swap_at 0 (?n - 1) (run_queue s)"
  define s2 where "s2 = (with_rq ys s)\<lparr>task_map := (relink ys (task_map s))(g \<mapsto> t\<lparr>rq_pos := -1\<rparr>), run_queue := butlast ys\<rparr>"
  note o = take_out [OF assms(1, 2) i assms(5) ys_def s2_def]
  have sw: "rq_swap 0 (?n - 1) s = Some (with_rq ys s)" using swap_linked [OF assms(1) i(1), of "?n - 1"] i(1) by (simp add: ys_def)
  obtain xs where xs: "(if 0 \<noteq> ?n - 1 then UpdateRunqueuePosition 0 s2 else Some s2)
        = Some (with_rq xs (s\<lparr>task_map := (task_map s)(g \<mapsto> t\<lparr>rq_pos := -1\<rparr>)\<rparr>))"
      "mset (run_queue s) = add_mset g (mset xs)" "heap_but (edf_gt s) 0 (run_queue s) \<Longrightarrow> heap (edf_gt s) xs"
    using settled [OF assms(1, 2) i assms(5) ys_def s2_def] by auto
  have e: "run_queue s2 \<noteq> [] \<longleftrightarrow> 0 \<noteq> ?n - 1"
    using i(1) by (simp add: s2_def ys_def length_greater_0_conv [symmetric] not_le del: length_greater_0_conv)
  have "Dequeue s = do { s \<leftarrow> (if run_queue s2 \<noteq> [] then UpdateRunqueuePosition 0 s2 else Some s2); Some (Some g, s) }"
    using i assms(3, 6) o(1, 7) sw by (simp add: Dequeue_def Let_def s2_def upd_task_def cong: if_cong split del: if_split)
  then show ?thesis using xs edf.heap_is_but [of s "run_queue s" 0] i(1) unfolding e by (auto simp: ordered_def)
qed

lemma update_eq:
  assumes "rq_linked s" and "\<forall>h \<in> set (run_queue s). keyed s h" and "g \<in> set (run_queue s)"
    and "task_map s g = Some t" and "run_state t = kQueued"
  shows "\<exists>xs. UpdateRunqueue g s = Some (with_rq xs s) \<and> mset xs = mset (run_queue s) \<and> (ordered_but g s \<longrightarrow> heap (edf_gt s) xs)"
proof -
  define i where "i = pos_of (run_queue s) g"
  have i: "i < length (run_queue s)" using pos_of_mem [OF assms(3)] by (simp add: i_def)
  have tp: "rq_pos t = int i" using assms(1, 3, 4) unfolding rq_linked_def i_def by auto
  have "UpdateRunqueue g s = Some (with_rq (heap_update (edf_gt s) i (run_queue s)) s)"
    using update_position [OF assms(1) _ i] assms(2, 4, 5) tp i by (simp add: UpdateRunqueue_def)
  then show ?thesis using edf.heap_update_heap [OF i] heap_update_mset(1) [OF i] assms(3) by (auto simp: ordered_but_def i_def)
qed

section \<open>The invariant with its order\<close>

text \<open>
  \<open>b\<close> says whether the order is part of the invariant, \<open>X\<close> is the task whose parameters are being
  updated: it may be in the wrong place of the run queue.
\<close>

definition good :: "bool \<Rightarrow> gtid set \<Rightarrow> gtid option \<Rightarrow> EdfScheduler \<Rightarrow> bool" where
  "good b F X s \<longleftrightarrow> edf_core F (set_option X) s \<and> (b \<longrightarrow> (case X of None \<Rightarrow> ordered s | Some g \<Rightarrow> ordered_but g s))"

lemma goodI: "edf_core F (set_option X) s \<Longrightarrow> (b \<Longrightarrow> X = None \<Longrightarrow> ordered s) \<Longrightarrow> (\<And>g. b \<Longrightarrow> X = Some g \<Longrightarrow> ordered_but g s) \<Longrightarrow> good b F X s"
  by (simp add: good_def split: option.split)

lemma good_ordered: "good b F None s \<Longrightarrow> b \<Longrightarrow> ordered s" "good b F (Some g) s \<Longrightarrow> b \<Longrightarrow> ordered_but g s"
  by (simp_all add: good_def)

definition park :: "gtid \<Rightarrow> EdfScheduler \<Rightarrow> EdfScheduler" where
  "park g s = s\<lparr>task_map := (task_map s)(g \<mapsto> (the (task_map s g))\<lparr>run_state := kPaused\<rparr>)\<rparr>"

lemma goodD: "good b F X s \<Longrightarrow> edf_core F (set_option X) s"
  by (simp add: good_def)

lemma good_weaken: "good b F None s \<Longrightarrow> good b F (Some g) s"
proof -
  assume g: "good b F None s"
  have "edf_core F {g} s" using goodD [OF g] task_ok_mono [of s "{}" _ _ "{g}"] unfolding edf_core_def by simp
  moreover have "ordered_but g s" if "ordered s"
    using that edf.heap_is_but [of s "run_queue s"] pos_of_mem [of g "run_queue s"] by (simp add: ordered_but_def ordered_def)
  ultimately show ?thesis using g by (simp add: good_def)
qed

lemma good_any: "good b F X s \<Longrightarrow> X = None \<or> X = Some g \<Longrightarrow> good b F (Some g) s"
  using good_weaken by blast

lemma core_drop: "edf_core F {g} s \<Longrightarrow> (\<And>t. task_map s g = Some t \<Longrightarrow> active t \<Longrightarrow> has_work t) \<Longrightarrow> edf_core F {} s"
proof -
  assume c: "edf_core F {g} s" and w: "\<And>t. task_map s g = Some t \<Longrightarrow> active t \<Longrightarrow> has_work t"
  have "task_ok s {} h t" if "task_map s h = Some t" for h t
    using coreD(10) [OF c that] w [of t] that unfolding task_ok_def by auto
  then show ?thesis using c unfolding edf_core_def by simp
qed

text \<open>The invariant reads the part of the state below.\<close>

lemma core_cong:
  assumes "task_map s' = task_map s" and "run_queue s' = run_queue s" and "yielding_tasks s' = yielding_tasks s"
    and "cpus s' = cpus s" and "orchs s' = orchs s" and "\<And>c. current (cpu_states s' c) = current (cpu_states s c)"
  shows "edf_core F W s' = edf_core F W s"
  unfolding edf_core_def in_st_def rq_linked_def using assms task_ok_cong [OF assms(4, 5)] by simp

lemma gt_cong: "task_map s' = task_map s \<Longrightarrow> orchs s' = orchs s \<Longrightarrow> edf_gt s' = edf_gt s"
  by (rule key_cong) auto

lemma good_cong:
  assumes "task_map s' = task_map s" and "run_queue s' = run_queue s" and "yielding_tasks s' = yielding_tasks s"
    and "cpus s' = cpus s" and "orchs s' = orchs s" and "\<And>c. current (cpu_states s' c) = current (cpu_states s c)"
  shows "good b F X s' = good b F X s"
  unfolding good_def ordered_def ordered_but_def core_cong [OF assms] gt_cong [OF assms(1, 5)] assms(2) ..

lemma good_fields [simp]:
  "good b F X (s\<lparr>txns := a\<rparr>) = good b F X s" "good b F X (s\<lparr>made_runnable := r\<rparr>) = good b F X s"
  "good b F X (s\<lparr>num_tasks := n\<rparr>) = good b F X s" "good b F X (s\<lparr>in_discovery := d\<rparr>) = good b F X s"
  "good b F X (s\<lparr>global_cpu := c, pings := ps\<rparr>) = good b F X s"
  "good b F X (upd_ecpu c (next_task_update f) s) = good b F X s"
  by (rule good_cong; simp add: upd_ecpu_def)+

section \<open>Moving one task\<close>

text \<open>The order is kept when the keys of the queued tasks are, except for the one that may be in the wrong place.\<close>

lemma heap_cong:
  "(\<And>a b. a \<in> set xs \<Longrightarrow> b \<in> set xs \<Longrightarrow> gt' a b = gt a b) \<Longrightarrow> heap gt' xs = heap gt xs"
  using parent_less by (auto simp: heap_def) (metis less_trans nth_mem)+

lemma heap_but_cong:
  assumes "\<And>a b. a \<in> set xs \<Longrightarrow> b \<in> set xs \<Longrightarrow> a \<noteq> xs ! p \<Longrightarrow> b \<noteq> xs ! p \<Longrightarrow> gt' a b = gt a b"
    and "distinct xs" and "p < length xs" and "heap_but gt p xs"
  shows "heap_but gt' p xs"
proof (rule heap_butI)
  have ne: "xs ! j \<noteq> xs ! p" "xs ! j \<in> set xs" if "j < length xs" "j \<noteq> p" for j using that assms(2, 3) by (simp_all add: nth_eq_iff_index_eq)
  fix i assume i: "i < length xs" "0 < i" "i \<noteq> p"
  { assume q: "parent i \<noteq> p"
    then show "\<not> gt' (xs ! parent i) (xs ! i)"
      using heap_butD(1) [OF assms(4) i q] assms(1) [of "xs ! parent i" "xs ! i"] ne [of i] ne [of "parent i"] i parent_less [OF i(2)] by simp }
  { assume q: "parent i = p" "0 < p"
    then show "\<not> gt' (xs ! parent p) (xs ! i)"
      using heap_butD(2) [OF assms(4) i q] assms(1) [of "xs ! parent p" "xs ! i"] ne [of i] ne [of "parent p"] i parent_less [OF q(2)] assms(3) by simp }
qed

lemma good_order:
  assumes "good b F X s" and "edf_core F' (set_option X) s1" and "run_queue s1 = run_queue s"
    and key: "\<And>h. h \<in> set (run_queue s) \<Longrightarrow> X \<noteq> Some h \<Longrightarrow> edf_key s1 h = edf_key s h"
  shows "good b F' X s1"
proof (rule goodI [OF assms(2)])
  have gt: "edf_gt s1 a c = edf_gt s a c" if "a \<in> set (run_queue s)" "c \<in> set (run_queue s)" "X \<noteq> Some a" "X \<noteq> Some c" for a c
    using that by (simp add: edf_gt_def key)
  have d: "distinct (run_queue s)" using linkedD(1) [OF coreD(3) [OF goodD [OF assms(1)]]] .
  show "ordered s1" if b "X = None"
    using good_ordered(1) [of b F s] assms(1) that gt heap_cong [of "run_queue s" "edf_gt s1" "edf_gt s"] by (simp add: ordered_def assms(3))
  show "ordered_but g s1" if *: b "X = Some g" for g
  proof (cases "g \<in> set (run_queue s)")
    case True
    note p = pos_of_mem [OF True]
    have hb: "heap_but (edf_gt s) (pos_of (run_queue s) g) (run_queue s)" using good_ordered(2) [of b F g s] assms(1) * True by (simp add: ordered_but_def)
    have "heap_but (edf_gt s1) (pos_of (run_queue s) g) (run_queue s)"
      by (rule heap_but_cong [OF _ d _ hb]) (use p gt *(2) in auto)
    then show ?thesis using True by (simp add: ordered_but_def assms(3))
  next
    case False
    then have "heap (edf_gt s) (run_queue s)" using good_ordered(2) [of b F g s] assms(1) * by (simp add: ordered_but_def ordered_def)
    moreover have "X \<noteq> Some a" if "a \<in> set (run_queue s)" for a using that False *(2) by auto
    ultimately show ?thesis using False gt heap_cong [of "run_queue s" "edf_gt s1" "edf_gt s"] by (simp add: ordered_but_def ordered_def assms(3))
  qed
qed

lemma key_other: "orchs s1 = orchs s \<Longrightarrow> task_map s1 h = task_map s h \<Longrightarrow> edf_key s1 h = edf_key s h"
  using GetQoS_cong [of s1 s] by (simp add: edf_key_def cong: option.case_cong)

lemma good_task:
  assumes good: "good b F X s" and env: "cpus s1 = cpus s" "orchs s1 = orchs s" "run_queue s1 = run_queue s"
    and map: "task_map s1 = (task_map s)(g \<mapsto> t')" and ok: "task_ok s (set_option X) g t'"
    and q: "g \<in> set (run_queue s) \<Longrightarrow> run_state t' = kQueued \<and> g \<notin> F' \<and> (\<exists>t. task_map s g = Some t \<and> rq_pos t' = rq_pos t)"
      "g \<notin> set (run_queue s) \<Longrightarrow> (run_state t' = kQueued \<longrightarrow> g \<in> F') \<and> rq_pos t' = -1"
    and F: "F' - {g} = F - {g}" "g \<in> F' \<Longrightarrow> run_state t' = kQueued"
    and y: "distinct (yielding_tasks s1)" "set (yielding_tasks s1) = (set (yielding_tasks s) - {g}) \<union> (if run_state t' = kYielding then {g} else {})"
    and cur: "\<And>c h. h \<noteq> g \<Longrightarrow> current (cpu_states s1 c) = Some h \<longleftrightarrow> current (cpu_states s c) = Some h"
      "\<And>c. current (cpu_states s1 c) = Some g \<longleftrightarrow> run_state t' = kOnCpu \<and> task_cpu t' = c"
    and key: "g \<in> set (run_queue s) \<Longrightarrow> X = Some g \<or> edf_key s1 g = edf_key s g"
  shows "good b F' X s1"
proof (rule good_order [OF good _ env(3)])
  show "edf_core F' (set_option X) s1" by (rule core_task_same [OF goodD [OF good] env map ok _ q F y cur]) auto
  show "edf_key s1 h = edf_key s h" if "h \<in> set (run_queue s)" "X \<noteq> Some h" for h
    using that key key_other [OF env(2), of h] map by (cases "h = g") auto
qed

end
