(* ===== verification/Edf_Keep.thy ===== *)
theory Edf_Keep
  imports Edf_Ops
begin

text \<open>
  Every operation of the EDF scheduler keeps the invariant: a task that moves is first seen outside of
  the run queue, the CPUs and the yielding tasks, and then in its new place.
\<close>

section \<open>Leaving and entering a place\<close>

definition idle :: "EdfTask \<Rightarrow> bool" where
  "idle t \<longleftrightarrow> run_state t = kBlocked \<or> run_state t = kPaused"

lemma idle_simps [simp]: "idle (t\<lparr>run_state := kPaused\<rparr>)" "idle (t\<lparr>run_state := kBlocked\<rparr>)"
  by (simp_all add: idle_def)

lemma place:
  assumes "good b F X s" and "task_map s g = Some t"
  shows "g \<in> set (run_queue s) \<longleftrightarrow> run_state t = kQueued \<and> g \<notin> F" "g \<in> F \<Longrightarrow> run_state t = kQueued"
    "g \<notin> set (run_queue s) \<Longrightarrow> rq_pos t = -1" "g \<in> set (yielding_tasks s) \<longleftrightarrow> run_state t = kYielding"
    "current (cpu_states s c) = Some g \<longleftrightarrow> run_state t = kOnCpu \<and> task_cpu t = c" "task_ok s (set_option X) g t"
    "distinct (yielding_tasks s)"
proof -
  note c = coreD [OF goodD [OF assms(1)]]
  show "g \<in> set (run_queue s) \<longleftrightarrow> run_state t = kQueued \<and> g \<notin> F" using c(4) [of g] assms(2) by (simp add: in_st_def)
  show "g \<in> F \<Longrightarrow> run_state t = kQueued" using c(5) [of g] assms(2) by (simp add: in_st_def)
  show "g \<notin> set (run_queue s) \<Longrightarrow> rq_pos t = -1" by (rule c(6) [OF assms(2)])
  show "g \<in> set (yielding_tasks s) \<longleftrightarrow> run_state t = kYielding" using c(8) [of g] assms(2) by (simp add: in_st_def)
  show "current (cpu_states s c) = Some g \<longleftrightarrow> run_state t = kOnCpu \<and> task_cpu t = c" for c using c(9) [of c g] assms(2) by simp
  show "task_ok s (set_option X) g t" by (rule c(10) [OF assms(2)])
qed (rule coreD(7) [OF goodD [OF assms(1)]])

lemma idleD:
  assumes "good b F X s" and "task_map s g = Some t" and "idle t"
  shows "g \<notin> set (run_queue s)" "g \<notin> F" "g \<notin> set (yielding_tasks s)" "current (cpu_states s c) \<noteq> Some g" "rq_pos t = -1"
    "distinct (yielding_tasks s)"
  using place [OF assms(1, 2)] assms(3) by (auto simp: idle_def)

lemma good_idle:
  assumes "good b F X s" and "task_map s g = Some t" and "idle t" and "idle t'" and "rq_pos t' = rq_pos t"
    and "task_ok s (set_option X) g t'"
  shows "good b F X (s\<lparr>task_map := (task_map s)(g \<mapsto> t')\<rparr>)"
  by (rule good_task [OF assms(1), where g = g and t' = t'])
    (use assms(3-6) place [OF assms(1, 2)] in \<open>auto simp: idle_def\<close>)

lemma good_same:
  assumes "good b F X s" and "task_map s g = Some t" and "run_state t' = run_state t" and "task_cpu t' = task_cpu t"
    and "rq_pos t' = rq_pos t" and "task_ok s (set_option X) g t'"
    and key: "run_state t = kQueued \<Longrightarrow> g \<in> F \<or> X = Some g \<or> prio_boost t' = prio_boost t \<and> sp t' = sp t \<and> sched_deadline t' = sched_deadline t"
  shows "good b F X (s\<lparr>task_map := (task_map s)(g \<mapsto> t')\<rparr>)"
proof (rule good_task [OF assms(1), where g = g and t' = t'])
  note p = place [OF assms(1, 2)]
  let ?s = "s\<lparr>task_map := (task_map s)(g \<mapsto> t')\<rparr>"
  show "X = Some g \<or> edf_key ?s g = edf_key s g" if "g \<in> set (run_queue s)"
    using key p(1) that key_upd(1) [OF assms(2), of t' ?s] by auto
qed (use assms(2-6) place [OF assms(1, 2)] in auto)

lemma leave_cpu:
  assumes "good b F X s" and "task_map s g = Some t" and "run_state t = kOnCpu" and "idle t'" and "rq_pos t' = rq_pos t"
    and "task_ok s (set_option X) g t'" and "c = task_cpu t"
  shows "good b F X ((upd_ecpu c (current_update (\<lambda>_. None)) s)\<lparr>task_map := (task_map s)(g \<mapsto> t')\<rparr>)"
proof (rule good_task [OF assms(1), where g = g and t' = t'])
  note p = place [OF assms(1, 2)]
  let ?s = "(upd_ecpu c (current_update (\<lambda>_. None)) s)\<lparr>task_map := (task_map s)(g \<mapsto> t')\<rparr>"
  have "current (cpu_states s c) = Some g" using p(5) assms(3, 7) by simp
  then show "current (cpu_states ?s d) = Some h \<longleftrightarrow> current (cpu_states s d) = Some h" if "h \<noteq> g" for d h using that by (simp add: upd_ecpu_def)
  show "current (cpu_states ?s d) = Some g \<longleftrightarrow> run_state t' = kOnCpu \<and> task_cpu t' = d" for d
    using p(5) [of d] assms(3, 4, 7) by (auto simp: upd_ecpu_def idle_def)
qed (use assms(3-7) place(1-4, 6, 7) [OF assms(1, 2)] in \<open>auto simp: idle_def upd_ecpu_def\<close>)

lemma leave_yielding:
  assumes "good b F X s" and "task_map s g = Some t" and "run_state t = kYielding" and "idle t'" and "rq_pos t' = rq_pos t"
    and "task_ok s (set_option X) g t'"
  shows "good b F X (s\<lparr>task_map := (task_map s)(g \<mapsto> t'), yielding_tasks := remove1 g (yielding_tasks s)\<rparr>)"
  by (rule good_task [OF assms(1), where g = g and t' = t'])
    (use assms(3-6) place [OF assms(1, 2)] in \<open>auto simp: idle_def\<close>)

lemma leave_chosen:
  assumes "good b F X s" and "task_map s g = Some t" and "g \<in> F" and "idle t'" and "rq_pos t' = rq_pos t"
    and "task_ok s (set_option X) g t'"
  shows "good b (F - {g}) X (s\<lparr>task_map := (task_map s)(g \<mapsto> t')\<rparr>)"
  by (rule good_task [OF assms(1), where g = g and t' = t'])
    (use assms(3-6) place [OF assms(1, 2)] in \<open>auto simp: idle_def\<close>)

lemma enter_yielding:
  assumes "good b F X s" and "task_map s g = Some t" and "idle t" and "run_state t' = kYielding" and "rq_pos t' = rq_pos t"
    and "task_ok s (set_option X) g t'"
  shows "good b F X (s\<lparr>task_map := (task_map s)(g \<mapsto> t'), yielding_tasks := yielding_tasks s @ [g]\<rparr>)"
  by (rule good_task [OF assms(1), where g = g and t' = t'])
    (use assms(4-6) idleD [OF assms(1, 2, 3)] in \<open>simp_all\<close>)

lemma enter_cpu:
  assumes "good b F X s" and "task_map s g = Some t" and "idle t" and "current (cpu_states s c) = None"
    and "run_state t' = kOnCpu" and "task_cpu t' = c" and "rq_pos t' = rq_pos t" and "task_ok s (set_option X) g t'"
  shows "good b F X ((upd_ecpu c (current_update (\<lambda>_. Some g)) s)\<lparr>task_map := (task_map s)(g \<mapsto> t')\<rparr>)"
  by (rule good_task [OF assms(1), where g = g and t' = t'])
    (use assms(4-8) idleD [OF assms(1, 2, 3)] in \<open>auto simp: upd_ecpu_def\<close>)

lemma good_erase:
  assumes "good b F X s" and "task_map s g = Some t" and "idle t"
  shows "good b F X (s\<lparr>task_map := (task_map s)(g := None)\<rparr>)"
proof (rule good_order [OF assms(1)])
  let ?s = "s\<lparr>task_map := (task_map s)(g := None)\<rparr>"
  note c = coreD [OF goodD [OF assms(1)]] and p = place [OF assms(1, 2)]
  have q: "g \<notin> set (run_queue s)" "g \<notin> F" using p(1, 2) assms(3) by (auto simp: idle_def)
  show "edf_key ?s h = edf_key s h" if "h \<in> set (run_queue s)" for h using that q by (intro key_other) auto
  show "edf_core F (set_option X) ?s"
  proof (rule coreI)
    show "rq_linked ?s" using c(3) q(1) by (auto simp: rq_linked_def)
    show "task_ok ?s (set_option X) h u" if "task_map ?s h = Some u" for h u
      using that c(10) [of h u] task_ok_cong [of ?s s] by (simp split: if_splits)
  qed (use c p q assms(3) in \<open>auto simp: in_st_def idle_def split: if_splits\<close>)
qed simp

section \<open>The run queue\<close>

lemma enqueue_state: "task_map s g = Some t \<Longrightarrow> Enqueue g s = Enqueue g (s\<lparr>task_map := (task_map s)(g \<mapsto> t\<lparr>run_state := r\<rparr>)\<rparr>)"
  by (simp add: Enqueue_def set_state_def upd_task_def)

lemma enqueue_good:
  assumes "task_map s g = Some t" and "good b F X (s\<lparr>task_map := (task_map s)(g \<mapsto> t\<lparr>run_state := kPaused\<rparr>)\<rparr>)" and "X = None \<or> X = Some g"
  shows "\<exists>xs r. Enqueue g s = Some (with_rq xs (s\<lparr>task_map := (task_map s)(g \<mapsto> t\<lparr>run_state := r\<rparr>)\<rparr>))
    \<and> good b F None (with_rq xs (s\<lparr>task_map := (task_map s)(g \<mapsto> t\<lparr>run_state := r\<rparr>)\<rparr>))"
proof -
  let ?tp = "t\<lparr>run_state := kPaused\<rparr>" and ?tq = "t\<lparr>run_state := kQueued\<rparr>"
  define s0 where "s0 = s\<lparr>task_map := (task_map s)(g \<mapsto> ?tp)\<rparr>"
  have g0: "good b F (Some g) s0" using good_any [OF assms(2, 3)] by (simp add: s0_def)
  have t0: "task_map s0 g = Some ?tp" by (simp add: s0_def)
  note p = place [OF g0 t0] and c = goodD [OF g0]
  have out: "g \<notin> set (run_queue s0)" "g \<notin> F" using p(1, 2) by auto
  have e: "Enqueue g s = Enqueue g s0" unfolding s0_def by (rule enqueue_state [OF assms(1)])
  have l: "rq_linked s0" and kd: "\<And>h. h \<in> set (run_queue s0) \<Longrightarrow> keyed s0 h" using coreD(3) [OF c] rq_keyed [OF c] by blast+
  have ord: "heap (edf_gt s0) (run_queue s0)" if b using good_ordered(2) [OF g0 that] out(1) by (simp add: ordered_but_def ordered_def)
  show ?thesis
  proof (cases "has_work t")
    case False
    have "edf_core F {} s0" by (rule core_drop [of F g]) (use c t0 in \<open>auto simp: active_def\<close>)
    then have "good b F None s0" using ord by (auto intro: goodI simp: ordered_def)
    moreover have "Enqueue g s = Some s0" using False assms(1) by (simp add: Enqueue_def set_state_def upd_task_def s0_def)
    ultimately show ?thesis using with_rq_same [OF l] unfolding s0_def by (intro exI [of _ "run_queue s0"] exI [of _ kPaused]) (simp add: s0_def)
  next
    case True
    have sp: "sp t \<noteq> None" using p(6) True by (auto simp: task_ok_def)
    have kg: "keyed s0 g" using p(6) sp t0 by (fastforce simp: task_ok_def keyed_def GetQoS_def sp_value_def split: sp_ptr.splits)
    obtain xs where xs: "Enqueue g s0 = Some (with_rq xs (s0\<lparr>task_map := (task_map s0)(g \<mapsto> ?tq)\<rparr>))"
        "mset xs = add_mset g (mset (run_queue s0))" "heap (edf_gt s0) (run_queue s0) \<Longrightarrow> heap (edf_gt s0) xs"
      using enqueue_eq [OF l kd kg t0 _ _ _ refl] True p(3) out(1) by auto
    let ?s1 = "s0\<lparr>task_map := (task_map s0)(g \<mapsto> ?tq)\<rparr>"
    have dx: "distinct xs" "set xs = insert g (set (run_queue s0))"
      using mset_out [OF xs(2) [symmetric, THEN sym]] xs(2) out(1) linkedD(1) [OF l] mset_eq_setD [of xs "g # run_queue s0"] mset_eq_imp_distinct_iff [of xs "g # run_queue s0"] by auto
    have "edf_core F {} (with_rq xs ?s1)"
      by (rule core_task [OF c, where g = g and t' = ?tq]) (use dx p out True sp in \<open>auto simp: task_ok_def active_def\<close>)
    moreover have "edf_gt ?s1 = edf_gt s0" by (rule key_upd [OF t0]) simp_all
    ultimately have "good b F None (with_rq xs ?s1)" using ord xs(3) by (auto intro: goodI simp: ordered_def)
    then show ?thesis using xs(1) e by (intro exI [of _ xs] exI [of _ kQueued]) (simp add: s0_def)
  qed
qed

text \<open>What the operations on the lists leave alone.\<close>

definition edf_frame :: "EdfScheduler \<Rightarrow> EdfScheduler \<Rightarrow> bool" where
  "edf_frame s s' \<longleftrightarrow> cpus s' = cpus s \<and> cpu_states s' = cpu_states s \<and> orchs s' = orchs s \<and> in_discovery s' = in_discovery s
     \<and> global_cpu s' = global_cpu s"

lemma edf_frame_refl [simp]: "edf_frame s s"
  by (simp add: edf_frame_def)

lemma edf_frame_with_rq [simp]: "edf_frame s (with_rq xs s') = edf_frame s s'"
  by (simp add: edf_frame_def)

lemma edf_frame_fields [simp]:
  "edf_frame s (s'\<lparr>task_map := m\<rparr>) = edf_frame s s'" "edf_frame s (s'\<lparr>yielding_tasks := ys\<rparr>) = edf_frame s s'"
  "edf_frame (s\<lparr>task_map := m\<rparr>) s' = edf_frame s s'" "edf_frame (s\<lparr>yielding_tasks := ys\<rparr>) s' = edf_frame s s'"
  by (simp_all add: edf_frame_def)

lemma enqueue_keep:
  assumes "Enqueue g s = Some s'" and "task_map s g = Some t"
    and "good b F X (s\<lparr>task_map := (task_map s)(g \<mapsto> t\<lparr>run_state := kPaused\<rparr>)\<rparr>)" and "X = None \<or> X = Some g"
  shows "good b F None s'" "edf_frame s s'" "yielding_tasks s' = yielding_tasks s" "\<exists>r i. task_map s' g = Some (t\<lparr>run_state := r, rq_pos := i\<rparr>)"
proof -
  obtain xs r where s': "s' = with_rq xs (s\<lparr>task_map := (task_map s)(g \<mapsto> t\<lparr>run_state := r\<rparr>)\<rparr>)" and good: "good b F None s'"
    using enqueue_good [OF assms(2, 3, 4)] assms(1) by auto
  show "good b F None s'" "edf_frame s s'" "yielding_tasks s' = yielding_tasks s" using good by (simp_all add: s')
  have "task_map s' g = Some (t\<lparr>run_state := r\<rparr>) \<or> (\<exists>i. task_map s' g = Some (t\<lparr>run_state := r, rq_pos := i\<rparr>))"
    by (auto simp: s' relink_def)
  then show "\<exists>r i. task_map s' g = Some (t\<lparr>run_state := r, rq_pos := i\<rparr>)"
    by (metis EdfTask.surjective EdfTask.update_convs(1,3))
qed

lemma good_queue:
  assumes "good b F X s" shows "rq_linked s" "\<forall>h \<in> set (run_queue s). keyed s h" "\<And>h. h \<in> set (run_queue s) \<Longrightarrow> keyed s h" "distinct (run_queue s)"
  using coreD(3) [OF goodD [OF assms]] rq_keyed [OF goodD [OF assms]] linkedD(1) by auto

lemma remove_keep:
  assumes "RemoveFromRunqueue g s = Some s'" and "good b F X s" and "X = None \<or> X = Some g" and "task_map s g = Some t"
  shows "good b F None s'" "edf_frame s s'" "yielding_tasks s' = yielding_tasks s" "task_map s' g = Some (t\<lparr>rq_pos := -1, run_state := kPaused\<rparr>)"
proof -
  let ?t = "t\<lparr>rq_pos := -1, run_state := kPaused\<rparr>" and ?s = "s\<lparr>task_map := (task_map s)(g \<mapsto> t\<lparr>rq_pos := -1, run_state := kPaused\<rparr>)\<rparr>"
  note gs = good_any [OF assms(2, 3)] and q = good_queue [OF assms(2)]
  note p = place [OF gs assms(4)]
  have st: "run_state t = kQueued" "0 \<le> rq_pos t" using assms(1, 4) by (auto simp: RemoveFromRunqueue_def bind_eq_Some_conv)
  have rq: "g \<in> set (run_queue s)" "g \<notin> F" using p(1, 3) st by auto
  obtain xs where xs: "s' = with_rq xs ?s" "mset (run_queue s) = add_mset g (mset xs)" "ordered_but g s \<Longrightarrow> heap (edf_gt s) xs"
    using remove_eq [OF q(1, 2) rq(1) assms(4) st(1)] assms(1) by auto
  note m = mset_out [OF xs(2) q(4)]
  have "edf_core F {} s'" unfolding xs(1)
    by (rule core_task [OF goodD [OF gs], where g = g and t' = ?t])
      (use m p(4-7) st rq in \<open>auto simp: task_ok_def active_def\<close>)
  moreover have "edf_gt ?s = edf_gt s" by (rule key_upd [OF assms(4)]) simp_all
  then have "ordered s'" if b using xs(3) good_ordered(2) [OF gs that] by (simp add: xs(1) ordered_def)
  ultimately show "good b F None s'" by (auto intro: goodI)
  show "edf_frame s s'" "yielding_tasks s' = yielding_tasks s" "task_map s' g = Some ?t" using m by (simp_all add: xs(1) relink_def)
qed

lemma update_keep:
  assumes "UpdateRunqueue g s = Some s'" and "good b F (Some g) s" and "task_map s g = Some t" and "has_work t"
  shows "good b F None s'" "edf_frame s s'"
proof -
  note q = good_queue [OF assms(2)] and p = place [OF assms(2, 3)]
  have st: "run_state t = kQueued" "0 \<le> rq_pos t" using assms(1, 3) by (auto simp: UpdateRunqueue_def bind_eq_Some_conv)
  have rq: "g \<in> set (run_queue s)" "g \<notin> F" using p(1, 3) st by auto
  obtain xs where xs: "s' = with_rq xs s" "mset xs = mset (run_queue s)" "ordered_but g s \<Longrightarrow> heap (edf_gt s) xs"
    using update_eq [OF q(1, 2) rq(1) assms(3) st(1)] assms(1) by auto
  have m: "distinct xs" "set xs = set (run_queue s)" using q(4) mset_eq_setD [OF xs(2)] mset_eq_imp_distinct_iff [OF xs(2)] by auto
  have up: "(task_map s)(g \<mapsto> t) = task_map s" using assms(3) by auto
  have "edf_core F {} s'" unfolding xs(1)
    by (rule core_task [OF goodD [OF assms(2)], where g = g and t' = t])
      (use m p(2, 4-7) st rq assms(4) up in \<open>auto simp: task_ok_def active_def insert_absorb\<close>)
  moreover have "ordered s'" if b using xs(3) good_ordered(2) [OF assms(2) that] by (simp add: xs(1) ordered_def)
  ultimately show "good b F None s'" by (auto intro: goodI)
  show "edf_frame s s'" by (simp add: xs(1))
qed

text \<open>\<open>Dequeue\<close> takes a least task.\<close>

lemma dequeue_keep:
  assumes "Dequeue s = Some (Some g, s')" and "good b F None s"
  shows "good b (insert g F) None s'" "g \<notin> F" "edf_frame s s'" "yielding_tasks s' = yielding_tasks s" "run_queue s \<noteq> []" "g = run_queue s ! 0"
    "\<exists>t. task_map s g = Some t \<and> task_map s' g = Some (t\<lparr>rq_pos := -1\<rparr>)" "mset (run_queue s) = add_mset g (mset (run_queue s'))"
proof -
  show ne: "run_queue s \<noteq> []" using assms(1) by (auto simp: Dequeue_def)
  note q = good_queue [OF assms(2)]
  define h where "h = run_queue s ! 0"
  have mem: "h \<in> set (run_queue s)" using ne by (simp add: h_def)
  then obtain t where t: "task_map s h = Some t" using q(2) by (auto simp: keyed_def)
  note p = place [OF assms(2) t]
  have st: "run_state t = kQueued" "h \<notin> F" "has_work t" using p(1, 6) mem by (auto simp: task_ok_def active_def)
  let ?s = "s\<lparr>task_map := (task_map s)(h \<mapsto> t\<lparr>rq_pos := -1\<rparr>)\<rparr>"
  obtain xs where xs: "Dequeue s = Some (Some h, with_rq xs ?s)" "mset (run_queue s) = add_mset h (mset xs)" "ordered s \<Longrightarrow> heap (edf_gt s) xs"
    using dequeue_eq [OF q(1, 2) ne h_def t st(3)] by auto
  have e: "g = h" "s' = with_rq xs ?s" using xs(1) assms(1) by auto
  note m = mset_out [OF xs(2) q(4)]
  have "edf_core (insert h F) {} s'" unfolding e(2)
    by (rule core_task [OF goodD [OF assms(2)], where g = h and t' = "t\<lparr>rq_pos := -1\<rparr>"])
      (use m p(4-7) st in \<open>auto simp: task_ok_def active_def\<close>)
  moreover have "edf_gt ?s = edf_gt s" by (rule key_upd [OF t]) simp_all
  then have "ordered s'" if b using xs(3) good_ordered(1) [OF assms(2) that] by (simp add: e(2) ordered_def)
  ultimately show "good b (insert g F) None s'" by (auto intro: goodI simp: e(1))
  show "g \<notin> F" "edf_frame s s'" "yielding_tasks s' = yielding_tasks s" "g = run_queue s ! 0" "mset (run_queue s) = add_mset g (mset (run_queue s'))"
    using st xs(2) by (simp_all add: e h_def)
  show "\<exists>t. task_map s g = Some t \<and> task_map s' g = Some (t\<lparr>rq_pos := -1\<rparr>)" using t m by (simp add: e relink_def)
qed

lemma dequeue_total:
  assumes "good b F None s" shows "\<exists>r s'. Dequeue s = Some (r, s') \<and> (r = None \<longleftrightarrow> run_queue s = []) \<and> (r = None \<longrightarrow> s' = s)"
proof (cases "run_queue s = []")
  case False
  note q = good_queue [OF assms]
  have mem: "run_queue s ! 0 \<in> set (run_queue s)" using False by simp
  then obtain t where t: "task_map s (run_queue s ! 0) = Some t" using q(2) by (auto simp: keyed_def)
  have "has_work t" using place(1, 6) [OF assms t] mem by (auto simp: task_ok_def active_def)
  then show ?thesis using dequeue_eq [OF q(1, 2) False refl t] False by auto
qed (simp add: Dequeue_def)

section \<open>Yielding tasks\<close>

lemma yield_keep:
  assumes "Yield g s = Some s'" and "task_map s g = Some t" and "good b F X (s\<lparr>task_map := (task_map s)(g \<mapsto> t\<lparr>run_state := kPaused\<rparr>)\<rparr>)"
    and "has_work t"
  shows "good b F X s'" "edf_frame s s'"
proof -
  let ?s = "s\<lparr>task_map := (task_map s)(g \<mapsto> t\<lparr>run_state := kPaused\<rparr>)\<rparr>" and ?t = "t\<lparr>run_state := kYielding\<rparr>"
  have s': "s' = s\<lparr>task_map := (task_map s)(g \<mapsto> ?t), yielding_tasks := yielding_tasks s @ [g]\<rparr>"
    using assms(1, 2) by (auto simp: Yield_def set_state_def upd_task_def bind_eq_Some_conv)
  have t0: "task_map ?s g = Some (t\<lparr>run_state := kPaused\<rparr>)" by simp
  have "good b F X (?s\<lparr>task_map := (task_map ?s)(g \<mapsto> ?t), yielding_tasks := yielding_tasks ?s @ [g]\<rparr>)"
    by (rule enter_yielding [OF assms(3) t0]) (use assms(4) place(6) [OF assms(3) t0] in \<open>auto simp: task_ok_def\<close>)
  then show "good b F X s'" by (simp add: s')
  show "edf_frame s s'" by (simp add: s')
qed

lemma unyield_keep:
  assumes "Unyield g s = Some s'" and "good b F X s" and "X = None \<or> X = Some g" and "task_map s g = Some t"
  shows "good b F None s'" "edf_frame s s'" "\<exists>r i. task_map s' g = Some (t\<lparr>run_state := r, rq_pos := i\<rparr>)"
proof -
  let ?s = "s\<lparr>yielding_tasks := remove1 g (yielding_tasks s)\<rparr>"
  have e: "Enqueue g ?s = Some s'" and st: "run_state t = kYielding" using assms(1, 4) by (auto simp: Unyield_def bind_eq_Some_conv)
  have t: "task_map ?s g = Some t" using assms(4) by simp
  have "good b F X (s\<lparr>task_map := (task_map s)(g \<mapsto> t\<lparr>run_state := kPaused\<rparr>), yielding_tasks := remove1 g (yielding_tasks s)\<rparr>)"
    by (rule leave_yielding [OF assms(2, 4) st]) (use place(6) [OF assms(2, 4)] in \<open>auto simp: task_ok_def active_def\<close>)
  then have "good b F X (?s\<lparr>task_map := (task_map ?s)(g \<mapsto> t\<lparr>run_state := kPaused\<rparr>)\<rparr>)"
    by (rule arg_cong [THEN iffD1, rotated]) simp
  from enqueue_keep [OF e t this assms(3)]
  show "good b F None s'" "edf_frame s s'" "\<exists>r i. task_map s' g = Some (t\<lparr>run_state := r, rq_pos := i\<rparr>)" by simp_all
qed

end
