(* ===== verification/Edf_Params.thy ===== *)
theory Edf_Params
  imports Edf_Keep
begin

text \<open>
  The invariant of the EDF scheduler is kept by the bookkeeping of runtimes and deadlines, and by the
  updates of the scheduling parameters that the orchestrators read.
\<close>

section \<open>Runtimes and deadlines\<close>

text \<open>The estimate is doubled until it exceeds the elapsed time; with a positive estimate this ends.\<close>

lemma scale_estimate_total:
  assumes "0 < est"
  shows "\<exists>k. scale_estimate est elapsed = Some (est * 2 ^ k) \<and> elapsed < est * 2 ^ k \<and> (\<forall>j < k. est * 2 ^ j \<le> elapsed)"
  using assms
proof (induction "nat (elapsed + 1 - est)" arbitrary: est rule: less_induct)
  case less
  show ?case
  proof (cases "est \<le> elapsed")
    case True
    then have "\<exists>k. scale_estimate (est * 2) elapsed = Some (est * 2 * 2 ^ k) \<and> elapsed < est * 2 * 2 ^ k \<and> (\<forall>j < k. est * 2 * 2 ^ j \<le> elapsed)"
      using less(2) by (intro less(1)) auto
    then obtain k where k: "scale_estimate (est * 2) elapsed = Some (est * 2 * 2 ^ k)" "elapsed < est * 2 * 2 ^ k" "\<forall>j < k. est * 2 * 2 ^ j \<le> elapsed"
      by blast
    have "est * 2 ^ j \<le> elapsed" if "j < Suc k" for j using that k(3) True by (cases j) (auto simp: mult.assoc)
    then show ?thesis using True k(1, 2) by (intro exI [of _ "Suc k"]) (simp add: scale_estimate.simps [of est] mult.assoc)
  next
    case False
    then show ?thesis by (intro exI [of _ 0]) (simp add: scale_estimate.simps [of est])
  qed
qed

text \<open>A change of the bookkeeping of a task.\<close>

definition kept :: "EdfTask \<Rightarrow> EdfTask \<Rightarrow> bool" where
  "kept t t' \<longleftrightarrow> run_state t' = run_state t \<and> task_cpu t' = task_cpu t \<and> rq_pos t' = rq_pos t \<and> sp t' = sp t
     \<and> has_work t' = has_work t \<and> prio_boost t' = prio_boost t \<and> seqnum t' = seqnum t \<and> (0 < estimated_runtime t \<longrightarrow> 0 < estimated_runtime t')"

lemma kept_refl [simp]: "kept t t"
  by (simp add: kept_def)

lemma kept_trans: "kept t t' \<Longrightarrow> kept t' t'' \<Longrightarrow> kept t t''"
  by (simp add: kept_def)

lemma set_runtime_kept: "SetRuntime n u t = Some t' \<Longrightarrow> kept t t' \<and> sched_deadline t' = sched_deadline t"
  by (auto simp: SetRuntime_def kept_def bind_eq_Some_conv Let_def split: if_splits)

lemma calculate_kept: "CalculateSchedDeadline t = Some t' \<Longrightarrow> 0 < estimated_runtime t \<Longrightarrow> kept t t'"
  using scale_estimate_total [of "estimated_runtime t" "elapsed_runtime t"]
  by (auto simp: CalculateSchedDeadline_def kept_def bind_eq_Some_conv Let_def)

lemma good_kept:
  assumes "good b F X s" and "task_map s g = Some t" and "kept t t'"
    and "run_state t = kQueued \<Longrightarrow> g \<in> F \<or> X = Some g \<or> sched_deadline t' = sched_deadline t"
  shows "good b F X (s\<lparr>task_map := (task_map s)(g \<mapsto> t')\<rparr>)"
  by (rule good_same [OF assms(1, 2)])
    (use assms(3, 4) place(6) [OF assms(1, 2)] in \<open>auto simp: kept_def task_ok_def active_def\<close>)

lemma update_task_runtime_keep:
  assumes "UpdateTaskRuntime g n u s = Some s'" and "good b F X s" and "task_map s g = Some t"
  shows "\<exists>t'. s' = s\<lparr>task_map := (task_map s)(g \<mapsto> t')\<rparr> \<and> kept t t'" "run_state t \<noteq> kQueued" "good b F X s'"
proof -
  have est: "0 < estimated_runtime t" using place(6) [OF assms(2, 3)] by (simp add: task_ok_def)
  obtain t1 where t1: "SetRuntime n u t = Some t1"
    and s': "s' = s\<lparr>task_map := (task_map s)(g \<mapsto> t1)\<rparr> \<and> run_state t1 \<noteq> kQueued
      \<or> (\<exists>t'. CalculateSchedDeadline t1 = Some t' \<and> run_state t1 = kOnCpu \<and> s' = s\<lparr>task_map := (task_map s)(g \<mapsto> t')\<rparr>)"
    using assms(1, 3) by (auto simp: UpdateTaskRuntime_def on_task_def bind_eq_Some_conv upd_task_def split: if_splits)
  have k: "kept t t1" using set_runtime_kept [OF t1] by simp
  have "kept t t'" if "CalculateSchedDeadline t1 = Some t'" for t'
    using calculate_kept [OF that] k est by (auto intro: kept_trans simp: kept_def)
  then obtain t' where t': "s' = s\<lparr>task_map := (task_map s)(g \<mapsto> t')\<rparr>" "kept t t'" using s' k by blast
  then show "\<exists>t'. s' = s\<lparr>task_map := (task_map s)(g \<mapsto> t')\<rparr> \<and> kept t t'" by blast
  show st: "run_state t \<noteq> kQueued" using s' k by (auto simp: kept_def)
  show "good b F X s'" unfolding t'(1) by (rule good_kept [OF assms(2, 3) t'(2)]) (use st in simp)
qed

section \<open>The caches of the orchestrators\<close>

text \<open>An orchestrator changes, and its cache keeps what the invariant reads.\<close>

definition cache_kept :: "Orchestrator \<Rightarrow> Orchestrator \<Rightarrow> bool" where
  "cache_kept orch orch' \<longleftrightarrow> length (cachedsids orch') = length (cachedsids orch)
     \<and> (\<forall>i < length (cachedsids orch). sp_gpid (cachedsids orch' ! i) = sp_gpid (cachedsids orch ! i)
          \<and> sp_qos (cachedsids orch' ! i) = sp_qos (cachedsids orch ! i))"

lemma task_ok_orch:
  assumes "orchs s p = Some orch" and "length (cachedsids orch') = length (cachedsids orch)"
    and "\<And>i. sp t = Some (Cached p i) \<Longrightarrow> i < length (cachedsids orch) \<Longrightarrow> sp_gpid (cachedsids orch ! i) = g \<Longrightarrow> sp_gpid (cachedsids orch' ! i) = g"
    and "task_ok s W g t"
  shows "task_ok (s\<lparr>orchs := (orchs s)(p \<mapsto> orch')\<rparr>) W g t"
  using assms by (auto simp: task_ok_def)

lemma core_orchs:
  assumes "edf_core F W s" and "\<And>g t. task_map s g = Some t \<Longrightarrow> task_ok s W g t \<Longrightarrow> task_ok (s\<lparr>orchs := os\<rparr>) W g t"
  shows "edf_core F W (s\<lparr>orchs := os\<rparr>)"
  using assms unfolding edf_core_def in_st_def rq_linked_def by simp

lemma key_orch:
  assumes "orchs s p = Some orch" and "length (cachedsids orch') = length (cachedsids orch)"
    and "\<And>t i. task_map s g = Some t \<Longrightarrow> sp t = Some (Cached p i) \<Longrightarrow> i < length (cachedsids orch) \<Longrightarrow>
      sp_qos (cachedsids orch' ! i) = sp_qos (cachedsids orch ! i)"
  shows "edf_key (s\<lparr>orchs := (orchs s)(p \<mapsto> orch')\<rparr>) g = edf_key s g"
proof (cases "task_map s g")
  case (Some t)
  have "GetQoS (s\<lparr>orchs := (orchs s)(p \<mapsto> orch')\<rparr>) t = GetQoS s t"
    using assms Some by (cases "sp t") (auto simp: GetQoS_def sp_value_def CHECK_def split: sp_ptr.split bind_split)
  then show ?thesis using Some by (simp add: edf_key_def)
qed (simp add: edf_key_def)

lemma good_cache:
  assumes "good b F X s" and "orchs s p = Some orch" and "cache_kept orch orch'"
  shows "good b F X (s\<lparr>orchs := (orchs s)(p \<mapsto> orch')\<rparr>)"
proof (rule good_order [OF assms(1)])
  have l: "length (cachedsids orch') = length (cachedsids orch)" using assms(3) by (simp add: cache_kept_def)
  show "edf_core F (set_option X) (s\<lparr>orchs := (orchs s)(p \<mapsto> orch')\<rparr>)"
    by (rule core_orchs [OF goodD [OF assms(1)]], rule task_ok_orch [OF assms(2) l]) (use assms(3) in \<open>auto simp: cache_kept_def\<close>)
  show "edf_key (s\<lparr>orchs := (orchs s)(p \<mapsto> orch')\<rparr>) h = edf_key s h" for h
    by (rule key_orch [OF assms(2) l]) (use assms(3) in \<open>auto simp: cache_kept_def\<close>)
qed simp

lemma stats_kept: "UpdateWorkClassStats n w e d orch = Some orch' \<Longrightarrow> cachedsids orch' = cachedsids orch \<and> cache_kept orch orch'"
  by (auto simp: UpdateWorkClassStats_def cache_kept_def bind_eq_Some_conv Let_def)

lemma make_runnable_keep:
  assumes "MakeEngineRunnable E p i s = Some s'" and "good b F X s"
  shows "good b F X s'" "task_map s' = task_map s" "in_discovery s' = in_discovery s"
    "\<And>v. sp_value s (Cached p i) = Some v \<Longrightarrow> \<exists>v'. sp_value s' (Cached p i) = Some v' \<and> sp_gpid v' = sp_gpid v \<and> sp_wcid v' = sp_wcid v"
proof -
  obtain orch where o: "orchs s p = Some orch" "i < length (cachedsids orch)"
    and s': "s' = s\<lparr>orchs := (orchs s)(p \<mapsto> orch\<lparr>cachedsids := (cachedsids orch)[i := SetRunnable (cachedsids orch ! i)]\<rparr>),
      made_runnable := made_runnable s @ [(p, i)]\<rparr>"
    using assms(1) by (auto simp: MakeEngineRunnable_def upd_orch_def bind_eq_Some_conv Let_def)
  let ?o = "orch\<lparr>cachedsids := (cachedsids orch)[i := SetRunnable (cachedsids orch ! i)]\<rparr>"
  have "cache_kept orch ?o" using o(2) by (auto simp: cache_kept_def SetRunnable_def nth_list_update)
  then have "good b F X (s\<lparr>orchs := (orchs s)(p \<mapsto> ?o)\<rparr>)" by (rule good_cache [OF assms(2) o(1)])
  then show "good b F X s'" unfolding s' by (rule good_fields(2) [THEN iffD2])
  show "task_map s' = task_map s" "in_discovery s' = in_discovery s" by (simp_all add: s')
  show "\<exists>v'. sp_value s' (Cached p i) = Some v' \<and> sp_gpid v' = sp_gpid v \<and> sp_wcid v' = sp_wcid v" if "sp_value s (Cached p i) = Some v" for v
    using that o by (auto simp: s' sp_value_def SetRunnable_def)
qed

section \<open>The callback\<close>

lemma good_drop:
  assumes "good b F (Some g) s" and "\<And>t. task_map s g = Some t \<Longrightarrow> run_state t \<noteq> kQueued \<and> (active t \<longrightarrow> has_work t)"
  shows "good b F None s"
proof (rule goodI)
  have q: "g \<notin> set (run_queue s)" using coreD(4) [OF goodD [OF assms(1)], of g] assms(2) by (auto simp: in_st_def)
  show "edf_core F (set_option None) s" using core_drop [of F g s] goodD [OF assms(1)] assms(2) by simp
  show "ordered s" if b using good_ordered(2) [OF assms(1) that] q by (simp add: ordered_but_def)
qed simp

lemma park_same: "task_map s g = Some t \<Longrightarrow> run_state t = r \<Longrightarrow> s\<lparr>task_map := (task_map s)(g \<mapsto> t\<lparr>run_state := r\<rparr>)\<rparr> = s"
proof -
  assume a: "task_map s g = Some t" "run_state t = r"
  have "t\<lparr>run_state := r\<rparr> = t" using a(2) by (cases t) simp
  then have "(task_map s)(g \<mapsto> t\<lparr>run_state := r\<rparr>) = task_map s" using a(1) by auto
  then show ?thesis by simp
qed

lemma preempt_none:
  assumes "PreemptTask E g None bt s = Some (ok, s')" and "good b F X s" and "task_map s g = Some t"
  shows "good b F X s'" "orchs s' = orchs s" "task_map s' g = Some (t\<lparr>run_state := kPaused\<rparr>)"
proof -
  let ?t = "t\<lparr>run_state := kPaused\<rparr>"
  have st: "run_state t = kOnCpu"
    and s': "s' = (upd_ecpu (task_cpu t) (current_update (\<lambda>_. None)) s)\<lparr>task_map := (task_map s)(g \<mapsto> ?t), txns := txns s @ [(task_cpu t, None, 0, None)]\<rparr>"
    using assms(1, 3) by (auto simp: PreemptTask_def bind_eq_Some_conv set_state_def upd_task_def upd_ecpu_def)
  have "good b F X ((upd_ecpu (task_cpu t) (current_update (\<lambda>_. None)) s)\<lparr>task_map := (task_map s)(g \<mapsto> ?t)\<rparr>)"
    by (rule leave_cpu [OF assms(2, 3) st]) (use place(6) [OF assms(2, 3)] in \<open>auto simp: task_ok_def active_def\<close>)
  then show "good b F X s'" unfolding s' by (rule good_fields(1) [THEN iffD2])
  show "orchs s' = orchs s" "task_map s' g = Some ?t" by (simp_all add: s' upd_ecpu_def)
qed

lemma requeue_repeating:
  assumes "MakeEngineRunnable E p i s = Some s1" and "upd_task g (has_work_update (\<lambda>_. True)) s1 = Some s2" and "Enqueue g s2 = Some s'"
    and "good b F None s" and "task_map s g = Some t" and "run_state t = kPaused" and "sp t \<noteq> None"
  shows "good b F None s'"
proof -
  let ?t = "t\<lparr>has_work := True\<rparr>"
  note k = make_runnable_keep [OF assms(1, 4)]
  have t1: "task_map s1 g = Some t" using k(2) assms(5) by simp
  have s2: "s2 = s1\<lparr>task_map := (task_map s1)(g \<mapsto> ?t)\<rparr>" using assms(2) t1 by (auto simp: upd_task_def)
  have "good b F None s2" unfolding s2
    by (rule good_idle [OF k(1) t1]) (use assms(6, 7) place(6) [OF k(1) t1] in \<open>auto simp: idle_def task_ok_def active_def\<close>)
  moreover have t2: "task_map s2 g = Some ?t" by (simp add: s2)
  ultimately show ?thesis using enqueue_keep(1) [OF assms(3) t2, of b F None] park_same [OF t2] assms(6) by simp
qed

lemma work_edge_keep:
  assumes "work_edge E p i g had s = Some s'" and "good b F (Some g) s" and "task_map s g = Some t" and "sp t \<noteq> None"
  shows "good b F None s'"
proof -
  consider (stay) "s' = s" "run_state t = kBlocked \<or> \<not> has_work t \<and> run_state t = kPaused"
    | (start) "run_state t = kPaused" "Enqueue g s = Some s'"
    | (move) "has_work t" "UpdateRunqueue g s = Some s'"
    | (run) "has_work t" "run_state t \<noteq> kQueued" "s' = s"
    | (stop) s1 t1 where "(\<exists>ok. PreemptTask E g None 0 s = Some (ok, s1)) \<or> RemoveFromRunqueue g s = Some s1" "task_map s1 g = Some t1" "run_state t1 = kPaused"
        "s' = s1 \<or> (\<exists>s2 s3. MakeEngineRunnable E p i s1 = Some s2 \<and> upd_task g (has_work_update (\<lambda>_. True)) s2 = Some s3 \<and> Enqueue g s3 = Some s')"
    using assms(1, 3) by (auto simp: work_edge_def bind_eq_Some_conv split: if_splits)
  then show ?thesis
  proof cases
    case stay
    then show ?thesis using good_drop [OF assms(2)] assms(3) by (auto simp: active_def)
  next
    case start
    then show ?thesis using enqueue_keep(1) [OF start(2) assms(3), of b F "Some g"] park_same [OF assms(3)] assms(2) by simp
  next
    case move
    then show ?thesis using update_keep(1) [OF move(2) assms(2, 3)] by simp
  next
    case run
    then show ?thesis using good_drop [OF assms(2)] assms(3) by auto
  next
    case (stop s1 t1)
    have "good b F None s1 \<and> sp t1 = sp t"
      using stop(1)
    proof (elim disjE exE)
      fix ok assume p: "PreemptTask E g None 0 s = Some (ok, s1)"
      note k = preempt_none [OF p assms(2, 3)]
      show ?thesis using good_drop [OF k(1)] k(3) stop(2) by (auto simp: active_def)
    next
      assume r: "RemoveFromRunqueue g s = Some s1"
      show ?thesis using remove_keep(1, 4) [OF r assms(2) _ assms(3)] stop(2) by auto
    qed
    then show ?thesis using stop(2-4) assms(4) requeue_repeating by auto
  qed
qed

lemma bill_work_keep:
  assumes "bill_work E p g w s = Some s'" and "good b F (Some g) s" and "task_map s g = Some t"
  shows "good b F (Some g) s'" "\<exists>t'. task_map s' g = Some t' \<and> kept t t'"
proof -
  obtain t1 orch orch' where t1: "SetRuntime (Nanoseconds (sw_runtime E g)) True t = Some t1"
    and o: "orchs s p = Some orch" "UpdateWorkClassStats (now E) w (elapsed_runtime t1) (deadline t1) orch = Some orch'"
    and s': "s' = s\<lparr>task_map := (task_map s)(g \<mapsto> t1\<lparr>elapsed_runtime := 0\<rparr>), orchs := (orchs s)(p \<mapsto> orch')\<rparr>"
    using assms(1, 3) by (auto simp: bill_work_def UpdateRuntime_def on_task_def upd_task_def upd_orch_def bind_eq_Some_conv)
  have k: "kept t (t1\<lparr>elapsed_runtime := 0\<rparr>)" using set_runtime_kept [OF t1] by (simp add: kept_def)
  have "good b F (Some g) (s\<lparr>task_map := (task_map s)(g \<mapsto> t1\<lparr>elapsed_runtime := 0\<rparr>)\<rparr>)" by (rule good_kept [OF assms(2, 3) k]) simp
  from good_cache [OF this, of p orch orch'] show "good b F (Some g) s'" using stats_kept [OF o(2)] o(1) by (simp add: s')
  show "\<exists>t'. task_map s' g = Some t' \<and> kept t t'" using k by (simp add: s')
qed

lemma new_deadline_keep:
  assumes "new_deadline E p i g s = Some s'" and "good b F (Some g) s" and "task_map s g = Some t"
  shows "good b F (Some g) s'" "\<exists>t'. task_map s' g = Some t' \<and> kept t t'"
proof -
  obtain orch est w dl t' where est: "EstimateRuntime orch w = Some est"
    and t': "CalculateSchedDeadline (t\<lparr>estimated_runtime := est, deadline := dl\<rparr>) = Some t'"
    and s': "s' = s\<lparr>task_map := (task_map s)(g \<mapsto> t')\<rparr>"
    using assms(1, 3) by (auto simp: new_deadline_def on_task_def upd_task_def bind_eq_Some_conv)
  have pos: "0 < est" using est by (auto simp: EstimateRuntime_def bind_eq_Some_conv Let_def Nanoseconds_def split: if_splits)
  then have k: "kept t t'" using calculate_kept [OF t'] by (auto simp: kept_def)
  show "good b F (Some g) s'" unfolding s' by (rule good_kept [OF assms(2, 3) k]) simp
  show "\<exists>t'. task_map s' g = Some t' \<and> kept t t'" using k by (simp add: s')
qed

text \<open>The callback repairs what the update of the task's parameters has left open.\<close>

lemma callback_task:
  assumes "upd_task g (\<lambda>t. t\<lparr>sp := Some (Cached p i), has_work := HasWork v, wcid := sp_wcid v\<rparr>) s = Some s1"
    and "(if had then bill_work E p g w s1 else Some s1) = Some s2" and "new_deadline E p i g s2 = Some s3"
    and "work_edge E p i g had s3 = Some s'" and good: "good b F (Some g) s" and t: "task_map s g = Some t"
    and v: "sp_value s (Cached p i) = Some v" "sp_gpid v = g" "g \<noteq> 0"
  shows "good b F None s'"
proof -
  let ?t = "t\<lparr>sp := Some (Cached p i), has_work := HasWork v, wcid := sp_wcid v\<rparr>"
  have s1: "s1 = s\<lparr>task_map := (task_map s)(g \<mapsto> ?t)\<rparr>" using assms(1) t by (auto simp: upd_task_def)
  obtain orch where "orchs s p = Some orch" "i < length (cachedsids orch)" "sp_gpid (cachedsids orch ! i) = g"
    using v(1, 2) by (auto simp: sp_value_def bind_eq_Some_conv)
  then have ok: "task_ok s {g} g ?t" using place(6) [OF good t] v(3) by (auto simp: task_ok_def active_def)
  have g1: "good b F (Some g) s1" unfolding s1 by (rule good_same [OF good t]) (use ok in auto)
  have t1: "task_map s1 g = Some ?t" by (simp add: s1)
  obtain t2 where g2: "good b F (Some g) s2" and t2: "task_map s2 g = Some t2" "kept ?t t2"
  proof (cases had)
    case True
    then show ?thesis using that bill_work_keep [OF _ g1 t1, of E p w s2] assms(2) by auto
  next
    case False
    then show ?thesis using that [of ?t] g1 t1 assms(2) by auto
  qed
  obtain t3 where g3: "good b F (Some g) s3" and t3: "task_map s3 g = Some t3" "kept t2 t3"
    using new_deadline_keep [OF assms(3) g2 t2(1)] by blast
  show ?thesis using work_edge_keep [OF assms(4) g3 t3(1)] t2(2) t3(2) by (simp add: kept_def)
qed

lemma update_params_keep:
  assumes "update_task_params E p i g s = Some s'" and good: "good b F (Some g) s"
    and v: "sp_value s (Cached p i) = Some v" "sp_gpid v = g" "g \<noteq> 0"
  shows "good b F None s'"
proof -
  obtain t s2 t2 s3 s4 s5 where t: "task_map s g = Some t"
    and y: "(if run_state t = kYielding then Unyield g s else Some s) = Some s2" and t2: "task_map s2 g = Some t2"
    and c: "upd_task g (\<lambda>t. t\<lparr>sp := Some (Cached p i), has_work := HasWork v, wcid := sp_wcid v\<rparr>) s2 = Some s3"
      "(if has_work t2 then bill_work E p g (wcid t2) s3 else Some s3) = Some s4" "new_deadline E p i g s4 = Some s5"
      "work_edge E p i g (has_work t2) s5 = Some s'" and v2: "sp_value s2 (Cached p i) = Some v"
  proof -
    obtain t s2 where a: "task_map s g = Some t" "(if run_state t = kYielding then Unyield g s else Some s) = Some s2"
      using assms(1) by (auto simp: update_task_params_def bind_eq_Some_conv)
    have o: "orchs s2 = orchs s" using a(2) unyield_keep(2) [OF _ good _ a(1), of s2] by (auto simp: edf_frame_def split: if_splits)
    have "sp_value s2 (Cached p i) = Some v" using v(1) sp_value_cong [OF o] by simp
    then show ?thesis using that [OF a] assms(1) a by (auto simp: update_task_params_def bind_eq_Some_conv Let_def)
  qed
  have "good b F (Some g) s2" using y unyield_keep(1) [OF _ good _ t, of s2] good good_weaken by (auto split: if_splits)
  from callback_task [OF c this t2 v2 v(2, 3)] show ?thesis .
qed

lemma callback_keep:
  assumes "SchedParamsCallback E p i old s = Some s'" and v: "sp_value s (Cached p i) = Some v"
    and good: "if sp_gpid v = 0 then good b F None s else good b F (Some (sp_gpid v)) s"
  shows "good b F None s'"
proof (cases "sp_gpid v = 0")
  case True
  then show ?thesis using assms by (auto simp: SchedParamsCallback_def bind_eq_Some_conv)
next
  case False
  let ?g = "sp_gpid v"
  obtain s1 where d: "s1 = s \<or> MakeEngineRunnable E p i s = Some s1"
    and r: "task_map s1 ?g = None \<and> s' = s1 \<or> update_task_params E p i ?g s1 = Some s'"
    using assms(1, 2) False by (auto simp: SchedParamsCallback_def GetTask_def bind_eq_Some_conv Let_def split: if_splits)
  have g0: "good b F (Some ?g) s" using good False by simp
  obtain v1 where g1: "good b F (Some ?g) s1" and v1: "sp_value s1 (Cached p i) = Some v1" "sp_gpid v1 = ?g"
    using d make_runnable_keep(1, 4) [OF _ g0] v g0 by blast
  show ?thesis using r
  proof (elim disjE conjE)
    assume "task_map s1 ?g = None" "s' = s1"
    then show ?thesis using good_drop [OF g1] by simp
  next
    assume "update_task_params E p i ?g s1 = Some s'"
    from update_params_keep [OF this g1 v1 False] show ?thesis .
  qed
qed

section \<open>Reading the parameters\<close>

text \<open>No copy of an item is torn by a concurrent write.\<close>

definition calm :: "edf_env \<Rightarrow> bool" where
  "calm E \<longleftrightarrow> (\<forall>p k i. read_end (rd_begin (item E p k i)) (rd_end (item E p k i)))"

lemma seq_copy_calm: "SeqCopyParams r wc v = (v', False) \<Longrightarrow> read_end (rd_begin r) (rd_end r) \<Longrightarrow> v' = v"
  by (auto simp: SeqCopyParams_def Let_def split: if_splits)

lemma seq_copy_gpid: "SeqCopyParams r wc v = (v', False) \<Longrightarrow> sp_gpid v' = sp_gpid v"
  by (auto simp: SeqCopyParams_def Let_def split: if_splits)

text \<open>One entry of a cache changes, and its thread does not, unless the entry was free.\<close>

lemma good_entry:
  assumes "good b F None s" and "orchs s p = Some orch" and "i < length (cachedsids orch)"
    and "sp_gpid (cachedsids orch ! i) = 0 \<or> sp_gpid (cachedsids orch ! i) = sp_gpid v"
    and s': "s' = s\<lparr>orchs := (orchs s)(p \<mapsto> orch\<lparr>cachedsids := (cachedsids orch)[i := v]\<rparr>)\<rparr>"
  shows "if sp_gpid v = 0 then good b F None s' else good b F (Some (sp_gpid v)) s'"
proof -
  let ?o = "orch\<lparr>cachedsids := (cachedsids orch)[i := v]\<rparr>"
  have l: "length (cachedsids ?o) = length (cachedsids orch)" by simp
  have ok: "task_ok s W h t \<Longrightarrow> task_ok s' W h t" for W h t unfolding s'
    by (rule task_ok_orch [OF assms(2) l]) (use assms(3, 4) in \<open>auto simp: nth_list_update task_ok_def\<close>)
  have own: "h = sp_gpid v \<and> h \<noteq> 0" if "task_map s h = Some t" "sp t = Some (Cached p i)" for h t
    using place(6) [OF assms(1) that(1)] that(2) assms(2, 4) by (auto simp: task_ok_def)
  have key: "edf_key s' h = edf_key s h" if "h \<noteq> sp_gpid v \<or> sp_gpid v = 0" for h unfolding s'
  proof (rule key_orch [OF assms(2) l])
    fix t j assume a: "task_map s h = Some t" "sp t = Some (Cached p j)"
    then have "j \<noteq> i" using own that by auto
    then show "sp_qos (cachedsids ?o ! j) = sp_qos (cachedsids orch ! j)" by simp
  qed
  have core: "edf_core F W s'" if "edf_core F W s" for W
    using that ok unfolding s' by (rule core_orchs)
  have rq: "run_queue s' = run_queue s" by (simp add: s')
  show ?thesis
  proof (cases "sp_gpid v = 0")
    case True
    have "good b F None s'" by (rule good_order [OF assms(1) _ rq]) (use core goodD [OF assms(1)] key True in auto)
    then show ?thesis using True by simp
  next
    case False
    note w = good_weaken [OF assms(1), of "sp_gpid v"]
    have "good b F (Some (sp_gpid v)) s'" by (rule good_order [OF w _ rq]) (use core goodD [OF w] key in auto)
    then show ?thesis using False by simp
  qed
qed

lemma refresh_keep:
  assumes "RefreshSchedParam E p k i s = Some s'" and "good b F None s" and "b \<longrightarrow> calm E"
  shows "good b F None s'"
proof -
  obtain orch wc where o: "orchs s p = Some orch" "i < length (cachedsids orch)" and wc: "table_work_class orch (rd_class (item E p k i)) = Some wc"
    using assms(1) by (auto simp: RefreshSchedParam_def bind_eq_Some_conv)
  let ?v = "cachedsids orch ! i"
  obtain v' ch where sc: "SeqCopyParams (item E p k i) wc ?v = (v', ch)" by (meson surj_pair)
  have r: "(if ch then SchedParamsCallback E p i (sp_gpid ?v) (s\<lparr>orchs := (orchs s)(p \<mapsto> orch\<lparr>cachedsids := (cachedsids orch)[i := v']\<rparr>)\<rparr>)
      else Some (s\<lparr>orchs := (orchs s)(p \<mapsto> orch\<lparr>cachedsids := (cachedsids orch)[i := v']\<rparr>)\<rparr>)) = Some s'"
    using assms(1) o wc sc by (simp add: RefreshSchedParam_def upd_orch_def)
  define s1 where "s1 = s\<lparr>orchs := (orchs s)(p \<mapsto> orch\<lparr>cachedsids := (cachedsids orch)[i := v']\<rparr>)\<rparr>"
  have v1: "sp_value s1 (Cached p i) = Some v'" using o(2) by (simp add: s1_def sp_value_def)
  show ?thesis
  proof (cases ch)
    case True
    then have c: "SchedParamsCallback E p i (sp_gpid ?v) s1 = Some s'" using r by (simp add: s1_def)
    then have "sp_gpid ?v = 0 \<or> sp_gpid ?v = sp_gpid v'" using v1 by (auto simp: SchedParamsCallback_def bind_eq_Some_conv Let_def)
    from callback_keep [OF c v1 good_entry [OF assms(2) o this s1_def]] show ?thesis .
  next
    case False
    then have s': "s' = s1" using r by (simp add: s1_def)
    show ?thesis
    proof (cases b)
      case True
      then have "v' = ?v" using seq_copy_calm [of "item E p k i" wc ?v v'] sc False assms(3) by (simp add: calm_def)
      then have "s1 = s" using o(1) by (simp add: s1_def fun_upd_idem)
      then show ?thesis using s' assms(2) by simp
    next
      case nb: False
      have "sp_gpid v' = sp_gpid ?v" using seq_copy_gpid [of "item E p k i" wc ?v v'] sc False by simp
      then have "edf_core F {} s1" unfolding s1_def
        by (intro core_orchs) (use goodD [OF assms(2)] o(2) in \<open>auto intro!: task_ok_orch [OF o(1)] simp: nth_list_update\<close>)
      then show ?thesis using s' nb by (simp add: good_def)
    qed
  qed
qed

lemma refresh_all_keep:
  assumes "RefreshAllSchedParams E p k s = Some s'" and "good b F None s" and "b \<longrightarrow> calm E"
  shows "good b F None s'"
proof -
  obtain n where "mfold (RefreshSchedParam E p k) [0..<n] s = Some s'" using assms(1) by (auto simp: RefreshAllSchedParams_def bind_eq_Some_conv)
  then show ?thesis using assms(2) by (rule mfold_inv) (use assms(3) in \<open>auto intro: refresh_keep\<close>)
qed

lemma refresh_loop_keep:
  "refresh_loop E p ks s = Some s' \<Longrightarrow> good b F None s \<Longrightarrow> b \<longrightarrow> calm E \<Longrightarrow> good b F None s'"
proof (induction ks arbitrary: s)
  case (Cons k ks)
  then show ?case by (auto simp: bind_eq_Some_conv Let_def split: if_splits intro: refresh_keep refresh_all_keep)
qed simp

lemma for_orchs_keep:
  assumes "for_orchs E f s = Some s'" and "\<And>p s s'. f p s = Some s' \<Longrightarrow> P s \<Longrightarrow> P s'" and "P s" shows "P s'"
  using assms(1) assms(3) unfolding for_orchs_def by (rule mfold_inv) (use assms(2) in auto)

lemma update_sched_params_keep:
  assumes "UpdateSchedParams E s = Some s'" and "good b F None s" and "b \<longrightarrow> calm E"
  shows "good b F None s'"
  using assms(1) [unfolded UpdateSchedParams_def]
  by (rule for_orchs_keep) (use assms(2, 3) in \<open>auto simp: RefreshSchedParams_def bind_eq_Some_conv intro: refresh_loop_keep\<close>)

lemma get_sched_params_keep:
  assumes "GetSchedParams E p g s = Some s'" and "good b F None s" shows "good b F None s'"
proof -
  consider "s' = s" | i old where "SchedParamsCallback E p i old s = Some s'"
    using assms(1) by (auto simp: GetSchedParams_def bind_eq_Some_conv split: option.splits)
  then show ?thesis
  proof cases
    case 2
    then obtain v where v: "sp_value s (Cached p i) = Some v" by (auto simp: SchedParamsCallback_def bind_eq_Some_conv)
    show ?thesis by (rule callback_keep [OF 2 v]) (use assms(2) good_weaken in auto)
  qed (use assms(2) in simp)
qed

end
