(* ===== verification/Edf_Handlers.thy ===== *)
theory Edf_Handlers
  imports Edf_Params
begin

text \<open>
  The message handlers of the EDF scheduler keep its invariant: \<open>EdfScheduler_handlers\<close> meets the
  contract of \<open>Dispatch\<close>, with the order of the run queue as long as no read of the parameters is torn.
\<close>

section \<open>New tasks\<close>

lemma good_add:
  assumes "good b F X s" and "task_map s g = None" and "idle t" and "rq_pos t = -1" and "task_ok s (set_option X) g t"
  shows "good b F X (s\<lparr>task_map := (task_map s)(g \<mapsto> t)\<rparr>)"
proof (rule good_task [OF assms(1), where g = g and t' = t])
  note c = coreD [OF goodD [OF assms(1)]]
  have n: "\<not> in_st s g r" for r using assms(2) by (simp add: in_st_def)
  have out: "g \<notin> set (run_queue s)" "g \<notin> F" "g \<notin> set (yielding_tasks s)" using n c(4, 5, 8) by auto
  show "current (cpu_states (s\<lparr>task_map := (task_map s)(g \<mapsto> t)\<rparr>) d) = Some g \<longleftrightarrow> run_state t = kOnCpu \<and> task_cpu t = d" for d
    using c(9) [of d g] assms(2, 3) by (auto simp: idle_def)
  show "distinct (yielding_tasks (s\<lparr>task_map := (task_map s)(g \<mapsto> t)\<rparr>))" using c(7) by simp
  { assume "g \<in> set (run_queue s)" then show "run_state t = kQueued \<and> g \<notin> F \<and> (\<exists>u. task_map s g = Some u \<and> rq_pos t = rq_pos u)" using out by simp }
  { assume "g \<in> F" then show "run_state t = kQueued" using out by simp }
  show "set (yielding_tasks (s\<lparr>task_map := (task_map s)(g \<mapsto> t)\<rparr>)) = (set (yielding_tasks s) - {g}) \<union> (if run_state t = kYielding then {g} else {})"
    using out assms(3) by (auto simp: idle_def)
  { assume "g \<in> set (run_queue s)" then show "X = Some g \<or> edf_key (s\<lparr>task_map := (task_map s)(g \<mapsto> t)\<rparr>) g = edf_key s g" using out by simp }
qed (use assms(3-5) in \<open>auto simp: idle_def\<close>)

lemma good_attach:
  assumes "good b F X s" and "orchs s p = None" shows "good b F X (s\<lparr>orchs := (orchs s)(p \<mapsto> orch)\<rparr>)"
proof (rule good_order [OF assms(1)])
  have no: "sp t \<noteq> Some (Cached p i)" if "task_map s g = Some t" for g t i
    using place(6) [OF assms(1) that] assms(2) by (auto simp: task_ok_def)
  show "edf_core F (set_option X) (s\<lparr>orchs := (orchs s)(p \<mapsto> orch)\<rparr>)"
    by (rule core_orchs [OF goodD [OF assms(1)]]) (use no in \<open>auto simp: task_ok_def\<close>)
  show "edf_key (s\<lparr>orchs := (orchs s)(p \<mapsto> orch)\<rparr>) h = edf_key s h" for h
  proof (cases "task_map s h")
    case (Some t)
    then have "GetQoS (s\<lparr>orchs := (orchs s)(p \<mapsto> orch)\<rparr>) t = GetQoS s t"
      using no [OF Some] by (cases "sp t") (auto simp: GetQoS_def sp_value_def split: sp_ptr.split)
    then show ?thesis using Some by (simp add: edf_key_def)
  qed (simp add: edf_key_def)
qed simp

lemma new_gtid_keep:
  assumes "HandleNewGtid E g p s = Some s'" and "good b F None s" and "task_map s g = Some t" and "idle t"
  shows "good b F None s'" "\<exists>t'. task_map s' g = Some t' \<and> idle t'"
proof -
  consider "s' = s" | pt where "orchs s p = None" "s' = s\<lparr>orchs := (orchs s)(p \<mapsto> Orchestrator_Init pt)\<rparr>"
    | "s' = s\<lparr>task_map := (task_map s)(g \<mapsto> t\<lparr>has_work := True, sp := Some Dummy_sp\<rparr>)\<rparr>"
    using assms(1, 3) by (auto simp: HandleNewGtid_def bind_eq_Some_conv upd_task_def split: if_splits option.splits)
  then have "good b F None s' \<and> (\<exists>t'. task_map s' g = Some t' \<and> idle t')"
  proof cases
    case 3
    have "good b F None s'" unfolding 3
      by (rule good_idle [OF assms(2-4)]) (use assms(4) place(6) [OF assms(2, 3)] in \<open>auto simp: idle_def task_ok_def\<close>)
    then show ?thesis using assms(4) by (auto simp: 3 idle_def)
  qed (use assms good_attach in auto)
  then show "good b F None s'" "\<exists>t'. task_map s' g = Some t' \<and> idle t'" by auto
qed

lemma enqueue_idle:
  assumes "Enqueue g s = Some s'" and "good b F X s" and "X = None \<or> X = Some g" and "task_map s g = Some t" and "idle t"
  shows "good b F None s'" "edf_frame s s'"
proof -
  have "good b F X (s\<lparr>task_map := (task_map s)(g \<mapsto> t\<lparr>run_state := kPaused\<rparr>)\<rparr>)"
    by (rule good_idle [OF assms(2, 4, 5)]) (use place(6) [OF assms(2, 4)] in \<open>auto simp: task_ok_def active_def\<close>)
  from enqueue_keep(1, 2) [OF assms(1, 4) this assms(3)] show "good b F None s'" "edf_frame s s'" .
qed

lemma task_new_keep:
  assumes "EdfScheduler_TaskNew E g m (s\<lparr>task_map := (task_map s)(g \<mapsto> EdfTask_init)\<rparr>) = Some s'" and "good b F None s" and "task_map s g = None"
  shows "good b F None s'"
proof -
  let ?s0 = "s\<lparr>task_map := (task_map s)(g \<mapsto> EdfTask_init)\<rparr>" and ?p = "tgid_of E (msg_gtid m)"
  have g0: "good b F None ?s0" by (rule good_add [OF assms(2, 3)]) (simp_all add: EdfTask_init_def idle_def task_ok_def active_def)
  obtain s1 s2 s3 s4 where s1: "UpdateTaskRuntime g (Nanoseconds (runtime m)) False ?s0 = Some s1"
    and s2: "upd_task g (\<lambda>t. t\<lparr>seqnum := msg_seqnum m, run_state := kBlocked\<rparr>) s1 = Some s2" and s3: "HandleNewGtid E g ?p s2 = Some s3"
    and s4: "(if runnable m then Enqueue g s3 else Some s3) = Some s4"
    and s': "(if \<not> in_discovery s4 \<and> orchs s4 ?p \<noteq> None then GetSchedParams E ?p g (s4\<lparr>num_tasks := num_tasks s4 + 1\<rparr>)
        else Some (s4\<lparr>num_tasks := num_tasks s4 + 1\<rparr>)) = Some s'"
    using assms(1) unfolding EdfScheduler_TaskNew_def by (auto simp: bind_eq_Some_conv Let_def split del: if_split)
  have t0: "task_map ?s0 g = Some EdfTask_init" by simp
  obtain t1 where t1: "task_map s1 g = Some t1" "kept EdfTask_init t1" and g1: "good b F None s1"
    using update_task_runtime_keep [OF s1 g0 t0] by auto
  have i1: "idle t1" using t1(2) by (simp add: kept_def EdfTask_init_def idle_def)
  let ?t2 = "t1\<lparr>seqnum := msg_seqnum m, run_state := kBlocked\<rparr>"
  have e2: "s2 = s1\<lparr>task_map := (task_map s1)(g \<mapsto> ?t2)\<rparr>" using s2 t1(1) by (auto simp: upd_task_def)
  have i2: "idle ?t2" by (simp add: idle_def)
  have g2: "good b F None s2" unfolding e2
    by (rule good_idle [OF g1 t1(1) i1 i2]) (use place(6) [OF g1 t1(1)] in \<open>auto simp: task_ok_def active_def\<close>)
  have t2: "task_map s2 g = Some ?t2" by (simp add: e2)
  obtain t3 where g3: "good b F None s3" and t3: "task_map s3 g = Some t3" "idle t3" using new_gtid_keep [OF s3 g2 t2 i2] by blast
  have "good b F None s4" using s4 g3 enqueue_idle(1) [OF _ g3 _ t3, of s4] by (auto split: if_splits)
  then show ?thesis using s' get_sched_params_keep [of E ?p g "s4\<lparr>num_tasks := num_tasks s4 + 1\<rparr>" s' b F] by (auto split: if_splits)
qed

section \<open>Known tasks\<close>

lemma off_current_eq:
  assumes "off_current g s = Some s'" and "task_map s g = Some t"
  shows "run_state t = kOnCpu" "s' = upd_ecpu (task_cpu t) (current_update (\<lambda>_. None)) s"
  using assms by (auto simp: off_current_def edf_cpu_state_of_def bind_eq_Some_conv)

text \<open>A running task has left its CPU, and is to be put into another state.\<close>

lemma off_current_keep:
  assumes "off_current g s = Some s'" and "good b F X s" and "task_map s g = Some t"
  shows "task_map s' g = Some t" "good b F X (s'\<lparr>task_map := (task_map s')(g \<mapsto> t\<lparr>run_state := kPaused\<rparr>)\<rparr>)"
    "next_task (cpu_states s' c) = next_task (cpu_states s c)"
proof -
  note o = off_current_eq [OF assms(1, 3)]
  show "task_map s' g = Some t" "next_task (cpu_states s' c) = next_task (cpu_states s c)" using assms(3) by (simp_all add: o(2) upd_ecpu_def)
  have "good b F X ((upd_ecpu (task_cpu t) (current_update (\<lambda>_. None)) s)\<lparr>task_map := (task_map s)(g \<mapsto> t\<lparr>run_state := kPaused\<rparr>)\<rparr>)"
    by (rule leave_cpu [OF assms(2, 3) o(1)]) (use place(6) [OF assms(2, 3)] in \<open>auto simp: task_ok_def active_def\<close>)
  then show "good b F X (s'\<lparr>task_map := (task_map s')(g \<mapsto> t\<lparr>run_state := kPaused\<rparr>)\<rparr>)" by (simp add: o(2) upd_ecpu_def)
qed

lemma runtime_off_keep:
  assumes "UpdateTaskRuntime g n u s = Some s1" and "off_current g s1 = Some s2" and "good b F X s" and "task_map s g = Some t"
  shows "\<exists>t2. task_map s2 g = Some t2 \<and> kept t t2 \<and> good b F X (s2\<lparr>task_map := (task_map s2)(g \<mapsto> t2\<lparr>run_state := kPaused\<rparr>)\<rparr>)"
proof -
  note k = update_task_runtime_keep [OF assms(1, 3, 4)]
  obtain t1 where t1: "task_map s1 g = Some t1" "kept t t1" using k(1) by auto
  from off_current_keep [OF assms(2) k(3) t1(1)] t1(2) show ?thesis by auto
qed

lemma task_runnable_keep:
  assumes "EdfScheduler_TaskRunnable g m s = Some s'" and "good b F None s"
  shows "good b F None s'"
proof -
  obtain t where t: "task_map s g = Some t" and st: "run_state t = kBlocked"
    and e: "Enqueue g (s\<lparr>task_map := (task_map s)(g \<mapsto> t\<lparr>prio_boost := \<not> deferrable m\<rparr>)\<rparr>) = Some s'"
    using assms(1) by (auto simp: EdfScheduler_TaskRunnable_def bind_eq_Some_conv upd_task_def)
  let ?t = "t\<lparr>prio_boost := \<not> deferrable m\<rparr>"
  have "good b F None (s\<lparr>task_map := (task_map s)(g \<mapsto> ?t)\<rparr>)"
    by (rule good_idle [OF assms(2) t]) (use st place(6) [OF assms(2) t] in \<open>auto simp: idle_def task_ok_def active_def\<close>)
  from enqueue_idle(1) [OF e this, of ?t] st show ?thesis by (simp add: idle_def)
qed

text \<open>Erasing a task that is in no place any more.\<close>

lemma free_keep:
  assumes "FreeTask f g s = Some s'" and "task_map s g = Some t" and "good b F None (s\<lparr>task_map := (task_map s)(g \<mapsto> t\<lparr>run_state := kPaused\<rparr>)\<rparr>)"
  shows "good b F None s'"
proof -
  have s': "s' = s\<lparr>task_map := (task_map s)(g := None)\<rparr>" using assms(1) by (auto simp: FreeTask_def bind_eq_Some_conv)
  from good_erase [OF assms(3), of g "t\<lparr>run_state := kPaused\<rparr>"] show ?thesis by (simp add: s')
qed

lemma park_idle:
  assumes "good b F X s" and "task_map s g = Some t" and "idle t"
  shows "good b F X (s\<lparr>task_map := (task_map s)(g \<mapsto> t\<lparr>run_state := kPaused\<rparr>)\<rparr>)"
  by (rule good_idle [OF assms]) (use place(6) [OF assms(1, 2)] in \<open>auto simp: task_ok_def active_def\<close>)

lemma task_departed_keep:
  assumes "EdfScheduler_TaskDeparted E g m s = Some s'" and "good b F None s"
  shows "good b F None s'"
proof -
  obtain t0 s1 t1 s2 s3 where t0: "task_map s g = Some t0" and s1: "(if run_state t0 = kYielding then Unyield g s else Some s) = Some s1"
    and t1: "task_map s1 g = Some t1"
    and s2: "(if run_state t1 = kOnCpu then off_current g s1 else if run_state t1 = kQueued then RemoveFromRunqueue g s1
           else do { CHECK (run_state t1 = kBlocked \<or> run_state t1 = kPaused); Some s1 }) = Some s2"
    and s3: "FreeTask (sw_free E) g s2 = Some s3" and s': "s' = s3\<lparr>num_tasks := num_tasks s3 - 1\<rparr>"
    using assms(1) unfolding EdfScheduler_TaskDeparted_def by (auto simp: bind_eq_Some_conv)
  have g1: "good b F None s1" using s1 assms(2) unyield_keep(1) [OF _ assms(2) _ t0, of s1] by (auto split: if_splits)
  consider "off_current g s1 = Some s2" | "RemoveFromRunqueue g s1 = Some s2" | "idle t1" "s2 = s1"
    using s2 by (auto simp: idle_def bind_eq_Some_conv split: if_splits)
  then obtain t2 where t2: "task_map s2 g = Some t2" "good b F None (s2\<lparr>task_map := (task_map s2)(g \<mapsto> t2\<lparr>run_state := kPaused\<rparr>)\<rparr>)"
  proof cases
    case 1
    then show ?thesis using that off_current_keep [OF 1 g1 t1] by blast
  next
    case 2
    note k = remove_keep [OF 2 g1 _ t1, simplified]
    show ?thesis using that [OF k(4)] park_idle [OF k(1, 4)] by simp
  next
    case 3
    then show ?thesis using that park_idle [OF g1 t1] t1 by blast
  qed
  from free_keep [OF s3 t2] show ?thesis by (simp add: s')
qed

lemma task_dead_keep:
  assumes "EdfScheduler_TaskDead E g m s = Some s'" and "good b F None s"
  shows "good b F None s'"
proof -
  obtain t s1 where t: "task_map s g = Some t" "run_state t = kBlocked" and s1: "FreeTask (sw_free E) g s = Some s1" "s' = s1\<lparr>num_tasks := num_tasks s1 - 1\<rparr>"
    using assms(1) by (auto simp: EdfScheduler_TaskDead_def bind_eq_Some_conv)
  from free_keep [OF s1(1) t(1) park_idle [OF assms(2) t(1)]] t(2) show ?thesis by (simp add: s1(2) idle_def)
qed

lemma task_blocked_keep:
  assumes "EdfScheduler_TaskBlocked g m s = Some s'" and "good b F None s"
  shows "good b F None s'"
proof -
  obtain t s1 where t: "task_map s g = Some t" and c: "(\<exists>s0. UpdateTaskRuntime g (Nanoseconds (runtime m)) True s = Some s0 \<and> off_current g s0 = Some s1)
      \<or> RemoveFromRunqueue g s = Some s1 \<or> (run_state t = kPaused \<and> s1 = s)" and s': "set_state g kBlocked s1 = Some s'"
    using assms(1) unfolding EdfScheduler_TaskBlocked_def by (auto simp: bind_eq_Some_conv split: if_splits)
  obtain t1 where t1: "task_map s1 g = Some t1" and g1: "good b F None (s1\<lparr>task_map := (task_map s1)(g \<mapsto> t1\<lparr>run_state := kPaused\<rparr>)\<rparr>)"
    using c
  proof (elim disjE exE conjE)
    fix s0 assume "UpdateTaskRuntime g (Nanoseconds (runtime m)) True s = Some s0" "off_current g s0 = Some s1"
    from runtime_off_keep [OF this assms(2) t] show ?thesis using that by blast
  next
    assume r: "RemoveFromRunqueue g s = Some s1"
    note k = remove_keep [OF r assms(2) _ t, simplified]
    show ?thesis using that [OF k(4)] park_idle [OF k(1, 4)] by simp
  next
    assume "run_state t = kPaused" "s1 = s"
    then show ?thesis using that [of t] t park_idle [OF assms(2) t] by (simp add: idle_def)
  qed
  let ?s = "s1\<lparr>task_map := (task_map s1)(g \<mapsto> t1\<lparr>run_state := kPaused\<rparr>)\<rparr>"
  have tp: "task_map ?s g = Some (t1\<lparr>run_state := kPaused\<rparr>)" by simp
  have "good b F None (?s\<lparr>task_map := (task_map ?s)(g \<mapsto> t1\<lparr>run_state := kBlocked\<rparr>)\<rparr>)"
    by (rule good_idle [OF g1 tp]) (use place(6) [OF g1 tp] in \<open>auto simp: task_ok_def active_def\<close>)
  then show ?thesis using s' t1 by (simp add: set_state_def upd_task_def)
qed

lemma task_preempted_keep:
  assumes "EdfScheduler_TaskPreempted g m s = Some s'" and "good b F None s"
  shows "good b F None s'"
proof -
  obtain t where t: "task_map s g = Some t" using assms(1) by (auto simp: EdfScheduler_TaskPreempted_def bind_eq_Some_conv upd_task_Some)
  let ?t = "t\<lparr>preempted := True, prio_boost := True\<rparr>" and ?s = "s\<lparr>task_map := (task_map s)(g \<mapsto> t\<lparr>preempted := True, prio_boost := True\<rparr>)\<rparr>"
  note p = place(6) [OF assms(2) t]
  have g1: "good b F X ?s" if "good b F X s" "run_state t \<noteq> kQueued \<or> X = Some g" for X
    by (rule good_same [OF that(1) t]) (use that(2) place(6) [OF that(1) t] in \<open>auto simp: task_ok_def active_def\<close>)
  have t1: "task_map ?s g = Some ?t" by simp
  consider (on) s1 s2 where "run_state t = kOnCpu" "UpdateTaskRuntime g (Nanoseconds (runtime m)) True ?s = Some s1" "off_current g s1 = Some s2" "Enqueue g s2 = Some s'"
    | (queued) "run_state t = kQueued" "UpdateRunqueue g ?s = Some s'" | (paused) "run_state t = kPaused" "s' = ?s"
    using assms(1) t by (auto simp: EdfScheduler_TaskPreempted_def bind_eq_Some_conv upd_task_def split: if_splits)
  then show ?thesis
  proof cases
    case on
    have "good b F None ?s" using g1 assms(2) on(1) by simp
    from runtime_off_keep [OF on(2, 3) this t1] obtain t2 where t2: "task_map s2 g = Some t2"
      "good b F None (s2\<lparr>task_map := (task_map s2)(g \<mapsto> t2\<lparr>run_state := kPaused\<rparr>)\<rparr>)" by blast
    from enqueue_keep(1) [OF on(4) t2] show ?thesis by simp
  next
    case queued
    have "has_work ?t" using p queued(1) by (simp add: task_ok_def active_def)
    with update_keep(1) [OF queued(2) _ t1] g1 good_weaken [OF assms(2)] show ?thesis by blast
  next
    case paused
    then show ?thesis using g1 assms(2) by simp
  qed
qed

lemma task_yield_keep:
  assumes "EdfScheduler_TaskYield g m s = Some s'" and "good b F None s"
  shows "good b F None s'"
proof -
  obtain t where t: "task_map s g = Some t" using assms(1) by (auto simp: EdfScheduler_TaskYield_def bind_eq_Some_conv)
  consider (on) s1 s2 where "run_state t = kOnCpu" "UpdateTaskRuntime g (Nanoseconds (runtime m)) True s = Some s1" "off_current g s1 = Some s2" "Yield g s2 = Some s'"
    | "s' = s"
    using assms(1) t by (auto simp: EdfScheduler_TaskYield_def bind_eq_Some_conv split: if_splits)
  then show ?thesis
  proof cases
    case on
    from runtime_off_keep [OF on(2, 3) assms(2) t] obtain t2 where t2: "task_map s2 g = Some t2" "kept t t2"
      "good b F None (s2\<lparr>task_map := (task_map s2)(g \<mapsto> t2\<lparr>run_state := kPaused\<rparr>)\<rparr>)" by blast
    have "has_work t2" using place(6) [OF assms(2) t] on(1) t2(2) by (simp add: task_ok_def active_def kept_def)
    from yield_keep(1) [OF on(4) t2(1, 3) this] show ?thesis .
  qed (use assms(2) in simp)
qed

lemma edf_later:
  assumes "good b F None s" and "h \<in> later_handlers (EdfScheduler_handlers E)" and "h g m s = Some s'"
  shows "good b F None s'"
  using assms(2, 3) task_runnable_keep task_dead_keep task_departed_keep task_yield_keep task_blocked_keep task_preempted_keep assms(1)
  unfolding later_handlers_def EdfScheduler_handlers_def by (auto simp: ignore_task_def)

section \<open>The contract\<close>

text \<open>The environments that are admitted when the order is part of the invariant.\<close>

definition calmed :: "edf_env \<Rightarrow> edf_env" where
  "calmed E = (if calm E then E else E\<lparr>item := (\<lambda>p k i. (item E p k i)\<lparr>rd_begin := 0, rd_end := 0\<rparr>)\<rparr>)"

lemma calm_calmed [simp]: "calm (calmed E)"
  by (simp add: calmed_def calm_def read_end_def)

definition edf_handlers :: "bool \<Rightarrow> edf_env \<Rightarrow> (EdfTask, EdfScheduler) handlers" where
  "edf_handlers b E = EdfScheduler_handlers (if b then calmed E else E)"

lemma edf_handlers_eq: "b \<longrightarrow> calm E \<Longrightarrow> edf_handlers b E = EdfScheduler_handlers E"
  by (auto simp: edf_handlers_def calmed_def)

lemma discovery_complete_keep:
  assumes "EdfScheduler_DiscoveryComplete E s = Some s'" and "good b F None s" and "b \<longrightarrow> calm E"
  shows "good b F None s'"
proof -
  obtain s1 where s1: "for_orchs E (\<lambda>p. RefreshAllSchedParams E p 0) s = Some s1" "s' = s1\<lparr>in_discovery := False\<rparr>"
    using assms(1) by (auto simp: EdfScheduler_DiscoveryComplete_def bind_eq_Some_conv)
  have "good b F None s1" by (rule for_orchs_keep [OF s1(1)]) (use assms(2, 3) refresh_all_keep in auto)
  then show ?thesis by (simp add: s1(2))
qed

interpretation edf: handler_contract "edf_handlers b" "good b {} None" for b
proof unfold_locales
  fix s :: EdfScheduler and g t h k m s' c
  assume inv: "good b {} None s"
  { assume "task_map s g = None" "TaskNew (edf_handlers b k) g m (s\<lparr>task_map := (task_map s)(g \<mapsto> AllocTask (edf_handlers b k) g)\<rparr>) = Some s'"
    then show "good b {} None s'" using task_new_keep [OF _ inv] by (auto simp: edf_handlers_def EdfScheduler_handlers_def) }
  { assume "h \<in> later_handlers (edf_handlers b k)" "h g m s = Some s'"
    then show "good b {} None s'" using edf_later [OF inv] by (auto simp: edf_handlers_def) }
  { fix n assume t: "task_map s g = Some t"
    show "good b {} None (s\<lparr>task_map := (task_map s)(g \<mapsto> t\<lparr>seqnum := n\<rparr>)\<rparr>)"
      by (rule good_same [OF inv t]) (use place(6) [OF inv t] in \<open>auto simp: task_ok_def active_def\<close>) }
  { assume "DiscoveryComplete (edf_handlers b k) s = Some s'"
    then show "good b {} None s'" using discovery_complete_keep [OF _ inv] by (auto simp: edf_handlers_def EdfScheduler_handlers_def split: if_splits) }
qed (auto simp: cpu_handlers_def edf_handlers_def EdfScheduler_handlers_def ignore_msg_def EdfScheduler_DiscoveryStart_def)

end
