(* ===== verification/Edf_Global.thy ===== *)
theory Edf_Global
  imports Edf_Handlers
begin

text \<open>
  The global decision of the EDF scheduler: the tasks that are taken out of the run queue end on the
  CPUs they have been chosen for, or in the run queue again.
\<close>

section \<open>Choosing tasks\<close>

lemma yield_chosen:
  assumes "Yield g s = Some s'" and "good b F None s" and "g \<in> F"
  shows "good b (F - {g}) None s'" "edf_frame s s'"
proof -
  obtain t where t: "task_map s g = Some t" using assms(1) by (auto simp: Yield_def bind_eq_Some_conv)
  have st: "run_state t = kQueued" using place(2) [OF assms(2) t assms(3)] .
  have w: "has_work t" using place(6) [OF assms(2) t] st by (simp add: task_ok_def active_def)
  have "good b (F - {g}) None (s\<lparr>task_map := (task_map s)(g \<mapsto> t\<lparr>run_state := kPaused\<rparr>)\<rparr>)"
    by (rule leave_chosen [OF assms(2) t assms(3)]) (use place(6) [OF assms(2) t] in \<open>auto simp: task_ok_def active_def\<close>)
  from yield_keep [OF assms(1) t this w] show "good b (F - {g}) None s'" "edf_frame s s'" .
qed

lemma enqueue_chosen:
  assumes "Enqueue g s = Some s'" and "good b F None s" and "g \<in> F"
  shows "good b (F - {g}) None s'" "edf_frame s s'"
proof -
  obtain t where t: "task_map s g = Some t" using assms(1) by (auto simp: Enqueue_def bind_eq_Some_conv)
  have "good b (F - {g}) None (s\<lparr>task_map := (task_map s)(g \<mapsto> t\<lparr>run_state := kPaused\<rparr>)\<rparr>)"
    by (rule leave_chosen [OF assms(2) t assms(3)]) (use place(6) [OF assms(2) t] in \<open>auto simp: task_ok_def active_def\<close>)
  from enqueue_keep(1, 2) [OF assms(1) t this] show "good b (F - {g}) None s'" "edf_frame s s'" by simp_all
qed

lemma edf_frame_trans: "edf_frame s s1 \<Longrightarrow> edf_frame s1 s2 \<Longrightarrow> edf_frame s s2"
  by (simp add: edf_frame_def)

lemma pick_for_keep:
  assumes "pick_for E c s = Some (s', r, stop)" and "good b F None s"
  shows "edf_frame s s' \<and> (case r of None \<Rightarrow> good b F None s' | Some g \<Rightarrow> g \<notin> F \<and> good b (insert g F) None s')"
  using assms
proof (induction E c s rule: pick_for.induct)
  case (1 E c s)
  obtain keep where keep: "keep_current c s = Some keep" using 1(2) by (subst (asm) pick_for.simps) (auto simp: bind_eq_Some_conv)
  show ?case
  proof (cases keep)
    case True
    then show ?thesis using 1(2, 3) keep by (subst (asm) pick_for.simps) simp
  next
    case False
    obtain q s1 where d: "Dequeue s = Some (q, s1)" using dequeue_total [OF 1(3)] by blast
    show ?thesis
    proof (cases q)
      case None
      then have "s1 = s" using dequeue_total [OF 1(3)] d by auto
      then show ?thesis using 1(2, 3) keep False d None by (subst (asm) pick_for.simps) simp
    next
      case (Some g)
      note k = dequeue_keep [OF d [unfolded Some] 1(3)]
      show ?thesis
      proof (cases "sw_on_cpu E g")
        case True
        obtain s2 where y: "Yield g s1 = Some s2" and r: "pick_for E c s2 = Some (s', r, stop)"
          using 1(2) keep False d Some True by (subst (asm) pick_for.simps) (auto simp: bind_eq_Some_conv)
        have g2: "good b F None s2" "edf_frame s s2"
          using yield_chosen [OF y k(1)] k(2, 3) edf_frame_trans by auto
        from 1(1) [OF keep False d refl Some True y r g2(1)] show ?thesis using g2(2) edf_frame_trans by blast
      next
        case no: False
        then show ?thesis using 1(2) keep False d Some k by (subst (asm) pick_for.simps) auto
      qed
    qed
  qed
qed

text \<open>The tasks that have been chosen for the CPUs \<open>cs\<close>.\<close>

definition next_of :: "EdfScheduler \<Rightarrow> nat \<Rightarrow> gtid option" where
  "next_of s c = next_task (cpu_states s (int c))"

definition chosen :: "bool \<Rightarrow> cpu_map \<Rightarrow> nat set \<Rightarrow> EdfScheduler \<Rightarrow> bool" where
  "chosen b C cs s \<longleftrightarrow> cpus s = C \<and> cs \<subseteq> {c. has_cpu C c} \<and> (\<forall>c \<in> cs. next_of s c \<noteq> None) \<and> inj_on (next_of s) cs
     \<and> good b {g. \<exists>c \<in> cs. next_of s c = Some g} None s"

lemma chosen_add:
  assumes "chosen b C cs s" and "edf_frame s s'" and "c \<notin> cs" and "has_cpu C c"
    and "g \<notin> {g. \<exists>c \<in> cs. next_of s c = Some g}" and "good b (insert g {g. \<exists>c \<in> cs. next_of s c = Some g}) None s'"
  shows "chosen b C (insert c cs) (upd_ecpu (int c) (next_task_update (\<lambda>_. Some g)) s')"
proof -
  let ?s = "upd_ecpu (int c) (next_task_update (\<lambda>_. Some g)) s'"
  have n: "next_of ?s d = (if d = c then Some g else next_of s d)" for d using assms(2) by (simp add: next_of_def upd_ecpu_def edf_frame_def)
  have "{h. \<exists>d \<in> insert c cs. next_of ?s d = Some h} = insert g {g. \<exists>c \<in> cs. next_of s c = Some g}" using assms(3) by (auto simp: n)
  moreover have "inj_on (next_of ?s) (insert c cs)" using assms(1, 3, 5) by (auto simp: n inj_on_def chosen_def)
  moreover have "cpus ?s = C" using assms(1, 2) by (simp add: chosen_def edf_frame_def upd_ecpu_def)
  ultimately show ?thesis using assms(1, 4, 6) by (auto simp: chosen_def n)
qed

lemma chosen_frame: "chosen b C cs s \<Longrightarrow> edf_frame s s' \<Longrightarrow> good b {g. \<exists>c \<in> cs. next_of s c = Some g} None s' \<Longrightarrow> chosen b C cs s'"
proof -
  assume a: "chosen b C cs s" "edf_frame s s'" "good b {g. \<exists>c \<in> cs. next_of s c = Some g} None s'"
  have "next_of s' = next_of s" using a(2) by (auto simp: next_of_def edf_frame_def)
  then show ?thesis using a by (simp add: chosen_def edf_frame_def)
qed

definition pick_step :: "edf_env \<Rightarrow> nat \<Rightarrow> EdfScheduler \<times> cpu_map \<times> bool \<Rightarrow> (EdfScheduler \<times> cpu_map \<times> bool) option" where
  "pick_step E c = (\<lambda>(s, updated, stop).
     if stop \<or> \<not> avail E (int c) \<or> int c = global_cpu s then Some (s, updated, stop)
     else do {
       (s, to_run, stop) \<leftarrow> pick_for E (int c) s;
       case to_run of None \<Rightarrow> Some (s, updated, stop)
       | Some g \<Rightarrow> do {
           updated \<leftarrow> cpu_set c updated;
           Some (upd_ecpu (int c) (next_task_update (\<lambda>_. Some g)) s, updated, stop) } })"

lemma pick_step_keep:
  assumes "pick_step E c (s, u, stop) = Some (s', u', stop')" and "chosen b C {d. has_cpu u d} s" and "map_ok u" and "topo_cpus u = topo_cpus C"
    and "map_ok C" and "c < topo_cpus C" and "has_cpu C c" and "\<not> has_cpu u c"
  shows "chosen b C {d. has_cpu u' d} s'" "map_ok u'" "topo_cpus u' = topo_cpus C" "\<And>d. has_cpu u' d \<Longrightarrow> has_cpu u d \<or> d = c"
proof -
  have "chosen b C {d. has_cpu u' d} s' \<and> map_ok u' \<and> topo_cpus u' = topo_cpus C \<and> (\<forall>d. has_cpu u' d \<longrightarrow> has_cpu u d \<or> d = c)"
  proof (cases "stop \<or> \<not> avail E (int c) \<or> int c = global_cpu s")
    case True
    then show ?thesis using assms(1-4) by (auto simp: pick_step_def)
  next
    case False
    obtain s1 r st where p: "pick_for E (int c) s = Some (s1, r, st)" using assms(1) False by (auto simp: pick_step_def bind_eq_Some_conv)
    have g: "good b {g. \<exists>d \<in> {d. has_cpu u d}. next_of s d = Some g} None s" using assms(2) by (simp add: chosen_def)
    note k = pick_for_keep [OF p g]
    show ?thesis
    proof (cases r)
      case None
      then have "s' = s1" "u' = u" using assms(1) False p by (auto simp: pick_step_def)
      then show ?thesis using chosen_frame [OF assms(2)] k None assms(3, 4) by auto
    next
      case (Some h)
      have cb: "c < MAX_CPUS" "c < 64 * map_size u" using assms(3-6) map_ok_size [OF assms(3)] by (auto simp: map_ok_def)
      obtain v where v: "cpu_set c u = Some v" "map_ok v" "topo_cpus v = topo_cpus u" "map_size v = map_size u"
        "\<And>j. has_cpu v j \<longleftrightarrow> (if j = c then c < 64 * map_size u else has_cpu u j)"
        using cpu_set_spec [OF assms(3) cb(1)] by blast
      have e: "u' = v" "s' = upd_ecpu (int c) (next_task_update (\<lambda>_. Some h)) s1" using assms(1) False p Some v(1) by (auto simp: pick_step_def)
      have "{d. has_cpu u' d} = insert c {d. has_cpu u d}" using v(5) cb(2) by (auto simp: e(1))
      then have "chosen b C {d. has_cpu u' d} s'"
        using chosen_add [OF assms(2) _ _ assms(7), of s1 h] k Some assms(8) by (auto simp: e(2))
      then show ?thesis using v(2, 3, 5) assms(4) by (auto simp: e(1))
    qed
  qed
  then show "chosen b C {d. has_cpu u' d} s'" "map_ok u'" "topo_cpus u' = topo_cpus C" "\<And>d. has_cpu u' d \<Longrightarrow> has_cpu u d \<or> d = c" by blast+
qed

lemma pick_steps_keep:
  assumes "mfold (pick_step E) cs (s, u, stop) = Some (s', u', stop')" and "chosen b C {d. has_cpu u d} s" and "map_ok u" and "topo_cpus u = topo_cpus C"
    and "map_ok C" and "\<forall>c \<in> set cs. c < topo_cpus C \<and> has_cpu C c \<and> \<not> has_cpu u c" and "distinct cs"
  shows "chosen b C {d. has_cpu u' d} s' \<and> map_ok u' \<and> topo_cpus u' = topo_cpus C"
  using assms
proof (induction cs arbitrary: s u stop)
  case (Cons c cs)
  obtain s1 u1 st1 where st: "pick_step E c (s, u, stop) = Some (s1, u1, st1)" and r: "mfold (pick_step E) cs (s1, u1, st1) = Some (s', u', stop')"
    using Cons.prems(1) by (auto simp: bind_eq_Some_conv)
  note k = pick_step_keep [OF st Cons.prems(2-5)]
  show ?case by (rule Cons.IH [OF r]) (use k Cons.prems(5-7) in auto)
qed simp

lemma pick_all_keep:
  assumes "pick_all E s = Some (s', u)" and "good b {} None s"
  shows "chosen b (cpus s) {d. has_cpu u d} s'" "map_ok u" "in_topology u"
proof -
  note c = coreD [OF goodD [OF assms(2)]]
  obtain u0 where u0: "CpuMap_init (topo_cpus (cpus s)) = Some u0" "map_ok u0" "topo_cpus u0 = topo_cpus (cpus s)" "\<And>i. \<not> has_cpu u0 i"
    using init_spec [of "topo_cpus (cpus s)"] c(1) by (auto simp: map_ok_def)
  obtain st where f: "for_cpus (cpus s) (pick_step E) (s, u0, False) = Some (s', u, st)"
    using assms(1) u0(1) unfolding pick_all_def pick_step_def by (auto simp: bind_eq_Some_conv)
  have ch: "chosen b (cpus s) {d. has_cpu u0 d} s" using assms(2) u0(4) by (simp add: chosen_def)
  have "chosen b (cpus s) {d. has_cpu u d} s' \<and> map_ok u \<and> topo_cpus u = topo_cpus (cpus s)"
    by (rule pick_steps_keep [OF f [unfolded for_cpus_ids [OF c(1, 2)]] ch u0(2, 3) c(1)]) (use u0(4) c(2) in \<open>auto simp: in_topology_iff\<close>)
  then show "chosen b (cpus s) {d. has_cpu u d} s'" "map_ok u" "in_topology u" using c(2) by (auto simp: chosen_def in_topology_iff)
qed

section \<open>Committing\<close>

text \<open>A chosen task starts on an idle CPU.\<close>

lemma start_chosen:
  assumes "good b F None s" and "n \<in> F" and "task_map s n = Some t" and "current (cpu_states s c) = None" and "c \<in> int ` {c. has_cpu (cpus s) c}"
    and "run_state t' = kOnCpu" and "task_cpu t' = c" and "rq_pos t' = rq_pos t" and "has_work t' = has_work t" and "sp t' = sp t"
    and "estimated_runtime t' = estimated_runtime t"
  shows "good b (F - {n}) None ((upd_ecpu c (current_update (\<lambda>_. Some n)) s)\<lparr>task_map := (task_map s)(n \<mapsto> t')\<rparr>)"
proof -
  let ?t = "t\<lparr>run_state := kPaused\<rparr>"
  let ?s = "s\<lparr>task_map := (task_map s)(n \<mapsto> ?t)\<rparr>"
  have st: "run_state t = kQueued" using place(2) [OF assms(1, 3, 2)] .
  note ok = place(6) [OF assms(1, 3)]
  have w: "has_work t" using ok st by (simp add: task_ok_def active_def)
  have g: "good b (F - {n}) None ?s" by (rule leave_chosen [OF assms(1, 3, 2)]) (use ok in \<open>auto simp: task_ok_def active_def\<close>)
  have t: "task_map ?s n = Some ?t" by simp
  have "good b (F - {n}) None ((upd_ecpu c (current_update (\<lambda>_. Some n)) ?s)\<lparr>task_map := (task_map ?s)(n \<mapsto> t')\<rparr>)"
    by (rule enter_cpu [OF g t]) (use assms(4-11) ok w in \<open>auto simp: task_ok_def active_def\<close>)
  then show ?thesis by (simp add: upd_ecpu_def)
qed

lemma preempt_some:
  assumes "PreemptTask E prev (Some n) bt s = Some (ok, s')" and "good b F None s" and "n \<in> F" and "task_map s prev = Some t" and "prev \<noteq> n"
  shows "cpus s' = cpus s" "next_of s' d = next_of s d"
    "if ok then good b (F - {n}) None s' \<and> current (cpu_states s' (task_cpu t)) = Some n \<and> (\<exists>t'. task_map s' prev = Some t' \<and> idle t')
     else good b F None s'"
proof -
  let ?c = "task_cpu t"
  obtain tn where tn: "task_map s n = Some tn" using assms(1, 4, 5) by (auto simp: PreemptTask_def bind_eq_Some_conv)
  have st: "run_state t = kOnCpu" using assms(1, 4) by (auto simp: PreemptTask_def bind_eq_Some_conv)
  let ?s0 = "s\<lparr>txns := txns s @ [(?c, Some n, seqnum tn, Some bt)]\<rparr>" and ?tp = "t\<lparr>run_state := kPaused\<rparr>" and ?tn = "tn\<lparr>run_state := kOnCpu, task_cpu := ?c\<rparr>"
  have okE: "ok = commit_ok E ?c (Some n)" using assms(1, 4, 5) tn by (auto simp: PreemptTask_def bind_eq_Some_conv split: if_splits)
  have "cpus s' = cpus s \<and> next_of s' d = next_of s d \<and> (if ok then good b (F - {n}) None s' \<and> current (cpu_states s' ?c) = Some n \<and> (\<exists>t'. task_map s' prev = Some t' \<and> idle t')
     else good b F None s')"
  proof (cases ok)
    case False
    then have "s' = ?s0" using assms(1, 4, 5) tn okE by (auto simp: PreemptTask_def bind_eq_Some_conv)
    then show ?thesis using False assms(2) by (simp add: next_of_def)
  next
    case True
    obtain t' where t': "SetRuntime (Nanoseconds (sw_runtime E prev)) True ?tp = Some t'"
      and s': "s' = (upd_ecpu ?c (current_update (\<lambda>_. Some n)) s)\<lparr>task_map := (task_map s)(prev \<mapsto> t', n \<mapsto> ?tn), txns := txns ?s0\<rparr>"
      using assms(1, 4, 5) tn okE True
      by (auto simp: PreemptTask_def bind_eq_Some_conv set_state_def upd_task_def upd_ecpu_def UpdateRuntime_def on_task_def fun_upd_twist)
    have k: "kept ?tp t'" using set_runtime_kept [OF t'] by simp
    let ?s1 = "(upd_ecpu ?c (current_update (\<lambda>_. None)) s)\<lparr>task_map := (task_map s)(prev \<mapsto> ?tp)\<rparr>"
    have g1: "good b F None ?s1" by (rule leave_cpu [OF assms(2, 4) st]) (use place(6) [OF assms(2, 4)] in \<open>auto simp: task_ok_def active_def\<close>)
    let ?s2 = "?s1\<lparr>task_map := (task_map ?s1)(prev \<mapsto> t')\<rparr>"
    have g2: "good b F None ?s2" by (rule good_kept [OF g1 _ k]) simp_all
    have cpu: "?c \<in> int ` {c. has_cpu (cpus s) c}" using place(6) [OF assms(2, 4)] st by (simp add: task_ok_def)
    have "good b (F - {n}) None ((upd_ecpu ?c (current_update (\<lambda>_. Some n)) ?s2)\<lparr>task_map := (task_map ?s2)(n \<mapsto> ?tn)\<rparr>)"
      by (rule start_chosen [OF g2 assms(3), of tn]) (use tn assms(5) cpu in \<open>auto simp: upd_ecpu_def\<close>)
    moreover have "idle t'" using k by (simp add: kept_def idle_def)
    ultimately show ?thesis using True assms(5) by (simp add: s' upd_ecpu_def next_of_def)
  qed
  then show "cpus s' = cpus s" "next_of s' d = next_of s d"
    "if ok then good b (F - {n}) None s' \<and> current (cpu_states s' (task_cpu t)) = Some n \<and> (\<exists>t'. task_map s' prev = Some t' \<and> idle t')
     else good b F None s'" by simp_all
qed

text \<open>After a commit the chosen task is on the CPU, or still to be placed.\<close>

lemma commit_keep:
  assumes "commit_next E bt c (Some n) s = Some (ok, s')" and "good b F None s" and "n \<in> F" and "current (cpu_states s c) \<noteq> Some n"
  shows "cpus s' = cpus s" "next_of s' d = next_of s d"
    "if ok then good b (F - {n}) None s' \<and> current (cpu_states s' c) = Some n \<or> good b F None s' \<and> current (cpu_states s' c) = None else good b F None s'"
proof -
  have "cpus s' = cpus s \<and> next_of s' d = next_of s d \<and> (if ok then good b (F - {n}) None s' \<and> current (cpu_states s' c) = Some n
      \<or> good b F None s' \<and> current (cpu_states s' c) = None else good b F None s')"
  proof (cases "current (cpu_states s c)")
    case None
    then show ?thesis using assms(1, 2) by (auto simp: commit_next_def bind_eq_Some_conv next_of_def)
  next
    case (Some prev)
    obtain s1 where p: "PreemptTask E prev (Some n) bt s = Some (ok, s1)" and r: "(if ok then Enqueue prev s1 else Some s1) = Some s'"
      using assms(1) Some by (auto simp: commit_next_def bind_eq_Some_conv split: if_splits)
    obtain t where t: "task_map s prev = Some t" "task_cpu t = c" using coreD(9) [OF goodD [OF assms(2)], of c prev] Some by auto
    have ne: "prev \<noteq> n" using assms(4) Some by auto
    note k = preempt_some [OF p assms(2, 3) t(1) ne]
    show ?thesis
    proof (cases ok)
      case True
      then obtain t' where t': "task_map s1 prev = Some t'" "idle t'" and g1: "good b (F - {n}) None s1" and c1: "current (cpu_states s1 c) = Some n"
        using k(3) t(2) by auto
      have e: "Enqueue prev s1 = Some s'" using r True by simp
      have "good b (F - {n}) None s'" "edf_frame s1 s'" using enqueue_idle [OF e g1 _ t'] by simp_all
      then show ?thesis using True k(1, 2) c1 by (simp add: edf_frame_def next_of_def)
    qed (use k r in auto)
  qed
  then show "cpus s' = cpus s" "next_of s' d = next_of s d"
    "if ok then good b (F - {n}) None s' \<and> current (cpu_states s' c) = Some n \<or> good b F None s' \<and> current (cpu_states s' c) = None else good b F None s'"
    by simp_all
qed

lemma sync_task:
  assumes "good b F None s \<and> n \<in> F \<and> current (cpu_states s c) = None \<or> good b (F - {n}) None s \<and> current (cpu_states s c) = Some n"
    and "c \<in> int ` {c. has_cpu (cpus s) c}"
    and "upd_task n (\<lambda>t. t\<lparr>run_state := kOnCpu, task_cpu := c, preempted := False, prio_boost := False\<rparr>) (upd_ecpu c (current_update (\<lambda>_. Some n)) s) = Some s'"
  shows "good b (F - {n}) None s'"
proof -
  obtain t where t: "task_map s n = Some t" and s': "s' = (upd_ecpu c (current_update (\<lambda>_. Some n)) s)\<lparr>task_map := (task_map s)(n \<mapsto>
      t\<lparr>run_state := kOnCpu, task_cpu := c, preempted := False, prio_boost := False\<rparr>)\<rparr>"
    using assms(3) by (auto simp: upd_task_Some upd_ecpu_def)
  show ?thesis using assms(1)
  proof (elim disjE conjE)
    assume "good b F None s" "n \<in> F" "current (cpu_states s c) = None"
    from start_chosen [OF this(1, 2) t this(3) assms(2)] show ?thesis by (simp add: s')
  next
    assume g: "good b (F - {n}) None s" and cur: "current (cpu_states s c) = Some n"
    let ?t = "t\<lparr>run_state := kOnCpu, task_cpu := c, preempted := False, prio_boost := False\<rparr>"
    have st: "run_state t = kOnCpu" "task_cpu t = c" using place(5) [OF g t, of c] cur by simp_all
    have "good b (F - {n}) None (s\<lparr>task_map := (task_map s)(n \<mapsto> ?t)\<rparr>)"
      by (rule good_same [OF g t]) (use st place(6) [OF g t] in \<open>auto simp: task_ok_def active_def\<close>)
    moreover have "upd_ecpu c (current_update (\<lambda>_. Some n)) s = s" using cur by (simp add: upd_ecpu_def fun_upd_idem)
    ultimately show ?thesis by (simp add: s')
  qed
qed

lemma sync_cpu_keep:
  assumes "sync_cpu E bt c (s, sync) = Some (s', sync')" and "chosen b C (insert c cs) s" and "c \<notin> cs"
  shows "chosen b C cs s'"
proof -
  let ?F = "{g. \<exists>d \<in> insert c cs. next_of s d = Some g}"
  obtain n where n: "next_of s c = Some n" using assms(2) by (auto simp: chosen_def)
  define s0 where "s0 = upd_ecpu (int c) (next_task_update (\<lambda>_. None)) s"
  have g0: "good b ?F None s0" using assms(2) unfolding chosen_def s0_def good_fields by blast
  have cp: "cpus s0 = C" "has_cpu C c" using assms(2) by (auto simp: chosen_def s0_def upd_ecpu_def)
  have nF: "n \<in> ?F" using n by auto
  obtain t where t: "task_map s0 n = Some t" using coreD(5) [OF goodD [OF g0] nF] by (auto simp: in_st_def)
  have cur: "current (cpu_states s0 (int c)) \<noteq> Some n" using place(2, 5) [OF g0 t] nF by auto
  have nx: "next_task (cpu_states s (int c)) = Some n" using n by (simp add: next_of_def)
  have inj: "n \<notin> {g. \<exists>d \<in> cs. next_of s d = Some g}" using assms(2, 3) n by (auto simp: chosen_def inj_on_def)
  have F: "?F - {n} = {g. \<exists>d \<in> cs. next_of s d = Some g}" using inj n by auto
  have nn: "next_of s0 d = next_of s d" if "d \<in> cs" for d using that assms(3) by (auto simp: next_of_def s0_def upd_ecpu_def)
  have fin: "chosen b C cs s'" if "cpus s' = C" "\<And>d. next_of s' d = next_of s0 d" "good b (?F - {n}) None s'"
    using that assms(2) nn F by (auto simp: chosen_def inj_on_def)
  obtain s1 where s1: "(if sync then commit_next E bt (int c) (Some n) s0 else Some (False, s0)) = Some (sync', s1)"
    and r: "(if \<not> sync' then Enqueue n s1 else upd_task n (\<lambda>t. t\<lparr>run_state := kOnCpu, task_cpu := int c, preempted := False, prio_boost := False\<rparr>)
        (upd_ecpu (int c) (current_update (\<lambda>_. Some n)) s1)) = Some s'"
    using assms(1) nx cur by (auto simp: sync_cpu_def Let_def s0_def [symmetric] bind_eq_Some_conv split: if_splits)
  have k: "cpus s1 = C" "next_of s1 d = next_of s0 d"
    "if sync' then good b (?F - {n}) None s1 \<and> current (cpu_states s1 (int c)) = Some n \<or> good b ?F None s1 \<and> current (cpu_states s1 (int c)) = None
      else good b ?F None s1" for d
    using s1 commit_keep [OF _ g0 nF cur, where s' = s1 and ok = sync'] g0 cp(1) by (auto split: if_splits)
  show ?thesis
  proof (cases sync')
    case False
    then show ?thesis using fin k enqueue_chosen [OF _ _ nF, of s1 s' b] r by (auto simp: edf_frame_def next_of_def)
  next
    case True
    have u: "upd_task n (\<lambda>t. t\<lparr>run_state := kOnCpu, task_cpu := int c, preempted := False, prio_boost := False\<rparr>)
        (upd_ecpu (int c) (current_update (\<lambda>_. Some n)) s1) = Some s'" using r True by simp
    have "good b (?F - {n}) None s'" by (rule sync_task [OF _ _ u]) (use k True nF cp in auto)
    moreover have "cpus s' = C" "next_of s' d = next_of s1 d" for d using u k(1) by (auto simp: upd_task_Some upd_ecpu_def next_of_def)
    ultimately show ?thesis using fin k(2) by simp
  qed
qed

lemma sync_all_keep:
  assumes "mfold (sync_cpu E bt) ds (s, sync) = Some (s', sync')" and "chosen b C (set ds) s" and "distinct ds"
  shows "good b {} None s' \<and> cpus s' = C"
  using assms
proof (induction ds arbitrary: s sync)
  case (Cons d ds)
  obtain s1 y1 where st: "sync_cpu E bt d (s, sync) = Some (s1, y1)" and r: "mfold (sync_cpu E bt) ds (s1, y1) = Some (s', sync')"
    using Cons.prems(1) by (auto simp: bind_eq_Some_conv)
  show ?case by (rule Cons.IH [OF r]) (use sync_cpu_keep [OF st, of b C "set ds"] Cons.prems(2, 3) in auto)
qed (simp add: chosen_def)

section \<open>Yielding tasks\<close>

text \<open>The list of yielding tasks is cleared only after the loop: the loop is seen with the tasks that are left.\<close>

lemma enqueue_yielding:
  assumes "Enqueue g s = Some s'" and "task_map s g = Some t" and "run_state t = kYielding" and "good b F None (s\<lparr>yielding_tasks := g # ys\<rparr>)"
  shows "good b F None (s'\<lparr>yielding_tasks := ys\<rparr>)" "edf_frame s s'"
proof -
  let ?s = "s\<lparr>yielding_tasks := g # ys\<rparr>" and ?tp = "t\<lparr>run_state := kPaused\<rparr>"
  let ?sp = "s\<lparr>yielding_tasks := ys, task_map := (task_map s)(g \<mapsto> ?tp)\<rparr>"
  have t: "task_map ?s g = Some t" using assms(2) by simp
  note ok = place(6) [OF assms(4) t]
  have w: "has_work t" using ok assms(3) by (simp add: task_ok_def active_def)
  have eq: "?s\<lparr>task_map := (task_map ?s)(g \<mapsto> ?tp), yielding_tasks := remove1 g (yielding_tasks ?s)\<rparr> = ?sp" by simp
  have g0: "good b F None ?sp"
    unfolding eq [symmetric] by (rule leave_yielding [OF assms(4) t assms(3)]) (use ok in \<open>auto simp: task_ok_def active_def\<close>)
  have t0: "task_map ?sp g = Some ?tp" by simp
  note q = good_queue [OF g0] and p = place [OF g0 t0]
  have kd: "keyed ?sp = keyed s" and gt: "edf_gt ?sp = edf_gt s"
    using key_upd(2, 3) [OF assms(2), where t' = ?tp and s' = ?sp] by simp_all
  have out: "g \<notin> set (run_queue s)" "rq_pos t < 0" using p(1, 3) by auto
  have kg: "keyed s g" using core_keyed [OF goodD [OF assms(4)] t] assms(3) key_cong(3) [of ?s s] by (simp add: active_def)
  have l: "rq_linked s" using good_queue(1) [OF assms(4)] by (simp add: rq_linked_def)
  define xs where "xs = heap_update (edf_gt s) (length (run_queue s)) (run_queue s @ [g])"
  note e = enqueue_eq [OF l _ kg assms(2) w out(2, 1) xs_def]
  have s': "s' = with_rq xs (s\<lparr>task_map := (task_map s)(g \<mapsto> t\<lparr>run_state := kQueued\<rparr>)\<rparr>)" using e(1) assms(1) q(3) kd by auto
  have kg0: "keyed ?sp g" using kg kd by simp
  have e0: "Enqueue g ?sp = Some (with_rq xs (?sp\<lparr>task_map := (task_map ?sp)(g \<mapsto> t\<lparr>run_state := kQueued\<rparr>)\<rparr>))"
    using enqueue_eq(1) [OF q(1) q(3) kg0 t0, of xs] w out gt by (simp add: xs_def)
  have "good b F None (with_rq xs (?sp\<lparr>task_map := (task_map ?sp)(g \<mapsto> t\<lparr>run_state := kQueued\<rparr>)\<rparr>))"
    by (rule enqueue_keep(1) [OF e0 t0, of b F None]) (use g0 park_same [OF t0, of kPaused] in simp_all)
  moreover have "with_rq xs (?sp\<lparr>task_map := (task_map ?sp)(g \<mapsto> t\<lparr>run_state := kQueued\<rparr>)\<rparr>) = s'\<lparr>yielding_tasks := ys\<rparr>"
    by (simp add: s' with_rq_def)
  ultimately show "good b F None (s'\<lparr>yielding_tasks := ys\<rparr>)" by simp
  show "edf_frame s s'" by (simp add: s')
qed

lemma requeue_keep:
  assumes "requeue_yielding s = Some s'" and "good b {} None s" shows "good b {} None s' \<and> edf_frame s s'"
proof -
  have "good b {} None (s1\<lparr>yielding_tasks := []\<rparr>) \<and> edf_frame s s1"
    if "mfold (\<lambda>g s. do { t \<leftarrow> task_map s g; CHECK (run_state t = kYielding); Enqueue g s }) ys s = Some s1" "good b {} None (s\<lparr>yielding_tasks := ys\<rparr>)" for ys s s1
    using that
  proof (induction ys arbitrary: s)
    case (Cons g ys)
    obtain t s2 where t: "task_map s g = Some t" "run_state t = kYielding" and e: "Enqueue g s = Some s2"
      and r: "mfold (\<lambda>g s. do { t \<leftarrow> task_map s g; CHECK (run_state t = kYielding); Enqueue g s }) ys s2 = Some s1"
      using Cons.prems(1) by (auto simp: bind_eq_Some_conv)
    note k = enqueue_yielding [OF e t Cons.prems(2)]
    from Cons.IH [OF r k(1)] k(2) show ?case using edf_frame_trans by blast
  qed simp
  moreover obtain s1 where "mfold (\<lambda>g s. do { t \<leftarrow> task_map s g; CHECK (run_state t = kYielding); Enqueue g s }) (yielding_tasks s) s = Some s1"
    "s' = s1\<lparr>yielding_tasks := []\<rparr>" using assms(1) by (auto simp: requeue_yielding_def bind_eq_Some_conv)
  ultimately show ?thesis using assms(2) by (simp add: edf_frame_def)
qed

lemma global_schedule_keep:
  assumes "GlobalSchedule E bt s = Some s'" and "good b {} None s"
  shows "good b {} None s'" "cpus s' = cpus s"
proof -
  obtain s1 u s2 y where p: "pick_all E s = Some (s1, u)" and f: "for_cpus u (sync_cpu E bt) (s1, True) = Some (s2, y)"
    and r: "requeue_yielding s2 = Some s'" using assms(1) by (auto simp: GlobalSchedule_def bind_eq_Some_conv)
  note k = pick_all_keep [OF p assms(2)]
  have "good b {} None s2 \<and> cpus s2 = cpus s"
    by (rule sync_all_keep [OF f [unfolded for_cpus_ids [OF k(2, 3)]]]) (use k(1) in simp_all)
  then show "good b {} None s'" "cpus s' = cpus s" using requeue_keep [OF r] by (auto simp: edf_frame_def)
qed

lemma pick_next_keep:
  assumes "PickNextGlobalCPU E s = Some s'" and "good b {} None s"
  shows "good b {} None s'" "cpus s' = cpus s"
proof -
  note c = coreD [OF goodD [OF assms(2)]]
  define f where "f = (\<lambda>c (s :: EdfScheduler, found). if found \<or> \<not> (avail E (int c) \<and> int c \<noteq> global_cpu s) then Some (s, found)
        else do {
          (case current (cpu_states s (int c)) of None \<Rightarrow> Some ()
           | Some prev \<Rightarrow> do { t \<leftarrow> task_map s prev; CHECK (run_state t = kOnCpu) });
          Some (s\<lparr>global_cpu := int c, pings := pings s @ [int c]\<rparr>, True) })"
  obtain d where m: "mfold f (cpu_ids (cpus s)) (s, False) = Some (s', d)"
    using assms(1) unfolding PickNextGlobalCPU_def f_def [symmetric] for_cpus_ids [OF c(1, 2)] by (auto simp: bind_eq_Some_conv)
  have "good b {} None (fst (s', d)) \<and> cpus (fst (s', d)) = cpus s"
    by (rule mfold_inv [OF m, where P = "\<lambda>x. good b {} None (fst x) \<and> cpus (fst x) = cpus s"])
      (use assms(2) in \<open>auto simp: f_def bind_eq_Some_conv split: if_splits\<close>)
  then show "good b {} None s'" "cpus s' = cpus s" by simp_all
qed

lemma edf_init_good:
  assumes "EdfScheduler_init C gc = Some s" and "map_ok C" and "in_topology C"
  shows "good b {} None s" "cpus s = C"
proof -
  show "cpus s = C" using assms(1) by (auto simp: EdfScheduler_init_def bind_eq_Some_conv)
  have e: "task_map s = Map.empty" "run_queue s = []" "yielding_tasks s = []" "cpus s = C" "\<And>c. current (cpu_states s c) = None"
    using assms(1) by (auto simp: EdfScheduler_init_def bind_eq_Some_conv)
  show "good b {} None s"
  proof (rule goodI)
    show "edf_core {} (set_option None) s" by (rule coreI) (use assms(2, 3) in \<open>auto simp: e rq_linked_def in_st_def\<close>)
  qed (simp_all add: e ordered_def heap_def)
qed

end
