(* ===== verification/Edf_Runs.thy ===== *)
theory Edf_Runs
  imports Edf_Global
begin

text \<open>
  Runs of the EDF scheduler: the reachable states, the checks that hold in them, and the properties of
  the run queue, the deadlines and the copies of the scheduling parameters.
\<close>

section \<open>Reachable states\<close>

text \<open>
  Messages of any kind arrive in any order, tasks are discovered, parameters are read, and the agent
  decides or moves to another CPU.  In a run with \<open>b\<close>, no read of the parameters is torn.
\<close>

inductive edf_reachable :: "bool \<Rightarrow> cpu_map \<Rightarrow> EdfScheduler \<Rightarrow> bool" for b C where
  init: "map_ok C \<Longrightarrow> in_topology C \<Longrightarrow> EdfScheduler_init C gc = Some s \<Longrightarrow> edf_reachable b C s"
| message: "edf_reachable b C s \<Longrightarrow> b \<longrightarrow> calm E \<Longrightarrow> DispatchMessage (EdfScheduler_handlers E) m s = Some s' \<Longrightarrow> edf_reachable b C s'"
| discover: "edf_reachable b C s \<Longrightarrow> b \<longrightarrow> calm E \<Longrightarrow> DiscoverTasks (EdfScheduler_handlers E) sws s = Some s' \<Longrightarrow> edf_reachable b C s'"
| params: "edf_reachable b C s \<Longrightarrow> b \<longrightarrow> calm E \<Longrightarrow> UpdateSchedParams E s = Some s' \<Longrightarrow> edf_reachable b C s'"
| decide: "edf_reachable b C s \<Longrightarrow> GlobalSchedule E bt s = Some s' \<Longrightarrow> edf_reachable b C s'"
| move: "edf_reachable b C s \<Longrightarrow> PickNextGlobalCPU E s = Some s' \<Longrightarrow> edf_reachable b C s'"

lemma reachable_good: "edf_reachable b C s \<Longrightarrow> good b {} None s"
proof (induction rule: edf_reachable.induct)
  case (init gc s)
  then show ?case using edf_init_good by blast
next
  case (message s E m s')
  then show ?case using edf.dispatch_inv [of b E m s s'] by (simp add: edf_handlers_eq)
next
  case (discover s E sws s')
  then show ?case using edf.discover_inv [of b E sws s s'] by (simp add: edf_handlers_eq)
next
  case (params s E s')
  then show ?case using update_sched_params_keep by blast
next
  case (decide s E bt s')
  then show ?case using global_schedule_keep(1) by blast
next
  case (move s E s')
  then show ?case using pick_next_keep(1) by blast
qed

text \<open>A round of the agent on the global CPU is such a run.\<close>

lemma global_round_reachable:
  assumes "edf_reachable b C s" and "global_round env E bt boosted r s = Some (r', s')" and "b \<longrightarrow> calm E \<and> (\<forall>m. calm (env m))"
  shows "edf_reachable b C s'"
proof (cases boosted)
  case True
  then show ?thesis using assms(1, 2) by (auto simp: global_round_def bind_eq_Some_conv intro: edf_reachable.move)
next
  case False
  obtain s1 s2 where d: "drain_channel (\<lambda>m. DispatchMessage (EdfScheduler_handlers (env m)) m) r s = Some (r', s1)"
    and p: "UpdateSchedParams E s1 = Some s2" and g: "GlobalSchedule E bt s2 = Some s'"
    using assms(2) False by (auto simp: global_round_def bind_eq_Some_conv)
  have "edf_reachable b C s1" by (rule drain_inv [where P = "edf_reachable b C", OF d assms(1)]) (use assms(3) in \<open>blast intro: edf_reachable.message\<close>)
  then have "edf_reachable b C s2" using p assms(3) by (blast intro: edf_reachable.params)
  then show ?thesis using g by (rule edf_reachable.decide)
qed

section \<open>The checks of the debug build\<close>

lemma check_run_queue:
  assumes "good True F None s" shows "CheckRunQueue s = Some ()"
proof -
  note q = good_queue [OF assms]
  have h: "heap (edf_gt s) (run_queue s)" using good_ordered(1) [OF assms] by (simp add: ordered_def)
  have "rq_greater s (parent i) i = Some False" if "i < length (run_queue s)" "0 < i" for i
    using that h q(2) parent_less [OF that(2)] greater_key [of s "run_queue s ! parent i" "run_queue s ! i"]
    by (simp add: rq_greater_def rq_at_def heap_def)
  then have heap: "is_heap s" by (auto simp: is_heap_def list_all_iff)
  have "(do { g \<leftarrow> rq_at s i; t \<leftarrow> task_map s g; CHECK (run_state t = kQueued); CHECK (rq_pos t = int i) }) = Some ()"
    if i: "i < length (run_queue s)" for i
  proof -
    obtain t where t: "task_map s (run_queue s ! i) = Some t" "rq_pos t = int i" using linkedD(2) [OF q(1) i] by blast
    then show ?thesis using i place(1) [OF assms t(1)] by (simp add: rq_at_def)
  qed
  then have "mfold (\<lambda>i _. do { g \<leftarrow> rq_at s i; t \<leftarrow> task_map s g; CHECK (run_state t = kQueued); CHECK (rq_pos t = int i) })
      [0..<length (run_queue s)] () = Some ()" by (simp add: mfold_unit)
  then show ?thesis using heap by (simp add: CheckRunQueue_def)
qed

section \<open>Examples\<close>

definition ex_edf_env :: edf_env where
  "ex_edf_env = \<lparr>now = 0, sw_runtime = (\<lambda>_. 0), sw_on_cpu = (\<lambda>_. False), sw_free = (\<lambda>_. True), commit_ok = (\<lambda>_ _. True),
     avail = (\<lambda>_. True), agent_cpu = 0, tgid_of = (\<lambda>_. 1), attach = (\<lambda>_. None), orch_order = [], next_index = (\<lambda>_ _. -1),
     item = (\<lambda>_ _ _. \<lparr>rd_class = 0, rd_begin = 0, rd_sid = 0, rd_wcid = 0, rd_gpid = 0, rd_flags = 0, rd_deadline = 0, rd_end = 0\<rparr>),
     item_gpid = (\<lambda>_ _. 0), status_words = \<lparr>table_id = 0, capacity = 16\<rparr>, verbosity = 0\<rparr>"

lemma ex_calm: "calm ex_edf_env"
  by (simp add: calm_def ex_edf_env_def read_end_def)

definition ex_edf0 :: EdfScheduler where
  "ex_edf0 = \<lparr>task_map = Map.empty, cpu_states = (\<lambda>_. \<lparr>current = None, next_task = None\<rparr>), cpus = ex_cpus,
       global_cpu = 0, num_tasks = 0, in_discovery = False, run_queue = [], yielding_tasks = [],
       orchs = Map.empty, pings = [], txns = [], made_runnable = []\<rparr>"

definition ex_edf_task :: "u32 \<Rightarrow> int \<Rightarrow> EdfTask" where
  "ex_edf_task n i = EdfTask_init\<lparr>seqnum := n, run_state := kQueued, rq_pos := i, has_work := True, sp := Some Dummy_sp\<rparr>"

lemma ex_init: "EdfScheduler_init ex_cpus 0 = Some ex_edf0"
proof -
  have "IsSet ex_cpus 0 = Some True" by code_simp
  then show ?thesis by (simp add: EdfScheduler_init_def ex_edf0_def)
qed

definition ex_edf1 :: EdfScheduler where
  "ex_edf1 = ex_edf0\<lparr>task_map := [7 \<mapsto> ex_edf_task 5 0], run_queue := [7], num_tasks := 1\<rparr>"

definition ex_edf2 :: EdfScheduler where
  "ex_edf2 = ex_edf0\<lparr>task_map := [7 \<mapsto> ex_edf_task 5 0, 8 \<mapsto> ex_edf_task 6 1], run_queue := [7, 8], num_tasks := 2\<rparr>"

lemma ex_step1: "DispatchMessage (EdfScheduler_handlers ex_edf_env) (ex_msg MSG_TASK_NEW 7 5) ex_edf0 = Some ex_edf1"
  by (simp add: DispatchMessage_def dispatch_known_def task_handler_def GetTask_alloc_def GetTask_def EdfScheduler_handlers_def
      ex_msg_def type_num_simps is_cpu_msg_def dprint_message_def status_word_from_info_def EdfScheduler_TaskNew_def UpdateTaskRuntime_def on_task_def SetRuntime_def
      ex_edf0_def ex_edf1_def EdfTask_init_def HandleNewGtid_def upd_task_def ex_edf_env_def Enqueue_def set_state_def UpdateRunqueuePosition_def
      sift_down.simps [of 0] smaller_child_def Let_def ex_edf_task_def Nanoseconds_def)

lemma ex_step2: "DispatchMessage (EdfScheduler_handlers ex_edf_env) (ex_msg MSG_TASK_NEW 8 6) ex_edf1 = Some ex_edf2"
  by (simp add: DispatchMessage_def dispatch_known_def task_handler_def GetTask_alloc_def GetTask_def EdfScheduler_handlers_def
      ex_msg_def type_num_simps is_cpu_msg_def dprint_message_def status_word_from_info_def EdfScheduler_TaskNew_def UpdateTaskRuntime_def on_task_def SetRuntime_def
      ex_edf0_def ex_edf1_def ex_edf2_def EdfTask_init_def HandleNewGtid_def upd_task_def ex_edf_env_def Enqueue_def set_state_def UpdateRunqueuePosition_def
      sift_down.simps [of "Suc 0"] smaller_child_def Let_def ex_edf_task_def Nanoseconds_def rq_greater_def rq_at_def parent_def SchedDeadlineGreater_def GetQoS_def sp_value_def)

lemma ex_reachable: "edf_reachable True ex_cpus ex_edf2"
proof -
  have "edf_reachable True ex_cpus ex_edf0" by (rule edf_reachable.init [OF ex_cpus_ok(1, 2) ex_init])
  then have "edf_reachable True ex_cpus ex_edf1" by (rule edf_reachable.message [OF _ _ ex_step1]) (simp add: ex_calm)
  then show ?thesis by (rule edf_reachable.message [OF _ _ ex_step2]) (simp add: ex_calm)
qed

text \<open>Two tasks of a process with two work classes, whose parameters are read twice; the second read is torn.\<close>

definition ex_item :: "u32 \<Rightarrow> u32 \<Rightarrow> u32 \<Rightarrow> gtid \<Rightarrow> item_read" where
  "ex_item wc n n' g = \<lparr>rd_class = wc, rd_begin = n, rd_sid = 0, rd_wcid = wc, rd_gpid = g, rd_flags = 1, rd_deadline = 100, rd_end = n'\<rparr>"

definition ex_class :: "u32 \<Rightarrow> work_class" where
  "ex_class q = \<lparr>wc_flags = 1, wc_qos = q, exectime = 1, period = 0\<rparr>"

definition ex_env_attach :: edf_env where
  "ex_env_attach = ex_edf_env\<lparr>attach := (\<lambda>_. Some \<lparr>pt_items = Suc (Suc 0), pt_classes = [ex_class 1, ex_class 5], pt_cap = Suc (Suc 0)\<rparr>), orch_order := [1],
     next_index := (\<lambda>_ k. if k = 0 then 0 else if k = 1 then 1 else -1), item := (\<lambda>_ _ i. if i = 0 then ex_item 0 2 2 7 else ex_item 0 2 2 8)\<rparr>"

definition ex_env_torn :: edf_env where
  "ex_env_torn = ex_env_attach\<lparr>next_index := (\<lambda>_ k. if k = 0 then 1 else -1), item := (\<lambda>_ _ _. ex_item 1 3 4 8)\<rparr>"

definition ex_paused :: "u32 \<Rightarrow> EdfTask" where
  "ex_paused n = EdfTask_init\<lparr>seqnum := n, run_state := kPaused\<rparr>"

definition ex_orch :: "SchedParams list \<Rightarrow> Orchestrator" where
  "ex_orch ps = \<lparr>wc_stats = [\<lparr>runtimes = 4, samples = 1, overshots = 0\<rparr>, \<lparr>runtimes = 4, samples = 1, overshots = 0\<rparr>],
     work_classes = [ex_class 1, ex_class 5], st_cap = Suc (Suc 0), cachedsids = ps\<rparr>"

definition ex_sp :: "gtid \<Rightarrow> u32 \<Rightarrow> SchedParams" where
  "ex_sp g q = \<lparr>sp_sid = 0, sp_wcid = 0, sp_gpid = g, sp_flags = 1, sp_seqcount = 2, sp_deadline = 100, sp_qos = q\<rparr>"

definition ex_queued :: "u32 \<Rightarrow> nat \<Rightarrow> EdfTask" where
  "ex_queued n i = EdfTask_init\<lparr>seqnum := n, run_state := kQueued, rq_pos := int i, has_work := True, sp := Some (Cached 1 i), wcid := 0,
     estimated_runtime := 4, deadline := Time 400, sched_deadline := Time 396\<rparr>"

definition ex_t1 :: EdfScheduler where
  "ex_t1 = ex_edf0\<lparr>task_map := [7 \<mapsto> ex_paused 5], num_tasks := 1, orchs := [1 \<mapsto> ex_orch [SchedParams_init, SchedParams_init]]\<rparr>"

definition ex_t2 :: EdfScheduler where
  "ex_t2 = ex_edf0\<lparr>task_map := [7 \<mapsto> ex_paused 5, 8 \<mapsto> ex_paused 6], num_tasks := 2, orchs := [1 \<mapsto> ex_orch [SchedParams_init, SchedParams_init]]\<rparr>"

definition ex_t3 :: EdfScheduler where
  "ex_t3 = ex_edf0\<lparr>task_map := [8 \<mapsto> ex_paused 6, 7 \<mapsto> ex_queued 5 0], run_queue := [7], num_tasks := 2, orchs := [1 \<mapsto> ex_orch [ex_sp 7 1, SchedParams_init]]\<rparr>"

definition ex_t4 :: EdfScheduler where
  "ex_t4 = ex_edf0\<lparr>task_map := [7 \<mapsto> ex_queued 5 0, 8 \<mapsto> ex_queued 6 1], run_queue := [7, 8], num_tasks := 2, orchs := [1 \<mapsto> ex_orch [ex_sp 7 1, ex_sp 8 1]]\<rparr>"

definition ex_t5 :: EdfScheduler where
  "ex_t5 = ex_edf0\<lparr>task_map := [7 \<mapsto> ex_queued 5 0, 8 \<mapsto> ex_queued 6 1], run_queue := [7, 8], num_tasks := 2, orchs := [1 \<mapsto> ex_orch [ex_sp 7 1, ex_sp 8 5]]\<rparr>"

lemmas ex_defs = ex_item_def ex_class_def ex_env_attach_def ex_env_torn_def ex_paused_def ex_orch_def ex_sp_def ex_queued_def
  ex_t1_def ex_t2_def ex_t3_def ex_t4_def ex_t5_def ex_edf0_def ex_edf_env_def

lemma ex_torn1: "DispatchMessage (EdfScheduler_handlers ex_env_attach) (ex_msg MSG_TASK_NEW 7 5) ex_edf0 = Some ex_t1"
  by (simp add: DispatchMessage_def dispatch_known_def task_handler_def GetTask_alloc_def GetTask_def EdfScheduler_handlers_def
      ex_msg_def type_num_simps is_cpu_msg_def dprint_message_def status_word_from_info_def EdfScheduler_TaskNew_def UpdateTaskRuntime_def on_task_def SetRuntime_def
      EdfTask_init_def HandleNewGtid_def upd_task_def Enqueue_def set_state_def Let_def Nanoseconds_def ex_defs Orchestrator_Init_def
      GetSchedParams_def SchedParams_init_def upt_rec)

lemma ex_torn2: "DispatchMessage (EdfScheduler_handlers ex_env_attach) (ex_msg MSG_TASK_NEW 8 6) ex_t1 = Some ex_t2"
  by (simp add: DispatchMessage_def dispatch_known_def task_handler_def GetTask_alloc_def GetTask_def EdfScheduler_handlers_def
      ex_msg_def type_num_simps is_cpu_msg_def dprint_message_def status_word_from_info_def EdfScheduler_TaskNew_def UpdateTaskRuntime_def on_task_def SetRuntime_def
      EdfTask_init_def HandleNewGtid_def upd_task_def Enqueue_def set_state_def Let_def Nanoseconds_def ex_defs
      GetSchedParams_def SchedParams_init_def upt_rec)

lemma ex_scale: "scale_estimate 4 0 = Some 4"
  by (simp add: scale_estimate.simps [of 4])

lemmas ex_refresh_defs = RefreshSchedParam_def table_work_class_def SeqCopyParams_def read_end_def kLocked_def upd_orch_def SchedParamsCallback_def sp_value_def
  GetTask_def update_task_params_def upd_task_def HasWork_def SCHED_ITEM_RUNNABLE_def new_deadline_def EstimateRuntime_def signed_divide_int_def
  Repeating_def WORK_CLASS_REPEATING_def GetDeadline_def on_task_def CalculateSchedDeadline_def ex_scale work_edge_def Enqueue_def set_state_def
  UpdateRunqueuePosition_def smaller_child_def Let_def Nanoseconds_def ex_defs EdfTask_init_def SchedParams_init_def

lemma ex_torn3: "RefreshSchedParam ex_env_attach 1 0 0 ex_t2 = Some ex_t3"
  by (simp add: ex_refresh_defs sift_down.simps [of 0])

lemma ex_torn4: "RefreshSchedParam ex_env_attach 1 (Suc 0) (Suc 0) ex_t3 = Some ex_t4"
  by (simp add: ex_refresh_defs sift_down.simps [of "Suc 0"] rq_greater_def rq_at_def parent_def SchedDeadlineGreater_def GetQoS_def)

lemma ex_torn5: "RefreshSchedParam ex_env_torn 1 0 (Suc 0) ex_t4 = Some ex_t5"
  by (simp add: ex_refresh_defs)

lemma ex_update: "UpdateSchedParams ex_env_attach ex_t2 = Some ex_t4" "UpdateSchedParams ex_env_torn ex_t4 = Some ex_t5"
proof -
  have o: "orchs ex_t2 1 = Some (ex_orch [SchedParams_init, SchedParams_init])" "orchs ex_t3 1 = Some (ex_orch [ex_sp 7 1, SchedParams_init])"
    "orchs ex_t4 1 = Some (ex_orch [ex_sp 7 1, ex_sp 8 1])" "orchs ex_t5 1 = Some (ex_orch [ex_sp 7 1, ex_sp 8 5])"
    by (simp_all add: ex_t2_def ex_t3_def ex_t4_def ex_t5_def)
  have e: "orch_order ex_env_attach = [1]" "orch_order ex_env_torn = [1]" "next_index ex_env_attach 1 0 = 0" "next_index ex_env_attach 1 (Suc 0) = 1"
    "next_index ex_env_torn 1 0 = 1" "next_index ex_env_torn 1 (Suc 0) = -1" by (simp_all add: ex_env_attach_def ex_env_torn_def)
  have c: "st_cap (ex_orch ps) = Suc (Suc 0)" "cachedsids (ex_orch ps) = ps" for ps by (simp_all add: ex_orch_def)
  show "UpdateSchedParams ex_env_attach ex_t2 = Some ex_t4"
    by (simp add: UpdateSchedParams_def for_orchs_def e o c RefreshSchedParams_def upt_rec ex_torn3 ex_torn4 Let_def)
  show "UpdateSchedParams ex_env_torn ex_t4 = Some ex_t5"
    by (simp add: UpdateSchedParams_def for_orchs_def e o c RefreshSchedParams_def upt_rec ex_torn5 Let_def kStreamOverflow_def kStreamNoEntries_def)
qed

lemma ex_check: "CheckRunQueue ex_t5 = None"
  by (simp add: CheckRunQueue_def is_heap_def rq_greater_def rq_at_def parent_def SchedDeadlineGreater_def GetQoS_def sp_value_def ex_defs EdfTask_init_def upt_rec CHECK_def)

section \<open>Properties\<close>

text \<open>
  C1. In every reachable state of the EDF scheduler the run queue and the list of yielding tasks have no
  duplicates, each task is in exactly the place of its state, and tasks that run or wait to run have work.
  In the runs in which no read of the scheduling parameters is torn (those with \<open>b\<close>), \<open>CheckRunQueue\<close>
  passes as well: the run queue is a heap of queued tasks that know their positions.  With a torn read
  the heap order can be lost.
\<close>

theorem edf_consistent:
  assumes "edf_reachable b C s"
  shows "(b \<longrightarrow> CheckRunQueue s = Some ()) \<and> distinct (run_queue s) \<and> distinct (yielding_tasks s)
    \<and> (\<forall>g t. task_map s g = Some t \<longrightarrow> (g \<in> set (run_queue s) \<longleftrightarrow> run_state t = kQueued) \<and> (g \<in> set (yielding_tasks s) \<longleftrightarrow> run_state t = kYielding)
         \<and> (\<forall>c. current (cpu_states s c) = Some g \<longleftrightarrow> run_state t = kOnCpu \<and> task_cpu t = c)
         \<and> (run_state t \<in> {kQueued, kOnCpu, kYielding} \<longrightarrow> has_work t))
    \<and> (\<forall>g. g \<in> set (run_queue s) \<or> g \<in> set (yielding_tasks s) \<or> (\<exists>c. current (cpu_states s c) = Some g) \<longrightarrow> task_map s g \<noteq> None)"
proof -
  note g = reachable_good [OF assms]
  note c = coreD [OF goodD [OF g]] and p = place [OF g]
  have "b \<longrightarrow> CheckRunQueue s = Some ()" using g check_run_queue by (cases b) auto
  moreover have "has_work t" if "task_map s g = Some t" "run_state t \<in> {kQueued, kOnCpu, kYielding}" for g t
    using p(6) [OF that(1)] that(2) by (auto simp: task_ok_def active_def)
  moreover have "task_map s g \<noteq> None" if "g \<in> set (run_queue s) \<or> g \<in> set (yielding_tasks s) \<or> (\<exists>c. current (cpu_states s c) = Some g)" for g
    using that c(4) [of g] c(8) [of g] c(9) [of _ g] by (auto simp: in_st_def)
  ultimately show ?thesis using good_queue(4) [OF g] c(7) p(1, 4, 5) by auto
qed

theorem edf_consistent_witness:
  "CheckRunQueue ex_edf2 = Some () \<and> run_queue ex_edf2 = [7, 8] \<and> map_option run_state (task_map ex_edf2 8) = Some kQueued"
  using edf_consistent [OF ex_reachable] by (simp add: ex_edf2_def ex_edf_task_def)

text \<open>
  C7. In the runs in which no read of the scheduling parameters is torn, \<open>Dequeue\<close> takes a task that no
  other queued task precedes: boosted tasks first, then the higher
  quality of service, then the earlier deadline.  The other tasks stay in the run queue, which passes
  its checks again.
\<close>

theorem edf_dequeue_earliest:
  assumes "edf_reachable True C s" and "run_queue s \<noteq> []"
  shows "\<exists>g s'. Dequeue s = Some (Some g, s') \<and> (\<forall>h \<in> set (run_queue s). SchedDeadlineGreater s g h = Some False)
    \<and> mset (run_queue s) = add_mset g (mset (run_queue s')) \<and> CheckRunQueue s' = Some ()"
proof -
  note g = reachable_good [OF assms(1)]
  obtain h s' where d: "Dequeue s = Some (Some h, s')" using dequeue_total [OF g] assms(2) by auto
  note k = dequeue_keep [OF d g] and q = good_queue [OF g]
  have "SchedDeadlineGreater s h x = Some False" if x: "x \<in> set (run_queue s)" for x
  proof -
    obtain i where i: "i < length (run_queue s)" "x = run_queue s ! i" using x by (auto simp: in_set_conv_nth)
    have "\<not> edf_gt s h x" using edf.heap_min [OF _ i(1)] good_ordered(1) [OF g] k(6) i(2) by (simp add: ordered_def)
    moreover have "h \<in> set (run_queue s)" using k(6) assms(2) by simp
    ultimately show ?thesis using greater_key [of s h x] q(3) x by simp
  qed
  then show ?thesis using d k(8) check_run_queue [OF k(1)] by blast
qed

theorem edf_dequeue_earliest_witness:
  "\<exists>g s'. Dequeue ex_edf2 = Some (Some g, s') \<and> mset [7, 8] = add_mset g (mset (run_queue s')) \<and> CheckRunQueue s' = Some ()"
  using edf_dequeue_earliest [OF ex_reachable] by (auto simp: ex_edf2_def)

text \<open>
  C37. The computation of a scheduling deadline returns whenever the estimate is positive: the estimate is
  doubled just until it exceeds the time the task has run, and the deadline is brought forward by
  what remains of it.
\<close>

theorem edf_deadline_total:
  assumes "0 < estimated_runtime t"
  shows "\<exists>k. CalculateSchedDeadline t = Some (t\<lparr>estimated_runtime := estimated_runtime t * 2 ^ k,
        sched_deadline := time_minus (deadline t) (estimated_runtime t * 2 ^ k - elapsed_runtime t)\<rparr>)
    \<and> elapsed_runtime t < estimated_runtime t * 2 ^ k \<and> (\<forall>j < k. estimated_runtime t * 2 ^ j \<le> elapsed_runtime t)"
  using scale_estimate_total [OF assms, of "elapsed_runtime t"] by (auto simp: CalculateSchedDeadline_def Let_def)

theorem edf_deadline_total_witness:
  "\<exists>k. CalculateSchedDeadline (EdfTask_init\<lparr>elapsed_runtime := 9000000\<rparr>) = Some (EdfTask_init\<lparr>elapsed_runtime := 9000000, estimated_runtime := 4000000 * 2 ^ k\<rparr>)"
  using edf_deadline_total [of "EdfTask_init\<lparr>elapsed_runtime := 9000000\<rparr>"] by (auto simp: EdfTask_init_def)

text \<open>
  C38. A torn read of the parameters breaks the run queue: \<open>SeqCopyParams\<close> stores the quality of service of
  the item before it knows whether the read succeeded, and reports no change for a task that is runnable
  already, so that a queued task changes its rank and stays where it is.  There is a run of the
  scheduler after which \<open>CheckRunQueue\<close> fails.
\<close>

theorem edf_torn_read_breaks_queue: "\<exists>s. edf_reachable False ex_cpus s \<and> CheckRunQueue s = None"
proof -
  have "edf_reachable False ex_cpus ex_edf0" by (rule edf_reachable.init [OF ex_cpus_ok(1, 2) ex_init])
  then have "edf_reachable False ex_cpus ex_t1" by (rule edf_reachable.message [OF _ _ ex_torn1]) simp
  then have "edf_reachable False ex_cpus ex_t2" by (rule edf_reachable.message [OF _ _ ex_torn2]) simp
  then have "edf_reachable False ex_cpus ex_t4" by (rule edf_reachable.params [OF _ _ ex_update(1)]) simp
  then have "edf_reachable False ex_cpus ex_t5" by (rule edf_reachable.params [OF _ _ ex_update(2)]) simp
  then show ?thesis using ex_check by blast
qed

end
