(* ===== verification/Prio_Stream.thy ===== *)
theory Prio_Stream
  imports Prio_Items
begin

text \<open>
  The stream of updated items of \<open>shared/prio_table.cc\<close>: application threads mark the items they have
  updated, the agent asks for the next one.  The threads and the agent share the memory; every atomic
  access is one step, and the steps of different threads interleave in any order.  The memory is taken to
  be sequentially consistent.
\<close>

section \<open>Memory\<close>

definition kStreamFreeEntry :: int where "kStreamFreeEntry = sint (- 1 :: u32)"

record stream =
  scrape_all :: u32
  entries :: "int list"

text \<open>The stream as the constructor leaves it.\<close>

definition stream_init :: "nat \<Rightarrow> stream" where
  "stream_init st_cap = \<lparr>scrape_all = 0, entries = replicate st_cap kStreamFreeEntry\<rparr>"

definition overflowed :: "stream \<Rightarrow> bool" where
  "overflowed m \<longleftrightarrow> 0 < sint (scrape_all m)"

definition cell_of :: "stream \<Rightarrow> int \<Rightarrow> nat \<Rightarrow> nat" where
  "cell_of m idx i = (nat idx + i) mod length (entries m)"

section \<open>The calls\<close>

fun mark_loop :: "int \<Rightarrow> nat \<Rightarrow> nat \<Rightarrow> stream \<Rightarrow> stream" where
  "mark_loop idx i 0 m = m\<lparr>scrape_all := scrape_all m + 1\<rparr>"
| "mark_loop idx i (Suc n) m = (if entries m ! cell_of m idx i = kStreamFreeEntry
     then m\<lparr>entries := (entries m)[cell_of m idx i := idx]\<rparr>
     else mark_loop idx (i + 1) n m)"

definition MarkUpdatedIndex :: "int \<Rightarrow> int \<Rightarrow> stream \<Rightarrow> stream" where
  "MarkUpdatedIndex idx num_retries m = (if overflowed m then m\<lparr>scrape_all := scrape_all m + 1\<rparr>
     else mark_loop idx 0 (nat (num_retries + 1)) m)"

function scan_loop :: "bool \<Rightarrow> nat \<Rightarrow> stream \<Rightarrow> int \<times> stream" where
  "scan_loop full_scan i m = (if i < length (entries m)
     then let idx = entries m ! i in
       if idx \<noteq> kStreamFreeEntry
       then let m = m\<lparr>entries := (entries m)[i := kStreamFreeEntry]\<rparr> in
         if \<not> full_scan then (idx, m) else scan_loop full_scan (i + 1) m
       else scan_loop full_scan (i + 1) m
     else (if full_scan then kStreamOverflow else kStreamNoEntries, m))"
  by pat_completeness auto
termination
  by (relation "measure (\<lambda>(f, i, m). length (entries m) - i)") auto

declare scan_loop.simps [simp del]

definition NextUpdatedIndex :: "stream \<Rightarrow> int \<times> stream" where
  "NextUpdatedIndex m = (if overflowed m then scan_loop True 0 (m\<lparr>scrape_all := 0\<rparr>) else scan_loop False 0 m)"

section \<open>The steps\<close>

text \<open>
  The points between two atomic accesses of a call.  \<open>W_cas i\<close> is the point after cell \<open>i\<close> was seen free,
  \<open>R_take full i idx\<close> the one after \<open>idx\<close> was read from cell \<open>i\<close>.
\<close>

datatype writer = W_idle | W_start | W_scrape | W_probe nat | W_cas nat

datatype reader = R_idle | R_start | R_scrape | R_scan bool nat | R_take bool nat int

text \<open>
  One access of \<open>MarkUpdatedIndex\<close>.  The exchange is the weak one, which may fail although the cell
  is free; \<open>ok\<close> says whether it does not.
\<close>

fun mark_step :: "bool \<Rightarrow> int \<Rightarrow> int \<Rightarrow> stream \<times> writer \<Rightarrow> stream \<times> writer" where
  "mark_step ok idx num_retries (m, W_idle) = (m, W_idle)"
| "mark_step ok idx num_retries (m, W_start) = (m, if overflowed m then W_scrape else W_probe 0)"
| "mark_step ok idx num_retries (m, W_scrape) = (m\<lparr>scrape_all := scrape_all m + 1\<rparr>, W_idle)"
| "mark_step ok idx num_retries (m, W_probe i) = (if int i < num_retries + 1
     then (m, if entries m ! cell_of m idx i = kStreamFreeEntry then W_cas i else W_probe (i + 1))
     else (m\<lparr>scrape_all := scrape_all m + 1\<rparr>, W_idle))"
| "mark_step ok idx num_retries (m, W_cas i) = (if entries m ! cell_of m idx i = kStreamFreeEntry \<and> ok
     then (m\<lparr>entries := (entries m)[cell_of m idx i := idx]\<rparr>, W_idle)
     else (m, W_probe (i + 1)))"

text \<open>One access of \<open>NextUpdatedIndex\<close>, with the value when the call returns.\<close>

fun next_step :: "stream \<times> reader \<Rightarrow> (stream \<times> reader) \<times> int option" where
  "next_step (m, R_idle) = ((m, R_idle), None)"
| "next_step (m, R_start) = ((m, if overflowed m then R_scrape else R_scan False 0), None)"
| "next_step (m, R_scrape) = ((m\<lparr>scrape_all := 0\<rparr>, R_scan True 0), None)"
| "next_step (m, R_scan full_scan i) = (if i < length (entries m)
     then ((m, if entries m ! i \<noteq> kStreamFreeEntry then R_take full_scan i (entries m ! i) else R_scan full_scan (i + 1)), None)
     else ((m, R_idle), Some (if full_scan then kStreamOverflow else kStreamNoEntries)))"
| "next_step (m, R_take full_scan i idx) = (let m = m\<lparr>entries := (entries m)[i := kStreamFreeEntry]\<rparr> in
     if \<not> full_scan then ((m, R_idle), Some idx) else ((m, R_scan full_scan (i + 1)), None))"

text \<open>
  The agent and any number of threads.  \<open>pending\<close> are the items whose update has been marked by a call
  that has returned, since the last time the agent was told of them; \<open>marks\<close> counts these calls.
\<close>

record sys =
  mem :: stream
  threads :: "nat \<Rightarrow> int \<times> int \<times> writer"
  agent :: reader
  pending :: "int set"
  marks :: nat

definition sys_init :: "nat \<Rightarrow> sys" where
  "sys_init st_cap = \<lparr>mem = stream_init st_cap, threads = (\<lambda>_. (0, 0, W_idle)), agent = R_idle, pending = {}, marks = 0\<rparr>"

definition told :: "int option \<Rightarrow> int set \<Rightarrow> int set" where
  "told r P = (case r of None \<Rightarrow> P | Some v \<Rightarrow> if v = kStreamOverflow then {} else P - {v})"

inductive stream_run :: "nat \<Rightarrow> nat \<Rightarrow> sys \<Rightarrow> bool" for st_cap si_num where
  init: "0 < st_cap \<Longrightarrow> stream_run st_cap si_num (sys_init st_cap)"
| call_mark: "stream_run st_cap si_num s \<Longrightarrow> snd (snd (threads s i)) = W_idle \<Longrightarrow> 0 \<le> idx \<Longrightarrow> idx < int si_num \<Longrightarrow>
    stream_run st_cap si_num (s\<lparr>threads := (threads s)(i := (idx, num_retries, W_start))\<rparr>)"
| mark: "stream_run st_cap si_num s \<Longrightarrow> threads s i = (idx, num_retries, w) \<Longrightarrow> w \<noteq> W_idle \<Longrightarrow> mark_step ok idx num_retries (mem s, w) = (m, w') \<Longrightarrow>
    stream_run st_cap si_num (s\<lparr>mem := m, threads := (threads s)(i := (idx, num_retries, w')),
      pending := (if w' = W_idle then insert idx (pending s) else pending s), marks := (if w' = W_idle then marks s + 1 else marks s)\<rparr>)"
| call_next: "stream_run st_cap si_num s \<Longrightarrow> agent s = R_idle \<Longrightarrow> stream_run st_cap si_num (s\<lparr>agent := R_start\<rparr>)"
| nxt: "stream_run st_cap si_num s \<Longrightarrow> agent s \<noteq> R_idle \<Longrightarrow> next_step (mem s, agent s) = ((m, a), r) \<Longrightarrow>
    stream_run st_cap si_num (s\<lparr>mem := m, agent := a, pending := told r (pending s)\<rparr>)"

section \<open>The invariant\<close>

lemma free_eq [simp]: "kStreamFreeEntry = -1"
  by (simp add: kStreamFreeEntry_def)

definition full_scanning :: "reader \<Rightarrow> bool" where
  "full_scanning a \<longleftrightarrow> a = R_scrape \<or> (\<exists>i. a = R_scan True i) \<or> (\<exists>i v. a = R_take True i v)"

text \<open>The agent will be told of every pending item.\<close>

definition covered :: "sys \<Rightarrow> int \<Rightarrow> bool" where
  "covered s idx \<longleftrightarrow> idx \<in> set (entries (mem s)) \<or> overflowed (mem s) \<or> full_scanning (agent s)"

definition stream_inv :: "nat \<Rightarrow> nat \<Rightarrow> sys \<Rightarrow> bool" where
  "stream_inv st_cap si_num s \<longleftrightarrow> 0 < st_cap \<and> length (entries (mem s)) = st_cap \<and> (\<forall>idx \<in> pending s. 0 \<le> idx \<and> covered s idx)
     \<and> 0 \<le> sint (scrape_all (mem s)) \<and> sint (scrape_all (mem s)) \<le> int (marks s)
     \<and> (\<forall>v \<in> set (entries (mem s)). v = kStreamFreeEntry \<or> 0 \<le> v \<and> v < int si_num)
     \<and> (\<forall>i. snd (snd (threads s i)) \<noteq> W_idle \<longrightarrow> 0 \<le> fst (threads s i) \<and> fst (threads s i) < int si_num)
     \<and> (\<forall>f i v. agent s = R_take f i v \<longrightarrow> i < st_cap \<and> entries (mem s) ! i = v \<and> v \<noteq> kStreamFreeEntry)"

lemma sint_succ: "0 \<le> sint (w :: u32) \<Longrightarrow> sint w < 2 ^ 31 - 1 \<Longrightarrow> sint (w + 1) = sint w + 1"
  by (simp add: sint_word_ariths signed_take_bit_int_eq_self)

lemma scrape_bounds:
  assumes "stream_inv st_cap si_num s" and "marks s + 1 < 2 ^ 31" and "m = (mem s)\<lparr>scrape_all := scrape_all (mem s) + 1\<rparr>"
  shows "sint (scrape_all m) = sint (scrape_all (mem s)) + 1" "overflowed m"
proof -
  have b: "0 \<le> sint (scrape_all (mem s))" "sint (scrape_all (mem s)) \<le> int (marks s)" using assms(1) by (simp_all add: stream_inv_def)
  show e: "sint (scrape_all m) = sint (scrape_all (mem s)) + 1" using sint_succ [OF b(1)] b(2) assms(2, 3) by simp
  show "overflowed m" using e b(1) by (simp add: overflowed_def)
qed

lemma set_update_free:
  assumes "j < length es" and "es ! j = kStreamFreeEntry" and "v \<noteq> kStreamFreeEntry" and "v \<in> set es"
  shows "v \<in> set (es[j := w])"
proof -
  obtain k where k: "k < length es" "es ! k = v" using assms(4) by (auto simp: in_set_conv_nth)
  then have "k \<noteq> j" using assms(2, 3) by auto
  then have "es[j := w] ! k = v" using k by simp
  moreover have "es[j := w] ! k \<in> set (es[j := w])" using k(1) by (intro nth_mem) simp
  ultimately show ?thesis by simp
qed

lemma mark_inv:
  assumes inv: "stream_inv st_cap si_num s" and t: "threads s i = (idx, num_retries, w)" "w \<noteq> W_idle"
    and st: "mark_step ok idx num_retries (mem s, w) = (m, w')"
    and s': "s' = s\<lparr>mem := m, threads := (threads s)(i := (idx, num_retries, w')),
      pending := (if w' = W_idle then insert idx (pending s) else pending s), marks := (if w' = W_idle then marks s + 1 else marks s)\<rparr>"
    and b: "w' = W_idle \<Longrightarrow> marks s + 1 < 2 ^ 31"
  shows "stream_inv st_cap si_num s'"
proof -
  have cap: "0 < st_cap" "length (entries (mem s)) = st_cap" using inv by (simp_all add: stream_inv_def)
  have "snd (snd (threads s i)) \<noteq> W_idle \<longrightarrow> 0 \<le> fst (threads s i) \<and> fst (threads s i) < int si_num" using inv unfolding stream_inv_def by blast
  then have idx: "0 \<le> idx" "idx < int si_num" using t by simp_all
  have cell: "cell_of (mem s) idx n < st_cap" for n using cap by (simp add: cell_of_def)
  have "(m = mem s \<and> w' \<noteq> W_idle) \<or> (m = (mem s)\<lparr>scrape_all := scrape_all (mem s) + 1\<rparr> \<and> w' = W_idle)
    \<or> (\<exists>k < st_cap. entries (mem s) ! k = kStreamFreeEntry \<and> m = (mem s)\<lparr>entries := (entries (mem s))[k := idx]\<rparr> \<and> w' = W_idle)"
    using t(2) by (cases w) (insert st cell, simp_all split: if_splits, blast+)
  then consider (same) "m = mem s" "w' \<noteq> W_idle" | (scrape) "m = (mem s)\<lparr>scrape_all := scrape_all (mem s) + 1\<rparr>" "w' = W_idle"
    | (store) k where "k < st_cap" "entries (mem s) ! k = kStreamFreeEntry" "m = (mem s)\<lparr>entries := (entries (mem s))[k := idx]\<rparr>" "w' = W_idle"
    by blast
  then show ?thesis
  proof cases
    case same
    then show ?thesis using inv t idx by (auto simp: stream_inv_def covered_def s')
  next
    case scrape
    note sc = scrape_bounds [OF inv b [OF scrape(2)] scrape(1)]
    have "covered s' j" for j using sc(2) by (simp add: covered_def s')
    then show ?thesis using inv idx sc(1) scrape by (auto simp: stream_inv_def s')
  next
    case store
    have e: "entries m = (entries (mem s))[k := idx]" "scrape_all m = scrape_all (mem s)" by (simp_all add: store(3))
    have "covered s' j" if "j \<in> insert idx (pending s)" for j
    proof (cases "j = idx")
      case True
      then show ?thesis using store(1) cap(2) set_update_memI [of k "entries (mem s)" idx] by (simp add: covered_def s' e)
    next
      case False
      then have "0 \<le> j" "covered s j" using that inv by (auto simp: stream_inv_def)
      then show ?thesis using set_update_free [of k "entries (mem s)" j idx] store(1, 2) cap(2) by (auto simp: covered_def s' e overflowed_def)
    qed
    moreover have "v = kStreamFreeEntry \<or> 0 \<le> v \<and> v < int si_num" if "v \<in> set (entries m)" for v
      using that set_update_subset_insert [of "entries (mem s)" k idx] inv idx by (auto simp: e stream_inv_def)
    moreover have "n < st_cap \<and> entries m ! n = v \<and> v \<noteq> kStreamFreeEntry" if "agent s = R_take f n v" for f n v
      using that inv store(2) by (cases "n = k") (auto simp: stream_inv_def e)
    ultimately show ?thesis using inv idx store(4) cap by (auto simp: stream_inv_def s' e)
  qed
qed

lemma next_inv:
  assumes inv: "stream_inv st_cap si_num s" and a: "agent s \<noteq> R_idle" and st: "next_step (mem s, agent s) = ((m, a'), r)"
    and s': "s' = s\<lparr>mem := m, agent := a', pending := told r (pending s)\<rparr>"
  shows "stream_inv st_cap si_num s'"
proof (cases "agent s")
  case R_start
  then show ?thesis using st inv by (auto simp: s' stream_inv_def covered_def full_scanning_def told_def split: if_splits)
next
  case R_scrape
  then show ?thesis using st inv by (auto simp: s' stream_inv_def covered_def full_scanning_def told_def)
next
  case (R_scan f i)
  then show ?thesis using st inv
    by (cases f) (auto simp: s' stream_inv_def covered_def full_scanning_def told_def kStreamOverflow_def kStreamNoEntries_def split: if_splits)
next
  case (R_take f i v)
  let ?es = "entries (mem s)"
  have i: "i < length ?es" "?es ! i = v" "v \<noteq> kStreamFreeEntry" using inv R_take by (auto simp: stream_inv_def)
  have e: "entries m = ?es[i := kStreamFreeEntry]" "scrape_all m = scrape_all (mem s)" using st R_take by (auto simp: Let_def split: if_splits)
  have other: "j \<in> set (?es[i := kStreamFreeEntry])" if mj: "j \<in> set ?es" "j \<noteq> v" for j
  proof -
    obtain k where k: "k < length ?es" "?es ! k = j" using mj(1) by (auto simp: in_set_conv_nth)
    then have "k \<noteq> i" using i(2) mj(2) k(2) by auto
    then have "?es[i := kStreamFreeEntry] ! k = j" using k by simp
    moreover have "?es[i := kStreamFreeEntry] ! k \<in> set (?es[i := kStreamFreeEntry])" using k(1) by (intro nth_mem) simp
    ultimately show ?thesis by simp
  qed
  have sub: "set (entries m) \<subseteq> insert kStreamFreeEntry (set ?es)" unfolding e(1) by (rule set_update_subset_insert)
  have cov: "covered s' j" if "j \<in> told r (pending s)" for j
  proof -
    have "j \<in> pending s" using that by (auto simp: told_def split: option.splits if_splits)
    then have c: "covered s j" using inv by (simp add: stream_inv_def)
    show ?thesis
    proof (cases f)
      case True
      then show ?thesis using st R_take by (auto simp: covered_def full_scanning_def s' Let_def)
    next
      case False
      then have r: "r = Some v" "a' = R_idle" using st R_take by (auto simp: Let_def)
      then have "j \<noteq> v" using that by (auto simp: told_def split: if_splits)
      then show ?thesis using c other [of j] R_take False by (auto simp: covered_def s' e overflowed_def full_scanning_def)
    qed
  qed
  have "0 \<le> j" if "j \<in> told r (pending s)" for j using that inv by (auto simp: told_def stream_inv_def split: option.splits if_splits)
  moreover have "a' \<noteq> R_take g n u" for g n u using st R_take by (auto simp: Let_def split: if_splits)
  ultimately show ?thesis using inv cov sub by (auto simp: stream_inv_def s' e)
qed (use a in simp)

lemma stream_inv_run:
  assumes "stream_run st_cap si_num s" and "marks s < 2 ^ 31" shows "stream_inv st_cap si_num s"
  using assms
proof (induction rule: stream_run.induct)
  case init
  then show ?case by (simp add: stream_inv_def sys_init_def stream_init_def)
next
  case (call_mark s i idx num_retries)
  then show ?case by (auto simp: stream_inv_def covered_def)
next
  case (call_next s)
  then show ?case by (auto simp: stream_inv_def covered_def full_scanning_def)
next
  case (mark s i idx num_retries w ok m w')
  then have inv: "stream_inv st_cap si_num s" by (auto split: if_splits)
  show ?case by (rule mark_inv [OF inv mark.hyps(2-4) refl]) (use mark.prems in simp)
next
  case (nxt s m a r)
  then show ?case using next_inv [OF _ nxt.hyps(2, 3) refl] by simp
qed

section \<open>Draining the stream\<close>

text \<open>The results of \<open>n\<close> calls, one after the other.\<close>

fun next_calls :: "nat \<Rightarrow> stream \<Rightarrow> int list" where
  "next_calls 0 m = []"
| "next_calls (Suc n) m = (let (v, m) = NextUpdatedIndex m in v # next_calls n m)"

lemma full_scan: "fst (scan_loop True i m) = kStreamOverflow"
proof (induction True i m rule: scan_loop.induct)
  case (1 i m)
  then show ?case by (subst scan_loop.simps) (auto simp: Let_def)
qed

text \<open>A scan that is not a full one returns the first entry.\<close>

lemma first_entry:
  "i \<le> length (entries m) \<Longrightarrow> scan_loop False i m = (case find (\<lambda>j. entries m ! j \<noteq> kStreamFreeEntry) [i..<length (entries m)] of
     Some j \<Rightarrow> (entries m ! j, m\<lparr>entries := (entries m)[j := kStreamFreeEntry]\<rparr>) | None \<Rightarrow> (kStreamNoEntries, m))"
proof (induction False i m rule: scan_loop.induct)
  case (1 i m)
  show ?case
  proof (cases "i < length (entries m)")
    case True
    then have u: "[i..<length (entries m)] = i # [i + 1..<length (entries m)]" by (simp add: upt_conv_Cons)
    show ?thesis
    proof (cases "entries m ! i = kStreamFreeEntry")
      case free: True
      have "scan_loop False (i + 1) m = (case find (\<lambda>j. entries m ! j \<noteq> kStreamFreeEntry) [i + 1..<length (entries m)] of
         Some j \<Rightarrow> (entries m ! j, m\<lparr>entries := (entries m)[j := kStreamFreeEntry]\<rparr>) | None \<Rightarrow> (kStreamNoEntries, m))"
        using 1(2) [OF True refl] free True by simp
      then show ?thesis unfolding u using True free by (subst scan_loop.simps) (simp add: Let_def)
    next
      case False
      then show ?thesis unfolding u using True by (subst scan_loop.simps) (simp add: Let_def)
    qed
  next
    case False
    then show ?thesis using 1(3) by (subst scan_loop.simps) simp
  qed
qed

definition used :: "stream \<Rightarrow> nat set" where
  "used m = {j. j < length (entries m) \<and> entries m ! j \<noteq> kStreamFreeEntry}"

lemma drain_entries:
  assumes "\<not> overflowed m" and "card (used m) \<le> n" and "idx \<in> set (entries m)" and "idx \<noteq> kStreamFreeEntry"
  shows "idx \<in> set (next_calls n m)"
  using assms
proof (induction n arbitrary: m)
  case 0
  then have "used m = {}" by (simp add: used_def)
  then show ?case using 0(3, 4) by (auto simp: used_def in_set_conv_nth)
next
  case (Suc n)
  let ?p = "\<lambda>j. entries m ! j \<noteq> kStreamFreeEntry"
  obtain k where k: "k < length (entries m)" "entries m ! k = idx" using Suc.prems(3) by (auto simp: in_set_conv_nth)
  have "find ?p [0..<length (entries m)] \<noteq> None" using k Suc.prems(4) by (auto simp: find_None_iff)
  then obtain j where f: "find ?p [0..<length (entries m)] = Some j" by blast
  have j: "j < length (entries m)" "?p j" using f by (auto simp: find_Some_iff)
  let ?m = "m\<lparr>entries := (entries m)[j := kStreamFreeEntry]\<rparr>"
  have nx: "NextUpdatedIndex m = (entries m ! j, ?m)" using Suc.prems(1) first_entry [of 0 m] f by (simp add: NextUpdatedIndex_def)
  have us: "used ?m = used m - {j}" using j by (auto simp: used_def nth_list_update)
  have fin: "finite (used m)" by (simp add: used_def)
  show ?case
  proof (cases "j = k")
    case True
    then show ?thesis using nx k by simp
  next
    case False
    have "j \<in> used m" using j by (simp add: used_def)
    then have "card (used ?m) \<le> n" using Suc.prems(2) fin us by simp
    moreover have "idx \<in> set (entries ?m)" using k False nth_mem [of k "entries ?m"] by simp
    ultimately show ?thesis using Suc.IH [of ?m] Suc.prems(1, 4) nx by (simp add: overflowed_def)
  qed
qed

lemma scan_subset: "set (entries (snd (scan_loop f i m))) \<subseteq> insert kStreamFreeEntry (set (entries m))"
proof (induction f i m rule: scan_loop.induct)
  case (1 f i m)
  let ?m = "m\<lparr>entries := (entries m)[i := kStreamFreeEntry]\<rparr>"
  have "set (entries ?m) \<subseteq> insert kStreamFreeEntry (set (entries m))" using set_update_subset_insert [of "entries m" i kStreamFreeEntry] by simp
  moreover have "set (entries (snd (scan_loop f (i + 1) ?m))) \<subseteq> insert kStreamFreeEntry (set (entries ?m))"
    if "i < length (entries m)" "entries m ! i \<noteq> kStreamFreeEntry" f using 1(1) [OF that(1) refl that(2) refl] that(3) by simp
  moreover have "set (entries (snd (scan_loop f (i + 1) m))) \<subseteq> insert kStreamFreeEntry (set (entries m))"
    if "i < length (entries m)" "entries m ! i = kStreamFreeEntry" using 1(2) [OF that(1) refl] that(2) by simp
  ultimately show ?case by (subst scan_loop.simps) (auto simp: Let_def)
qed

lemma next_subset: "set (entries (snd (NextUpdatedIndex m))) \<subseteq> insert kStreamFreeEntry (set (entries m))"
  using scan_subset [of True 0 "m\<lparr>scrape_all := 0\<rparr>"] scan_subset [of False 0 m] by (simp add: NextUpdatedIndex_def)

lemma next_value: "fst (NextUpdatedIndex m) \<in> {kStreamNoEntries, kStreamOverflow} \<union> (set (entries m) - {kStreamFreeEntry})"
proof (cases "overflowed m")
  case False
  then show ?thesis using first_entry [of 0 m] by (auto simp: NextUpdatedIndex_def find_Some_iff split: option.splits)
qed (simp add: NextUpdatedIndex_def full_scan)

lemma next_calls_values:
  "set (next_calls n m) \<subseteq> {kStreamNoEntries, kStreamOverflow} \<union> (set (entries m) - {kStreamFreeEntry})"
proof (induction n arbitrary: m)
  case (Suc n)
  obtain v m' where n: "NextUpdatedIndex m = (v, m')" by (meson surj_pair)
  then show ?case using Suc.IH [of m'] next_value [of m] next_subset [of m] by auto
qed simp

section \<open>Calls without interference\<close>

fun next_to_end :: "nat \<Rightarrow> stream \<times> reader \<Rightarrow> (int \<times> stream) option" where
  "next_to_end 0 c = None"
| "next_to_end (Suc n) c = (case next_step c of ((m, a), Some v) \<Rightarrow> Some (v, m) | (c, None) \<Rightarrow> next_to_end n c)"

fun mark_to_end :: "nat \<Rightarrow> int \<Rightarrow> int \<Rightarrow> stream \<times> writer \<Rightarrow> stream option" where
  "mark_to_end 0 idx num_retries c = None"
| "mark_to_end (Suc n) idx num_retries c = (case mark_step True idx num_retries c of (m, w) \<Rightarrow>
     if w = W_idle then Some m else mark_to_end n idx num_retries (m, w))"

lemma scan_to_end:
  "2 * (length (entries m) - i) < n \<Longrightarrow> next_to_end n (m, R_scan f i) = Some (scan_loop f i m)"
proof (induction f i m arbitrary: n rule: scan_loop.induct)
  case (1 f i m)
  let ?m = "m\<lparr>entries := (entries m)[i := kStreamFreeEntry]\<rparr>"
  obtain k where n: "n = Suc k" using 1(3) by (cases n) auto
  show ?case
  proof (cases "i < length (entries m)")
    case True
    then obtain j where k: "k = Suc j" using 1(3) n by (cases k) auto
    show ?thesis
    proof (cases "entries m ! i = kStreamFreeEntry")
      case free: True
      have "next_to_end k (m, R_scan f (i + 1)) = Some (scan_loop f (i + 1) m)" using 1(2) [OF True refl] free 1(3) n True by simp
      then show ?thesis using True free n by (subst scan_loop.simps) (simp add: Let_def)
    next
      case False
      show ?thesis
      proof (cases f)
        case full: True
        have "next_to_end j (?m, R_scan f (i + 1)) = Some (scan_loop f (i + 1) ?m)" using 1(1) [OF True refl False refl] full 1(3) n k True by simp
        then show ?thesis using True False full n k by (subst scan_loop.simps) (simp add: Let_def)
      next
        case nf: False
        then show ?thesis using True False n k by (subst scan_loop.simps) (simp add: Let_def)
      qed
    qed
  next
    case False
    then show ?thesis using n by (subst scan_loop.simps) simp
  qed
qed

lemma probe_to_end:
  "int i + int k = max (int i) (num_retries + 1) \<Longrightarrow> 2 * k < n \<Longrightarrow> mark_to_end n idx num_retries (m, W_probe i) = Some (mark_loop idx i k m)"
proof (induction k arbitrary: i n)
  case 0
  then show ?case by (cases n) auto
next
  case (Suc k)
  then obtain j where n: "n = Suc (Suc j)" by (cases n; cases "n - 1") auto
  show ?case
  proof (cases "entries m ! cell_of m idx i = kStreamFreeEntry")
    case True
    then show ?thesis using Suc.prems n by auto
  next
    case False
    have "mark_to_end (Suc j) idx num_retries (m, W_probe (i + 1)) = Some (mark_loop idx (i + 1) k m)" using Suc.prems n by (intro Suc.IH) auto
    then show ?thesis using Suc.prems n False by auto
  qed
qed

section \<open>Properties\<close>

text \<open>
  C8. No update is lost.  However the calls of any number of threads and of the agent have interleaved, with
  fewer than \<open>2 ^ 31\<close> marks in total, when the agent is between two calls, every item whose marking call has returned and that the agent has not been
  told of is among the results of the next \<open>st_cap\<close> calls, the number that \<open>RefreshSchedParams\<close> makes, when
  they run without interference,
  unless one of them reports an overflow; and the results are the two codes or indices of items.
\<close>

theorem prio_stream_no_lost_update:
  assumes "stream_run st_cap si_num s" and "marks s < 2 ^ 31" and "agent s = R_idle" and "idx \<in> pending s"
  shows "(idx \<in> set (next_calls st_cap (mem s)) \<or> kStreamOverflow \<in> set (next_calls st_cap (mem s)))
    \<and> (\<forall>v \<in> set (next_calls st_cap (mem s)). v = kStreamNoEntries \<or> v = kStreamOverflow \<or> 0 \<le> v \<and> v < int si_num)"
proof -
  have inv: "stream_inv st_cap si_num s" by (rule stream_inv_run [OF assms(1, 2)])
  have c: "idx \<in> set (entries (mem s)) \<or> overflowed (mem s)" and idx: "0 \<le> idx" "0 < st_cap"
    using inv assms(3, 4) by (auto simp: stream_inv_def covered_def full_scanning_def)
  have "idx \<in> set (next_calls st_cap (mem s)) \<or> kStreamOverflow \<in> set (next_calls st_cap (mem s))"
  proof (cases "overflowed (mem s)")
    case True
    obtain n where n: "st_cap = Suc n" using idx(2) by (cases st_cap) auto
    have "fst (NextUpdatedIndex (mem s)) = kStreamOverflow" using True by (simp add: NextUpdatedIndex_def full_scan)
    then show ?thesis by (cases "NextUpdatedIndex (mem s)") (simp add: n)
  next
    case False
    have "used (mem s) \<subseteq> {..<st_cap}" using inv by (auto simp: used_def stream_inv_def)
    then have "card (used (mem s)) \<le> st_cap" using card_mono [of "{..<st_cap}"] by fastforce
    then show ?thesis using drain_entries [OF False] c False idx(1) by simp
  qed
  then show ?thesis using next_calls_values [of st_cap "mem s"] inv by (auto simp: stream_inv_def)
qed

definition ex_sys :: sys where
  "ex_sys = \<lparr>mem = \<lparr>scrape_all = 0, entries = [-1, 4, -1]\<rparr>, threads = (\<lambda>_. (0, 0, W_idle))(0 := (4, 0, W_idle)), agent = R_idle, pending = {4}, marks = 1\<rparr>"

lemma ex_stream_run: "stream_run 3 9 ex_sys"
proof -
  have z: "sys_init 3 = \<lparr>mem = \<lparr>scrape_all = 0, entries = [-1, -1, -1]\<rparr>, threads = (\<lambda>_. (0, 0, W_idle)), agent = R_idle, pending = {}, marks = 0\<rparr>"
    by (simp add: sys_init_def stream_init_def numeral_3_eq_3)
  let ?s = "\<lambda>w. sys_init 3\<lparr>threads := (\<lambda>_. (0, 0, W_idle))(0 := (4, 0, w))\<rparr>"
  have c: "cell_of (mem (sys_init 3)) 4 0 = 1" by (simp add: z cell_of_def)
  have "stream_run 3 9 (?s W_start)" using stream_run.call_mark [OF stream_run.init, of 3 0 4 9 0] by (simp add: z)
  from stream_run.mark [OF this, of 0 4 0 W_start True] have "stream_run 3 9 (?s (W_probe 0))" by (simp add: z overflowed_def)
  from stream_run.mark [OF this, of 0 4 0 "W_probe 0" True] have "stream_run 3 9 (?s (W_cas 0))" by (simp add: z cell_of_def)
  from stream_run.mark [OF this, of 0 4 0 "W_cas 0" True] show ?thesis by (simp add: z cell_of_def ex_sys_def)
qed

theorem prio_stream_no_lost_update_witness: "4 \<in> set (next_calls 3 \<lparr>scrape_all = 0, entries = [-1, 4, -1]\<rparr>)"
proof -
  have "next_calls 3 \<lparr>scrape_all = 0, entries = [-1, 4, -1]\<rparr> = [4, -1, -1]"
    by (simp add: numeral_3_eq_3 NextUpdatedIndex_def overflowed_def scan_loop.simps kStreamNoEntries_def Let_def)
  then show ?thesis using prio_stream_no_lost_update [OF ex_stream_run, of 4] by (simp add: ex_sys_def)
qed

text \<open>
  The accesses of a call, run without interference, are the call as written: \<open>MarkUpdatedIndex\<close> takes at
  most two accesses for each attempt and two more, \<open>NextUpdatedIndex\<close> at most two for each cell of the
  stream and three more.
\<close>

lemma prio_stream_calls_equiv:
  "next_to_end (2 * length (entries m) + 3) (m, R_start) = Some (NextUpdatedIndex m)
   \<and> mark_to_end (2 * nat (num_retries + 1) + 2) idx num_retries (m, W_start) = Some (MarkUpdatedIndex idx num_retries m)"
proof
  let ?n = "length (entries m)"
  have "next_to_end (2 * ?n + 1) (m\<lparr>scrape_all := 0\<rparr>, R_scan True 0) = Some (scan_loop True 0 (m\<lparr>scrape_all := 0\<rparr>))"
    "next_to_end (2 * ?n + 2) (m, R_scan False 0) = Some (scan_loop False 0 m)" by (rule scan_to_end; simp)+
  then show "next_to_end (2 * ?n + 3) (m, R_start) = Some (NextUpdatedIndex m)"
    by (simp add: numeral_3_eq_3 NextUpdatedIndex_def)
  let ?k = "nat (num_retries + 1)"
  have "mark_to_end (2 * ?k + 1) idx num_retries (m, W_probe 0) = Some (mark_loop idx 0 ?k m)" by (rule probe_to_end) auto
  then show "mark_to_end (2 * ?k + 2) idx num_retries (m, W_start) = Some (MarkUpdatedIndex idx num_retries m)"
    by (simp add: MarkUpdatedIndex_def numeral_2_eq_2)
qed

end
