(* ===== verification/Shmem.thy ===== *)
theory Shmem
  imports Prelude "HOL-Library.Sublist"
begin

unbundle bit_operations_syntax

text \<open>
  The shared memory regions of \<open>shared/shmem.cc\<close>: a process creates a region with a name and marks it ready,
  another process finds it among the open files of the first one, waits for it and checks its header.
  The answers of the operating system are parameters.
\<close>

section \<open>Regions\<close>

definition kHugepageSize :: u64 where "kHugepageSize = 2 * 1024 * 1024"
definition kHeaderReservedBytes :: u64 where "kHeaderReservedBytes = 4096"
definition kHeaderVersion :: int where "kHeaderVersion = 1"
definition kMemFdPrefix :: string where "kMemFdPrefix = ''ghost-shmem-''"

record InternalHeader =
  header_version :: int
  mapping_size :: u64
  header_size :: u64
  client_size :: u64
  ready :: bool
  finished :: bool
  owning_pid :: int
  client_version :: int

text \<open>The pages of a new file are zero.\<close>

definition zero_header :: InternalHeader where
  "zero_header = \<lparr>header_version = 0, mapping_size = 0, header_size = 0, client_size = 0, ready = False, finished = False, owning_pid = 0, client_version = 0\<rparr>"

record GhostShmem =
  memfd :: int
  map_size :: u64
  shm_hdr :: InternalHeader

text \<open>
  The operating system: the entries of \<open>/proc/<pid>/fd\<close> as the iteration meets them, each with the target
  of the link and what opening it returns, and the results of the calls on the file and its mapping.
\<close>

record shm_os =
  proc_fds :: "int \<Rightarrow> (string option \<times> int) list"
  current_tid :: int
  current_pid :: int
  memfd_result :: int
  ftruncate_result :: int
  seals_result :: int
  mmap_ok :: bool
  fstat_result :: int
  st_size :: u64
  mlock_result :: int

section \<open>Operations\<close>

fun find_fd :: "string \<Rightarrow> (string option \<times> int) list \<Rightarrow> int" where
  "find_fd needle [] = -1"
| "find_fd needle ((None, fd) # f) = find_fd needle f"
| "find_fd needle ((Some p, fd) # f) = (if prefix needle p then if fd < 0 then find_fd needle f else fd
     else find_fd needle f)"

definition OpenGhostShmemFd :: "shm_os \<Rightarrow> string \<Rightarrow> int \<Rightarrow> int" where
  "OpenGhostShmemFd os sfx pid = find_fd (''/memfd:'' @ kMemFdPrefix @ sfx) (proc_fds os pid)"

definition CreateShmem :: "shm_os \<Rightarrow> int \<Rightarrow> string \<Rightarrow> u64 \<Rightarrow> GhostShmem option" where
  "CreateShmem os v sfx sz = do {
     CHECK (OpenGhostShmemFd os sfx (current_tid os) = -1);
     CHECK (0 \<le> memfd_result os);
     let len = roundup2 (sz + kHeaderReservedBytes) kHugepageSize;
     CHECK (len \<le> 0xFFFFFFFF);
     CHECK (ftruncate_result os = 0);
     CHECK (seals_result os = 0);
     CHECK (mmap_ok os);
     let hdr = zero_header\<lparr>header_version := kHeaderVersion, mapping_size := len, header_size := kHeaderReservedBytes,
       client_size := len - kHeaderReservedBytes, owning_pid := current_pid os\<rparr>;
     Some \<lparr>memfd = memfd_result os, map_size = len, shm_hdr = hdr\<rparr> }"

definition MarkReady :: "GhostShmem \<Rightarrow> GhostShmem" where
  "MarkReady r = r\<lparr>shm_hdr := (shm_hdr r)\<lparr>ready := True\<rparr>\<rparr>"

definition shm_size :: "GhostShmem \<Rightarrow> u64" where
  "shm_size r = client_size (shm_hdr r)"

definition Owner :: "GhostShmem option \<Rightarrow> int" where
  "Owner r = (case r of None \<Rightarrow> 0 | Some r \<Rightarrow> owning_pid (shm_hdr r))"

text \<open>Regions without a name of their own are numbered; the second component is the next number.\<close>

definition GetShmemBlob :: "shm_os \<Rightarrow> nat \<Rightarrow> u64 \<Rightarrow> (GhostShmem \<times> nat) option" where
  "GetShmemBlob os unique sz = do {
     shmem \<leftarrow> CreateShmem os 0 (''blob-'' @ dec unique) sz;
     Some (MarkReady shmem, unique + 1) }"

text \<open>The destructor tells the other side; the mapping and the file are then gone.\<close>

definition destroy :: "GhostShmem \<Rightarrow> InternalHeader" where
  "destroy r = (shm_hdr r)\<lparr>finished := True\<rparr>"

text \<open>\<open>WaitForReady\<close> polls the header, the \<open>i\<close>-th load finds \<open>loads i\<close>: it returns when one finds the region ready.\<close>

partial_function (option) WaitForReady :: "(nat \<Rightarrow> InternalHeader) \<Rightarrow> nat \<Rightarrow> InternalHeader option" where
  "WaitForReady loads i = (if ready (loads i) then Some (loads i) else WaitForReady loads (i + 1))"

definition ConnectShmem :: "shm_os \<Rightarrow> (nat \<Rightarrow> InternalHeader) \<Rightarrow> int \<Rightarrow> string \<Rightarrow> int \<Rightarrow> GhostShmem option option" where
  "ConnectShmem os loads v sfx pid = (let fd = OpenGhostShmemFd os sfx pid in
     if fd < 0 then Some None
     else do {
       CHECK (fstat_result os = 0);
       let len = st_size os;
       CHECK (mmap_ok os);
       CHECK (mlock_result os = 0);
       hdr \<leftarrow> WaitForReady loads 0;
       CHECK (header_version hdr = kHeaderVersion);
       CHECK (client_version hdr = v);
       CHECK (mapping_size hdr = len);
       CHECK (header_size hdr = kHeaderReservedBytes);
       CHECK (owning_pid hdr = pid);
       Some (Some \<lparr>memfd = fd, map_size = len, shm_hdr = hdr\<rparr>) })"

section \<open>Sizes\<close>

lemma and_not_mask: "w AND NOT (mask n) = push_bit n (drop_bit n w)" for w :: u64
  by (rule bit_eqI) (auto simp: bit_simps)

lemma unat_clear_low:
  fixes w :: u64
  shows "unat (w AND NOT (mask n)) = unat w div 2 ^ n * 2 ^ n"
proof -
  have "unat w div 2 ^ n * 2 ^ n < 2 ^ 64"
    by (rule le_less_trans [OF div_times_less_eq_dividend]) (use unsigned_less [of w, where 'a = nat] in simp)
  then show ?thesis
    unfolding and_not_mask unsigned_push_bit_eq unsigned_drop_bit_eq by (simp add: drop_bit_eq_div push_bit_eq_mult take_bit_nat_eq_self unsigned_less [of w, where 'a = nat, simplified])
qed

lemma unat_roundup2:
  assumes "unat x + 2 ^ 21 \<le> 2 ^ 64"
  shows "unat (roundup2 x kHugepageSize) = (unat x + (2 ^ 21 - 1)) div 2 ^ 21 * 2 ^ 21"
proof -
  have "kHugepageSize - 1 = mask 21" by (simp add: kHugepageSize_def mask_eq_exp_minus_1)
  moreover have "unat (x + mask 21) = unat x + (2 ^ 21 - 1)"
    using assms by (simp add: unat_word_ariths mask_eq_exp_minus_1)
  ultimately show ?thesis by (simp add: roundup2_def unat_clear_low)
qed

lemma roundup_ge: "0 < d \<Longrightarrow> n \<le> (n + (d - 1)) div d * d" for n d :: nat
  using div_mult_mod_eq [of "n + (d - 1)" d] mod_less_divisor [of d "n + (d - 1)"] by linarith

lemma create_size:
  assumes "CreateShmem os v name sz = Some r" and "unat sz + 4096 + 2 ^ 21 \<le> 2 ^ 64"
  shows "unat (map_size r) = (unat sz + 4096 + (2 ^ 21 - 1)) div 2 ^ 21 * 2 ^ 21"
    and "unat (shm_size r) + 4096 = unat (map_size r)" and "unat sz \<le> unat (shm_size r)" and "unat (map_size r) < 2 ^ 32"
proof -
  let ?n = "unat sz + 4096"
  have m: "map_size r = roundup2 (sz + kHeaderReservedBytes) kHugepageSize" "map_size r \<le> 0xFFFFFFFF" "shm_size r = map_size r - kHeaderReservedBytes"
    using assms(1) by (auto simp: CreateShmem_def Let_def CHECK_def shm_size_def split: if_splits)
  have "unat (sz + kHeaderReservedBytes) = ?n"
    using assms(2) by (simp add: unat_word_ariths kHeaderReservedBytes_def)
  then show u: "unat (map_size r) = (?n + (2 ^ 21 - 1)) div 2 ^ 21 * 2 ^ 21"
    using m(1) unat_roundup2 [of "sz + kHeaderReservedBytes"] assms(2) by simp
  have ge: "?n \<le> unat (map_size r)" unfolding u by (rule roundup_ge) simp
  then have "kHeaderReservedBytes \<le> map_size r" by (simp add: word_le_nat_alt kHeaderReservedBytes_def)
  then have "unat (shm_size r) = unat (map_size r) - 4096" by (simp add: m(3) unat_sub kHeaderReservedBytes_def)
  then show "unat (shm_size r) + 4096 = unat (map_size r)" "unat sz \<le> unat (shm_size r)" using ge by simp_all
  show "unat (map_size r) < 2 ^ 32" using m(2) by (simp add: word_le_nat_alt)
qed

lemma wait_ready:
  assumes "ready (loads k)" "i \<le> k" "\<forall>j. i \<le> j \<and> j < k \<longrightarrow> \<not> ready (loads j)"
  shows "WaitForReady loads i = Some (loads k)"
  using assms
proof (induction "k - i" arbitrary: i)
  case 0
  then show ?case by (simp add: WaitForReady.simps)
next
  case (Suc n)
  then show ?case using Suc(1) [of "i + 1"] by (auto simp: WaitForReady.simps [of loads i])
qed

lemma connect_created:
  assumes "CreateShmem os v name sz = Some r"
    and "OpenGhostShmemFd os' name (current_pid os) = fd" "0 \<le> fd"
    and "fstat_result os' = 0" "mmap_ok os'" "mlock_result os' = 0" "st_size os' = map_size r"
    and "\<forall>i < k. \<not> ready (loads i)" "loads k = shm_hdr (MarkReady r)"
  shows "ConnectShmem os' loads w name (current_pid os)
    = (if w = 0 then Some (Some \<lparr>memfd = fd, map_size = map_size r, shm_hdr = shm_hdr (MarkReady r)\<rparr>) else None)"
proof -
  have "ready (loads k)" using assms(9) by (simp add: MarkReady_def)
  then have "WaitForReady loads 0 = Some (shm_hdr (MarkReady r))" using assms(8,9) wait_ready [of loads k 0] by simp
  then show ?thesis
    using assms(1-7) by (auto simp: ConnectShmem_def CreateShmem_def Let_def CHECK_def MarkReady_def zero_header_def split: if_splits)
qed

text \<open>The search by name takes the first file whose name begins with the name asked for.\<close>

lemma open_takes_prefix:
  "proc_fds os pid = (Some (''/memfd:'' @ kMemFdPrefix @ name @ rest), fd) # f \<Longrightarrow> 0 \<le> fd \<Longrightarrow> OpenGhostShmemFd os name pid = fd"
  by (simp add: OpenGhostShmemFd_def)

section \<open>Properties\<close>

text \<open>
  C40.  A region that \<open>CreateShmem\<close> returns has at least the size asked for behind its header page, and its
  mapping consists of whole huge pages and is below 4 GiB.  A process that finds the file, whose calls succeed and that
  polls until the owner has marked the region ready attaches to the same region when it passes the
  client version 0, and aborts when it passes any other version, whatever version the region was created
  with.
\<close>

theorem shmem_create_attach:
  assumes "CreateShmem os v name sz = Some r" and "unat sz + 4096 + 2 ^ 21 \<le> 2 ^ 64"
    and "OpenGhostShmemFd os' name (current_pid os) = fd" "0 \<le> fd"
    and "fstat_result os' = 0" "mmap_ok os'" "mlock_result os' = 0" "st_size os' = map_size r"
    and "\<forall>i < k. \<not> ready (loads i)" "loads k = shm_hdr (MarkReady r)"
  shows "unat sz \<le> unat (shm_size r) \<and> unat (shm_size r) + 4096 = unat (map_size r) \<and> 2 ^ 21 dvd unat (map_size r)
    \<and> unat (map_size r) < 2 ^ 32
    \<and> ConnectShmem os' loads w name (current_pid os)
        = (if w = 0 then Some (Some \<lparr>memfd = fd, map_size = map_size r, shm_hdr = shm_hdr (MarkReady r)\<rparr>) else None)"
  using create_size [OF assms(1,2)] connect_created [OF assms(1,3-10)] by auto

definition ex_shm_os :: shm_os where
  "ex_shm_os = \<lparr>proc_fds = (\<lambda>pid. if pid = 7 then [(Some ''/memfd:ghost-shmem-blob-0 (deleted)'', 5)] else []), current_tid = 8, current_pid = 7,
     memfd_result = 3, ftruncate_result = 0, seals_result = 0, mmap_ok = True, fstat_result = 0, st_size = 2097152, mlock_result = 0\<rparr>"

definition ex_region :: GhostShmem where
  "ex_region = \<lparr>memfd = 3, map_size = 2097152, shm_hdr = zero_header\<lparr>header_version := 1, mapping_size := 2097152, header_size := 4096, client_size := 2093056, owning_pid := 7\<rparr>\<rparr>"

theorem shmem_create_attach_witness:
  "CreateShmem ex_shm_os 3 ''blob-0'' 100 = Some ex_region \<and> 100 \<le> unat (shm_size ex_region)
   \<and> ConnectShmem ex_shm_os (\<lambda>i. if i < 2 then shm_hdr ex_region else shm_hdr (MarkReady ex_region)) 3 ''blob-0'' 7 = None"
proof -
  have c: "CreateShmem ex_shm_os 3 ''blob-0'' 100 = Some ex_region"
    by (simp add: CreateShmem_def ex_shm_os_def ex_region_def OpenGhostShmemFd_def roundup2_def kHugepageSize_def kHeaderReservedBytes_def kHeaderVersion_def)
  have "OpenGhostShmemFd ex_shm_os ''blob-0'' (current_pid ex_shm_os) = 5"
    by (simp add: OpenGhostShmemFd_def ex_shm_os_def kMemFdPrefix_def)
  then show ?thesis
    using shmem_create_attach [OF c, of ex_shm_os 5 2 "\<lambda>i. if i < 2 then shm_hdr ex_region else shm_hdr (MarkReady ex_region)" 3] c
    by (simp add: ex_shm_os_def ex_region_def zero_header_def)
qed

end
