(* ===== verification/Prio_Table.thy ===== *)
theory Prio_Table
  imports Prio_Stream Shmem
begin

unbundle bit_operations_syntax

text \<open>
  The layout of a priority table in its shared memory region (\<open>shared/prio_table.cc\<close>): the header, the
  scheduling items, the work classes and the stream of updates.  Offsets are kept at the widths of
  the source.
\<close>

section \<open>Layout\<close>

text \<open>The structures are aligned to a cache line, and each fills one.\<close>

definition cacheline_size :: u64 where "cacheline_size = 64"
definition sizeof_hdr :: u64 where "sizeof_hdr = 64"
definition sizeof_sched_item :: u64 where "sizeof_sched_item = 64"
definition sizeof_work_class :: u64 where "sizeof_work_class = 64"
definition sizeof_stream :: u64 where "sizeof_stream = 4"
definition sizeof_atomic_int :: u64 where "sizeof_atomic_int = 4"

record ghost_shmem_hdr =
  version :: "16 word"
  hdrlen :: "16 word"
  maplen :: u32
  si_num :: u32
  si_off :: u32
  wc_num :: u32
  wc_off :: u32
  hdr_st_cap :: u32
  st_off :: u32

record PrioTable =
  pt_shmem :: GhostShmem
  pt_hdr :: ghost_shmem_hdr
  pt_stream :: stream

definition shmem_size :: "u32 \<Rightarrow> u32 \<Rightarrow> u32 \<Rightarrow> u64 option" where
  "shmem_size sched_items work_classes stream_capacity = do {
     let sz = 0;
     let sz = sz + sizeof_hdr;
     let sz = sz + sizeof_sched_item * ucast sched_items;
     let sz = sz + sizeof_work_class * ucast work_classes;
     CHECK (sz mod cacheline_size = 0);
     Some (sz + (sizeof_stream + sizeof_atomic_int * ucast stream_capacity)) }"

text \<open>The constructor.  The stream keeps the zero that the new file holds for \<open>scrape_all\<close>.\<close>

definition PrioTable_new :: "shm_os \<Rightarrow> u32 \<Rightarrow> u32 \<Rightarrow> u32 \<Rightarrow> PrioTable option" where
  "PrioTable_new os num_items num_classes cap = do {
     sz \<leftarrow> shmem_size num_items num_classes cap;
     shm \<leftarrow> CreateShmem os 0 ''priotable'' sz;
     let h_len = (ucast sizeof_hdr :: 16 word);
     let i_off = (ucast h_len :: u32);
     let c_off = (ucast (ucast i_off + ucast num_items * sizeof_sched_item) :: u32);
     let s_off = (ucast (ucast c_off + ucast num_classes * sizeof_work_class) :: u32);
     CHECK (s_off mod ucast cacheline_size = 0);
     Some \<lparr>pt_shmem = MarkReady shm,
       pt_hdr = \<lparr>version = 0, hdrlen = h_len, maplen = ucast sz, si_num = num_items, si_off = i_off,
         wc_num = num_classes, wc_off = c_off, hdr_st_cap = cap, st_off = s_off\<rparr>,
       pt_stream = stream_init (unat cap)\<rparr> }"

text \<open>
  Attaching to the table of another process: the header and the stream are those in the shared memory.
\<close>

definition PrioTable_Attach :: "shm_os \<Rightarrow> (nat \<Rightarrow> InternalHeader) \<Rightarrow> ghost_shmem_hdr \<Rightarrow> stream \<Rightarrow> int \<Rightarrow> PrioTable option option" where
  "PrioTable_Attach os loads h st remote = do {
     ret \<leftarrow> ConnectShmem os loads 0 ''priotable'' remote;
     case ret of None \<Rightarrow> Some None
     | Some shm \<Rightarrow> do {
         CHECK (ucast (maplen h) \<le> shm_size shm);
         Some (Some \<lparr>pt_shmem = shm, pt_hdr = h, pt_stream = st\<rparr>) } }"

text \<open>
  The byte offsets of an item, a work class and the stream.  The index of an item is checked, as an unsigned
  number; the index of a work class is not checked, and one that is out of range has no work class.
\<close>

definition sched_item_at :: "ghost_shmem_hdr \<Rightarrow> int \<Rightarrow> u64 option" where
  "sched_item_at h i = do {
     CHECK ((of_int i :: u32) < si_num h);
     Some (ucast (si_off h) + of_int i * sizeof_sched_item) }"

definition work_class_at :: "ghost_shmem_hdr \<Rightarrow> int \<Rightarrow> u64 option" where
  "work_class_at h i = do {
     REQUIRE (0 \<le> i);
     REQUIRE ((of_int i :: u32) < wc_num h);
     Some (ucast (wc_off h) + of_int i * sizeof_work_class) }"

definition stream_at :: "ghost_shmem_hdr \<Rightarrow> u64" where
  "stream_at h = ucast (st_off h)"

section \<open>Sizes and offsets\<close>

lemmas sizeof_defs = cacheline_size_def sizeof_hdr_def sizeof_sched_item_def sizeof_work_class_def sizeof_stream_def sizeof_atomic_int_def

text \<open>The size of a table with \<open>n\<close> items, \<open>c\<close> classes and a stream of \<open>k\<close> entries.\<close>

definition table_size :: "u32 \<Rightarrow> u32 \<Rightarrow> u32 \<Rightarrow> nat" where
  "table_size n c k = 64 + 64 * unat n + 64 * unat c + 4 + 4 * unat k"

lemma table_size_bound: "table_size n c k < 2 ^ 40"
  using unat_u32_less [of n] unat_u32_less [of c] unat_u32_less [of k] by (simp add: table_size_def)

lemma unat_mult_u64: "unat (64 * ucast (n :: u32) :: u64) = 64 * unat n"
  using unat_u32_less [of n] by (simp add: unat_word_ariths unat_ucast_u32)

lemma shmem_size_eq: "\<exists>sz. shmem_size n c k = Some sz \<and> unat sz = table_size n c k"
proof -
  let ?a = "64 + 64 * ucast n + 64 * ucast c :: u64"
  have a: "unat ?a = 64 + 64 * unat n + 64 * unat c"
    using unat_u32_less [of n] unat_u32_less [of c] unat_mult_u64 [of n] unat_mult_u64 [of c] by (simp add: unat_word_ariths)
  have k: "unat (4 * ucast k :: u64) = 4 * unat k" using unat_u32_less [of k] by (simp add: unat_word_ariths unat_ucast_u32)
  have "unat (?a mod 64) = 0" unfolding unat_mod a by simp
  then have "?a mod 64 = 0" by (simp add: unat_eq_0)
  moreover have "unat (?a + (4 + 4 * ucast k)) = table_size n c k"
    unfolding unat_word_ariths(1) [of ?a] unat_word_ariths(1) [of 4] a k table_size_def
    using unat_u32_less [of n] unat_u32_less [of c] unat_u32_less [of k] by simp
  ultimately show ?thesis by (simp add: shmem_size_def sizeof_defs Let_def CHECK_def)
qed

lemma off_add:
  assumes "unat (a :: u32) + 64 * unat (n :: u32) < 2 ^ 32"
  shows "unat (ucast (ucast a + ucast n * (64 :: u64)) :: u32) = unat a + 64 * unat n"
proof -
  have "unat (ucast a + ucast n * (64 :: u64)) = unat a + 64 * unat n"
    using assms by (simp add: unat_word_ariths unat_ucast_u32)
  then show ?thesis using assms by (simp add: unsigned_ucast_eq take_bit_nat_eq_self)
qed

lemma off_index:
  assumes "0 \<le> i" "i < 2 ^ 31"
  shows "unat (ucast (a :: u32) + of_int i * 64 :: u64) = unat a + 64 * nat i" "((of_int i :: u32) < n) = (i < uint n)"
proof -
  have "uint (of_int i :: u64) = i" "uint (of_int i :: u32) = i" using assms by (simp_all add: uint_word_of_int_eq take_bit_int_eq_self)
  then have "unat (of_int i :: u64) = nat i" "((of_int i :: u32) < n) = (i < uint n)" by (simp_all add: word_less_def unat_eq_nat_uint)
  then show "unat (ucast (a :: u32) + of_int i * 64 :: u64) = unat a + 64 * nat i" "((of_int i :: u32) < n) = (i < uint n)"
    using assms unat_u32_less [of a] by (simp_all add: unat_word_ariths unat_ucast_u32)
qed

lemma off_negative:
  assumes "- (2 ^ 31) \<le> i" "i < 0" "unat n < 2 ^ 31"
  shows "\<not> (of_int i :: u32) < n"
proof -
  have "i mod 2 ^ 32 = (i + 2 ^ 32) mod 2 ^ 32" by simp
  also have "\<dots> = i + 2 ^ 32" using assms(1,2) by (intro mod_pos_pos_trivial) simp_all
  finally have "uint (of_int i :: u32) = i + 2 ^ 32" by (simp only: uint_word_of_int_eq take_bit_eq_mod) simp
  moreover have "int (unat n) < int (2 ^ 31)" using assms(3) by (simp only: of_nat_less_iff)
  ultimately show ?thesis using assms(1) by (simp add: word_less_def)
qed

lemma new_offsets:
  assumes "PrioTable_new os n c cap = Some t"
  shows "table_size n c cap \<le> unat (shm_size (pt_shmem t))" "unat (maplen (pt_hdr t)) = table_size n c cap"
    "si_num (pt_hdr t) = n" "wc_num (pt_hdr t) = c" "unat (si_off (pt_hdr t)) = 64"
    "unat (wc_off (pt_hdr t)) = 64 + 64 * unat n" "unat (st_off (pt_hdr t)) = 64 + 64 * unat n + 64 * unat c"
    "pt_stream t = stream_init (unat cap)"
proof -
  obtain sz where sz: "shmem_size n c cap = Some sz" "unat sz = table_size n c cap" using shmem_size_eq by blast
  obtain shm where shm: "CreateShmem os 0 ''priotable'' sz = Some shm"
    using assms sz by (cases "CreateShmem os 0 ''priotable'' sz") (auto simp: PrioTable_new_def)
  let ?c = "ucast (ucast (64 :: u32) + ucast n * (64 :: u64)) :: u32"
  let ?s = "ucast (ucast ?c + ucast c * (64 :: u64)) :: u32"
  have t: "t = \<lparr>pt_shmem = MarkReady shm, pt_hdr = \<lparr>version = 0, hdrlen = 64, maplen = ucast sz, si_num = n, si_off = 64,
      wc_num = c, wc_off = ?c, hdr_st_cap = cap, st_off = ?s\<rparr>, pt_stream = stream_init (unat cap)\<rparr>"
    using assms sz shm by (auto simp: PrioTable_new_def sizeof_defs Let_def CHECK_def split: if_splits)
  have le: "table_size n c cap \<le> unat (shm_size shm)" and lt: "unat (shm_size shm) < 2 ^ 32"
    using create_size [OF shm] sz(2) table_size_bound [of n c cap] by simp_all
  have o: "unat ?c = 64 + 64 * unat n" using off_add [of 64 n] le lt by (simp add: table_size_def)
  moreover have "unat ?s = 64 + 64 * unat n + 64 * unat c" using off_add [of ?c c] o le lt by (simp add: table_size_def)
  moreover have "unat (ucast sz :: u32) = table_size n c cap" using sz(2) le lt by (simp add: unsigned_ucast_eq take_bit_nat_eq_self)
  moreover have "shm_size (MarkReady shm) = shm_size shm" by (simp add: MarkReady_def shm_size_def)
  ultimately show "table_size n c cap \<le> unat (shm_size (pt_shmem t))" "unat (maplen (pt_hdr t)) = table_size n c cap"
    "si_num (pt_hdr t) = n" "wc_num (pt_hdr t) = c" "unat (si_off (pt_hdr t)) = 64"
    "unat (wc_off (pt_hdr t)) = 64 + 64 * unat n" "unat (st_off (pt_hdr t)) = 64 + 64 * unat n + 64 * unat c"
    "pt_stream t = stream_init (unat cap)"
    using le by (simp_all add: t del: unat_add_lem)
qed

text \<open>An agent that attaches to a table sees the header and the stream that the constructor has written.\<close>

lemma attach_table:
  assumes new: "PrioTable_new os n c cap = Some t"
    and os: "OpenGhostShmemFd os' ''priotable'' (current_pid os) = fd" "0 \<le> fd"
    and calls: "fstat_result os' = 0" "mmap_ok os'" "mlock_result os' = 0" "st_size os' = map_size (pt_shmem t)"
    and wait: "\<forall>i < k. \<not> ready (loads i)" "loads k = shm_hdr (pt_shmem t)"
  shows "PrioTable_Attach os' loads (pt_hdr t) (pt_stream t) (current_pid os) = Some (Some (t\<lparr>pt_shmem := pt_shmem t\<lparr>memfd := fd\<rparr>\<rparr>))"
proof -
  obtain sz shm where shm: "CreateShmem os 0 ''priotable'' sz = Some shm" "pt_shmem t = MarkReady shm"
    using new by (auto simp: PrioTable_new_def Let_def bind_eq_Some_conv)
  have m: "map_size (pt_shmem t) = map_size shm" by (simp add: shm MarkReady_def)
  have "ucast (maplen (pt_hdr t)) \<le> shm_size (pt_shmem t)"
    using new_offsets(1,2) [OF new] by (simp add: word_le_nat_alt unat_ucast_u32)
  then show ?thesis
    using connect_created [OF shm(1) os calls [unfolded m] wait [unfolded shm(2)], of 0]
    by (simp add: PrioTable_Attach_def shm(2) CHECK_def MarkReady_def shm_size_def)
qed

section \<open>Properties\<close>

text \<open>
  C39.  In a table that the constructor returns, the items, the work classes and the stream lie one behind
  the other after the header, without overlap and inside the region, although the offsets are computed at 32
  bits: an index has an address exactly when it is in range, item \<open>i\<close> is the cache line \<open>i + 1\<close>, the
  classes follow the items, the stream with its entries follows the classes and ends the map, and
  it starts with all entries free.
\<close>

theorem prio_table_layout:
  assumes "PrioTable_new os n c cap = Some t" and "- (2 ^ 31) \<le> i" "i < 2 ^ 31"
  shows "map_option unat (sched_item_at (pt_hdr t) i) = (if 0 \<le> i \<and> i < uint n then Some (64 + 64 * nat i) else None)
    \<and> map_option unat (work_class_at (pt_hdr t) i) = (if 0 \<le> i \<and> i < uint c then Some (64 + 64 * unat n + 64 * nat i) else None)
    \<and> unat (stream_at (pt_hdr t)) = 64 + 64 * unat n + 64 * unat c
    \<and> unat (stream_at (pt_hdr t)) + 4 + 4 * length (entries (pt_stream t)) = unat (maplen (pt_hdr t))
    \<and> unat (maplen (pt_hdr t)) \<le> unat (shm_size (pt_shmem t))
    \<and> set (entries (pt_stream t)) \<subseteq> {kStreamFreeEntry} \<and> scrape_all (pt_stream t) = 0"
  using new_offsets [OF assms(1)] assms(2,3) off_index [of i] off_negative [of i n] unat_u32_less [of "maplen (pt_hdr t)"]
  by (auto simp: sched_item_at_def work_class_at_def stream_at_def stream_init_def table_size_def sizeof_defs CHECK_def unat_ucast_u32)

definition ex_table :: PrioTable where
  "ex_table = \<lparr>pt_shmem = MarkReady ex_region, pt_hdr = \<lparr>version = 0, hdrlen = 64, maplen = 304, si_num = 2, si_off = 64,
     wc_num = 1, wc_off = 192, hdr_st_cap = 11, st_off = 256\<rparr>, pt_stream = stream_init 11\<rparr>"

theorem prio_table_layout_witness:
  "PrioTable_new ex_shm_os 2 1 11 = Some ex_table \<and> map_option unat (sched_item_at (pt_hdr ex_table) 1) = Some 128
   \<and> unat (stream_at (pt_hdr ex_table)) = 256"
proof -
  have n: "PrioTable_new ex_shm_os 2 1 11 = Some ex_table"
    by (simp add: PrioTable_new_def shmem_size_def CreateShmem_def ex_shm_os_def ex_region_def ex_table_def OpenGhostShmemFd_def roundup2_def
      kHugepageSize_def kHeaderReservedBytes_def kHeaderVersion_def sizeof_defs)
  show ?thesis using prio_table_layout [OF n, of 1] n by simp
qed

end
