(* ===== verification/Prio_Seqcount.thy ===== *)
theory Prio_Seqcount
  imports Prio_Items
begin

unbundle bit_operations_syntax

text \<open>
  The sequence counts of \<open>shared/prio_table.h\<close>: writers of a \<open>sched_item\<close> make the count odd while they
  change the item, and a reader accepts its copy when the count was even and has not changed.  Every access
  to the shared memory is one step, the steps of the writers and of the reader interleave in any
  order, and the memory is taken to be sequentially consistent.  The writers are those that use
  \<open>write_begin\<close> and \<open>write_end\<close>; the agent's store to the flags in \<open>Orchestrator::MakeEngineRunnable\<close>, which takes no
  sequence count, is not one of them.
\<close>

section \<open>Counts\<close>

record item_mem =
  count :: u32
  words :: "u64 list"

definition read_begin :: "item_mem \<Rightarrow> u32" where
  "read_begin m = count m"

definition write_end :: "u32 \<Rightarrow> item_mem \<Rightarrow> item_mem" where
  "write_end begin m = m\<lparr>count := begin + kLocked\<rparr>"

section \<open>Steps\<close>

text \<open>
  A writer has loaded \<open>seq0\<close> (\<open>V_try seq0\<close>), or holds the item, has stored some of the fields and knows
  the count that \<open>write_begin\<close> has returned (\<open>V_hold begin k\<close>).
\<close>

datatype item_writer = V_idle | V_load | V_try u32 | V_hold u32 nat

text \<open>
  One access of \<open>write_begin\<close>, of the stores of the fields \<open>vs\<close>, or of \<open>write_end\<close>.  The weak exchange may
  fail although the count is the expected one; it loads the count when it fails.
\<close>

fun write_step :: "bool \<Rightarrow> u64 list \<Rightarrow> item_mem \<times> item_writer \<Rightarrow> item_mem \<times> item_writer" where
  "write_step ok vs (m, V_idle) = (m, V_idle)"
| "write_step ok vs (m, V_load) = (m, V_try (count m))"
| "write_step ok vs (m, V_try seq0) = (if seq0 AND kLocked \<noteq> 0 then (m, V_try (count m))
     else if count m = seq0 \<and> ok then (m\<lparr>count := seq0 + kLocked\<rparr>, V_hold (seq0 + kLocked) 0)
     else (m, V_try (count m)))"
| "write_step ok vs (m, V_hold begin k) = (if k < length vs then (m\<lparr>words := (words m)[k := vs ! k]\<rparr>, V_hold begin (k + 1))
     else (write_end begin m, V_idle))"

text \<open>\<open>try_write_begin\<close>, from its load to its exchange, which another thread may precede.\<close>

definition try_write_begin :: "u32 \<Rightarrow> item_mem \<Rightarrow> item_mem \<times> bool \<times> u32" where
  "try_write_begin seq0 m = (if seq0 AND kLocked = 0 \<and> count m = seq0 then (m\<lparr>count := seq0 + kLocked\<rparr>, True, seq0 + kLocked)
     else (m, False, (if seq0 AND kLocked = 0 then count m else seq0) + kLocked))"

datatype item_reader = C_idle | C_start | C_copy u32 "u64 list"

text \<open>One access of a reader: \<open>read_begin\<close>, the load of a field, or \<open>read_end\<close>, which returns.\<close>

fun copy_step :: "item_mem \<times> item_reader \<Rightarrow> item_reader \<times> (bool \<times> u64 list) option" where
  "copy_step (m, C_idle) = (C_idle, None)"
| "copy_step (m, C_start) = (C_copy (read_begin m) [], None)"
| "copy_step (m, C_copy begin xs) = (if length xs < length (words m) then (C_copy begin (xs @ [words m ! length xs]), None)
     else (C_idle, Some (read_end begin (count m), xs)))"

text \<open>
  \<open>history\<close> are the contents of the item that the writers have published, \<open>stamp\<close> counts the changes of the
  sequence count up to the \<open>read_begin\<close> of the reader.
\<close>

record item_sys =
  item_of :: item_mem
  writers :: "nat \<Rightarrow> u64 list \<times> item_writer"
  copier :: item_reader
  history :: "u64 list list"
  stamp :: nat

definition holds :: "item_writer \<Rightarrow> bool" where
  "holds w \<longleftrightarrow> (\<exists>b k. w = V_hold b k)"

definition changes :: "item_sys \<Rightarrow> nat" where
  "changes s = 2 * (length (history s) - 1) + (if \<exists>i. holds (snd (writers s i)) then 1 else 0)"

inductive item_run :: "nat \<Rightarrow> item_sys \<Rightarrow> bool" for n where
  init: "length d = n \<Longrightarrow>
    item_run n \<lparr>item_of = \<lparr>count = 0, words = d\<rparr>, writers = (\<lambda>_. ([], V_idle)), copier = C_idle, history = [d], stamp = 0\<rparr>"
| call_write: "item_run n s \<Longrightarrow> snd (writers s i) = V_idle \<Longrightarrow> length vs = n \<Longrightarrow>
    item_run n (s\<lparr>writers := (writers s)(i := (vs, V_load))\<rparr>)"
| wrt: "item_run n s \<Longrightarrow> writers s i = (vs, w) \<Longrightarrow> w \<noteq> V_idle \<Longrightarrow> write_step ok vs (item_of s, w) = (m, w') \<Longrightarrow>
    item_run n (s\<lparr>item_of := m, writers := (writers s)(i := (vs, w')), history := (if w' = V_idle then history s @ [words m] else history s)\<rparr>)"
| call_read: "item_run n s \<Longrightarrow> copier s = C_idle \<Longrightarrow> item_run n (s\<lparr>copier := C_start\<rparr>)"
| cpy: "item_run n s \<Longrightarrow> copier s \<noteq> C_idle \<Longrightarrow> copy_step (item_of s, copier s) = (c, r) \<Longrightarrow>
    item_run n (s\<lparr>copier := c, stamp := (if copier s = C_start then changes s else stamp s)\<rparr>)"

section \<open>The invariant\<close>

lemma locked_of_nat: "(of_nat x :: u32) AND kLocked \<noteq> 0 \<longleftrightarrow> odd x"
proof -
  have "(of_nat x :: u32) AND 1 = of_bool (bit (of_nat x :: u32) 0)" by (simp add: and_one_eq mod_2_eq_odd bit_0)
  also have "bit (of_nat x :: u32) 0 = odd x" by (simp add: bit_of_nat_iff bit_0)
  finally show ?thesis by (simp add: kLocked_def)
qed

lemma of_nat_succ: "(of_nat x :: u32) + kLocked = of_nat (x + 1)"
  by (simp add: kLocked_def add.commute)

lemma of_nat_small: "(of_nat d :: u32) = 0 \<Longrightarrow> d < 2 ^ 32 \<Longrightarrow> d = 0"
  by (auto simp: word_of_nat_eq_0_iff dest: dvd_imp_le)

text \<open>
  The item between two steps: the count counts the changes, at most one writer holds the item, nobody
  changes it when nobody holds it; and the copy of a reader that has seen an even count, unchanged until
  now, is a prefix of the published item.
\<close>

definition writers_inv :: "nat \<Rightarrow> item_sys \<Rightarrow> bool" where
  "writers_inv n s \<longleftrightarrow> length (words (item_of s)) = n \<and> history s \<noteq> [] \<and> count (item_of s) = of_nat (changes s)
     \<and> (\<forall>i. snd (writers s i) \<noteq> V_idle \<longrightarrow> length (fst (writers s i)) = n)
     \<and> (\<forall>i j. holds (snd (writers s i)) \<longrightarrow> holds (snd (writers s j)) \<longrightarrow> i = j)
     \<and> (\<forall>i b k. snd (writers s i) = V_hold b k \<longrightarrow> b = count (item_of s))
     \<and> ((\<forall>i. \<not> holds (snd (writers s i))) \<longrightarrow> words (item_of s) = last (history s))"

definition copy_inv :: "nat \<Rightarrow> item_sys \<Rightarrow> bool" where
  "copy_inv n s \<longleftrightarrow> (\<forall>b xs. copier s = C_copy b xs \<longrightarrow> b = of_nat (stamp s) \<and> stamp s \<le> changes s \<and> length xs \<le> n
     \<and> (even (stamp s) \<longrightarrow> stamp s = changes s \<longrightarrow> xs = take (length xs) (last (history s))))"

lemma holds_simps [simp]: "holds (V_hold b k)" "\<not> holds V_idle" "\<not> holds V_load" "\<not> holds (V_try q)"
  by (simp_all add: holds_def)

lemma even_changes: "even (changes s) \<longleftrightarrow> (\<forall>i. \<not> holds (snd (writers s i)))"
  by (simp add: changes_def)

lemma changes_half: "even (changes s) \<Longrightarrow> changes s div 2 = length (history s) - 1"
  by (auto simp: changes_def split: if_splits)

lemma changes_idle:
  assumes "\<not> holds (snd (writers s i))" "\<not> holds w"
  shows "changes (s\<lparr>item_of := m, writers := (writers s)(i := (vs, w))\<rparr>) = changes s"
proof -
  have "holds (snd (((writers s)(i := (vs, w))) j)) = holds (snd (writers s j))" for j using assms by simp
  then show ?thesis by (simp add: changes_def)
qed

lemma changes_hold:
  assumes "writers s i = (vs, V_hold b k)"
  shows "changes (s\<lparr>item_of := m, writers := (writers s)(i := (vs, V_hold b' k'))\<rparr>) = changes s"
proof -
  have "holds (snd (((writers s)(i := (vs, V_hold b' k'))) j)) = holds (snd (writers s j))" for j using assms by simp
  then show ?thesis by (simp add: changes_def)
qed

lemma writers_holder: "writers_inv n s \<Longrightarrow> snd (writers s j) = V_hold b k \<Longrightarrow> b = count (item_of s)"
  unfolding writers_inv_def by blast

lemma writers_quiet:
  assumes "writers_inv n s" "\<not> holds (snd (writers s i))" "\<not> holds w" "length vs = n"
  shows "writers_inv n (s\<lparr>writers := (writers s)(i := (vs, w))\<rparr>)"
proof -
  have h: "holds (snd (((writers s)(i := (vs, w))) j)) = holds (snd (writers s j))" for j using assms by simp
  have c: "changes (s\<lparr>writers := (writers s)(i := (vs, w))\<rparr>) = changes s"
    using h by (simp add: changes_def)
  have "snd (((writers s)(i := (vs, w))) j) = V_hold b k \<Longrightarrow> b = count (item_of s)" for j b k
    using assms(3) writers_holder [OF assms(1)] by (cases "j = i") auto
  then show ?thesis
    using assms(1,4) c h by (simp add: writers_inv_def)
qed

lemma writers_lock:
  assumes I: "writers_inv n s" and w: "\<not> holds (snd (writers s i))" "length vs = n" and e: "count (item_of s) AND kLocked = 0"
  shows "writers_inv n (s\<lparr>item_of := item_of s\<lparr>count := count (item_of s) + kLocked\<rparr>, writers := (writers s)(i := (vs, V_hold (count (item_of s) + kLocked) 0))\<rparr>)"
    (is "writers_inv n ?s")
proof -
  have c: "count (item_of s) = of_nat (changes s)" using I by (simp add: writers_inv_def)
  have n: "\<not> holds (snd (writers s j))" for j
    using e locked_of_nat [of "changes s"] by (simp add: c even_changes)
  have "changes ?s = changes s + 1" using n by (auto simp: changes_def)
  moreover have "length (fst (writers s j)) = n" if "snd (writers s j) \<noteq> V_idle" for j
    using that I by (simp add: writers_inv_def)
  ultimately show ?thesis
    using I w n unfolding writers_inv_def by (auto simp: c of_nat_succ holds_def split: if_splits)
qed

lemma writers_store:
  assumes I: "writers_inv n s" and w: "writers s i = (vs, V_hold b k)"
  shows "writers_inv n (s\<lparr>item_of := item_of s\<lparr>words := (words (item_of s))[k := x]\<rparr>, writers := (writers s)(i := (vs, V_hold b (k + 1)))\<rparr>)"
    (is "writers_inv n ?s")
proof -
  have h: "holds (snd (writers ?s j)) = holds (snd (writers s j))" for j using w by simp
  have b: "b = count (item_of s)" using writers_holder [OF I, of i b k] w by simp
  have "changes ?s = changes s" by (rule changes_hold [OF w])
  moreover have "snd (writers ?s j) = V_hold b' k' \<Longrightarrow> b' = count (item_of s)" for j b' k'
    using writers_holder [OF I, of j] b by (cases "j = i") auto
  moreover have "snd (writers ?s j) \<noteq> V_idle \<Longrightarrow> length (fst (writers ?s j)) = n" for j
    using I w unfolding writers_inv_def by (cases "j = i") (auto dest: spec [of _ i])
  moreover have "holds (snd (writers ?s i))" by simp
  ultimately show ?thesis
    using I unfolding writers_inv_def h by auto
qed

lemma writers_unlock:
  assumes I: "writers_inv n s" and w: "writers s i = (vs, V_hold b k)"
  shows "writers_inv n (s\<lparr>item_of := item_of s\<lparr>count := b + kLocked\<rparr>, writers := (writers s)(i := (vs, V_idle)), history := history s @ [words (item_of s)]\<rparr>)"
    (is "writers_inv n ?s")
proof -
  have b: "b = of_nat (changes s)" using writers_holder [OF I, of i b k] w I by (simp add: writers_inv_def)
  have o: "holds (snd (writers s j)) \<longleftrightarrow> j = i" for j using I w unfolding writers_inv_def by auto
  have n: "\<not> holds (snd (writers ?s j))" for j using o by simp
  have "changes s = 2 * (length (history s) - 1) + 1" unfolding changes_def o by simp
  moreover have "changes ?s = 2 * length (history s)" unfolding changes_def using n by simp
  moreover have "history s \<noteq> []" using I by (simp add: writers_inv_def)
  ultimately have "changes ?s = changes s + 1" by (cases "history s") auto
  moreover have "snd (writers ?s j) \<noteq> V_idle \<Longrightarrow> length (fst (writers ?s j)) = n" for j
    using I unfolding writers_inv_def by (cases "j = i") auto
  moreover have "snd (writers ?s j) \<noteq> V_hold b' k'" for j b' k'
    using n [of j] by (metis holds_simps(1))
  ultimately show ?thesis
    using I n unfolding writers_inv_def by (simp add: b of_nat_succ del: fun_upd_apply)
qed

text \<open>A change of the count ends the agreement of the copy; the other steps keep both.\<close>

lemma copy_frame:
  assumes "copy_inv n s" "copier s' = copier s" "stamp s' = stamp s"
    and "changes s < changes s' \<or> changes s' = changes s \<and> history s' = history s"
  shows "copy_inv n s'"
  using assms unfolding copy_inv_def by auto

definition item_inv :: "nat \<Rightarrow> item_sys \<Rightarrow> bool" where
  "item_inv n s \<longleftrightarrow> writers_inv n s \<and> copy_inv n s"

lemma inv_quiet:
  assumes "item_inv n s" "\<not> holds (snd (writers s i))" "\<not> holds w" "length vs = n"
  shows "item_inv n (s\<lparr>writers := (writers s)(i := (vs, w))\<rparr>)"
  using assms writers_quiet [of n s i w vs] copy_frame [of n s "s\<lparr>writers := (writers s)(i := (vs, w))\<rparr>"] changes_idle [of s i w vs "item_of s"]
  by (simp add: item_inv_def)

lemma inv_write:
  assumes I: "item_inv n s" and w: "writers s i = (vs, w)" "w \<noteq> V_idle" and st: "write_step ok vs (item_of s, w) = (m, w')"
  shows "item_inv n (s\<lparr>item_of := m, writers := (writers s)(i := (vs, w')), history := (if w' = V_idle then history s @ [words m] else history s)\<rparr>)"
proof -
  have W: "writers_inv n s" and R: "copy_inv n s" using I by (simp_all add: item_inv_def)
  have l: "length vs = n" using W w unfolding writers_inv_def by (metis fst_conv snd_conv)
  have quiet: ?thesis if "m = item_of s" "w' = V_try (count (item_of s))" "\<not> holds w"
    using inv_quiet [OF I _ _ l, of i w'] that w by simp
  show ?thesis
  proof (cases w)
    case (V_try q)
    show ?thesis
    proof (cases "q AND kLocked = 0 \<and> count (item_of s) = q \<and> ok")
      case True
      have e: "even (changes s)" using True W locked_of_nat [of "changes s"] by (auto simp: writers_inv_def)
      have "changes s < changes (s\<lparr>item_of := item_of s\<lparr>count := q + kLocked\<rparr>, writers := (writers s)(i := (vs, V_hold (q + kLocked) 0))\<rparr>)"
        using e unfolding even_changes by (auto simp: changes_def)
      then show ?thesis
        using True V_try st writers_lock [OF W _ l, of i] w copy_frame [OF R] by (auto simp: item_inv_def)
    qed (use V_try st quiet in \<open>auto split: if_splits\<close>)
  next
    case (V_hold b k)
    show ?thesis
    proof (cases "k < length vs")
      case True
      have "changes (s\<lparr>item_of := item_of s\<lparr>words := (words (item_of s))[k := vs ! k]\<rparr>, writers := (writers s)(i := (vs, V_hold b (k + 1)))\<rparr>) = changes s"
        using changes_hold [of s i vs b k] w V_hold by simp
      then show ?thesis
        using True V_hold st w writers_store [OF W, of i vs b k "vs ! k"] copy_frame [OF R] by (auto simp: item_inv_def)
    next
      case False
      then have m: "m = item_of s\<lparr>count := b + kLocked\<rparr>" "w' = V_idle"
        using V_hold st by (auto simp: write_end_def)
      have "changes s < changes (s\<lparr>item_of := m, writers := (writers s)(i := (vs, V_idle)), history := history s @ [words m]\<rparr>)"
        using W by (cases "history s") (auto simp: changes_def writers_inv_def)
      then show ?thesis
        using m V_hold w writers_unlock [OF W, of i vs b k] copy_frame [OF R] by (simp add: item_inv_def)
    qed
  qed (use w st quiet in auto)
qed

lemma writers_copier [simp]:
  "writers_inv n (s\<lparr>copier := c, stamp := k\<rparr>) = writers_inv n s" "writers_inv n (s\<lparr>copier := c\<rparr>) = writers_inv n s"
  by (cases s, simp_all only: writers_inv_def changes_def item_sys.select_convs item_sys.update_convs)+

lemma inv_copy:
  assumes I: "item_inv n s" and st: "copy_step (item_of s, copier s) = (c, r)"
  shows "item_inv n (s\<lparr>copier := c, stamp := (if copier s = C_start then changes s else stamp s)\<rparr>)" (is "item_inv n ?s")
proof -
  have W: "writers_inv n s" and R: "copy_inv n s" using I by (simp_all add: item_inv_def)
  have c: "changes ?s = changes s" by (simp add: changes_def)
  have "writers_inv n ?s" using W by simp
  moreover have "copy_inv n ?s"
  proof (cases "copier s")
    case (C_copy b xs)
    show ?thesis
    proof (cases "length xs < length (words (item_of s))")
      case True
      have "words (item_of s) = last (history s)" if "even (changes s)"
        using W that by (simp add: writers_inv_def even_changes)
      moreover have "length (words (item_of s)) = n" using W by (simp add: writers_inv_def)
      ultimately show ?thesis
        using True C_copy st R c by (auto simp: copy_inv_def take_Suc_conv_app_nth)
    qed (use C_copy st in \<open>auto simp: copy_inv_def\<close>)
  qed (use W st c in \<open>auto simp: copy_inv_def read_begin_def writers_inv_def\<close>)
  ultimately show ?thesis by (simp add: item_inv_def)
qed

lemma item_run_inv: "item_run n s \<Longrightarrow> item_inv n s"
proof (induction rule: item_run.induct)
  case (init d)
  then show ?case by (simp add: item_inv_def writers_inv_def copy_inv_def changes_def)
next
  case (call_write s i vs)
  then show ?case using inv_quiet [of n s i V_load vs] by simp
next
  case (wrt s i vs w ok m w')
  then show ?case using inv_write by blast
next
  case (call_read s)
  then show ?case by (simp add: item_inv_def copy_inv_def)
next
  case (cpy s c r)
  then show ?case using inv_copy by blast
qed

text \<open>Writers exclude each other, and the \<open>DCHECK\<close> of \<open>write_end\<close> would not fail.\<close>

lemma writers_exclusive:
  assumes "item_run n s"
  shows "holds (snd (writers s i)) \<Longrightarrow> holds (snd (writers s j)) \<Longrightarrow> i = j"
    and "snd (writers s i) = V_hold begin k \<Longrightarrow> begin = count (item_of s)"
proof -
  have W: "writers_inv n s" using item_run_inv [OF assms] by (simp add: item_inv_def)
  then show "holds (snd (writers s i)) \<Longrightarrow> holds (snd (writers s j)) \<Longrightarrow> i = j" by (simp add: writers_inv_def)
  show "snd (writers s i) = V_hold begin k \<Longrightarrow> begin = count (item_of s)" by (rule writers_holder [OF W])
qed

text \<open>The accepted copy is not a mixture.\<close>

lemma accepted_copy:
  assumes I: "item_inv n s" and r: "copy_step (item_of s, copier s) = (c, Some (True, xs))"
    and f: "changes s - stamp s < 2 ^ 32"
  shows "even (stamp s) \<and> xs = history s ! (stamp s div 2)"
proof -
  have W: "writers_inv n s" and R: "copy_inv n s" using I by (simp_all add: item_inv_def)
  obtain b where b: "copier s = C_copy b xs" "read_end b (count (item_of s))" "\<not> length xs < length (words (item_of s))"
    using r by (cases "copier s") (auto split: if_splits)
  have le: "stamp s \<le> changes s" and bs: "b = of_nat (stamp s)" and lx: "length xs \<le> n" using R b by (simp_all add: copy_inv_def)
  have q: "(of_nat (changes s) :: u32) = of_nat (stamp s)" and e: "even (stamp s)"
    using b(2) W bs locked_of_nat [of "stamp s"] by (auto simp: read_end_def writers_inv_def split: if_splits)
  have "(of_nat (changes s - stamp s) :: u32) = 0" using q le by (simp add: of_nat_diff)
  then have "changes s = stamp s" using of_nat_small [of "changes s - stamp s"] f le by simp
  moreover have "length xs = n" "length (words (item_of s)) = n" using b(3) lx W by (auto simp: writers_inv_def)
  moreover have "words (item_of s) = last (history s)" using W e calculation(1) even_changes [of s] by (simp add: writers_inv_def)
  moreover have "last (history s) = history s ! (changes s div 2)"
    using W e calculation(1) changes_half [of s] by (simp add: writers_inv_def last_conv_nth)
  ultimately show ?thesis using R b(1) e by (auto simp: copy_inv_def)
qed

section \<open>Properties\<close>

text \<open>
  C9.  A reader that accepts its copy of an item (\<open>read_end\<close> returns true) has copied exactly what the item
  held between two writes: all its fields are those of the last write that was complete at its
  \<open>read_begin\<close>, in every sequentially consistent interleaving with any number of writers, as long as fewer than \<open>2 ^ 31\<close>
  writes happen during the read and all writers use \<open>write_begin\<close> and \<open>write_end\<close>.
\<close>

theorem seqcount_reads_consistent:
  assumes "item_run n s" "copy_step (item_of s, copier s) = (c, Some (True, xs))"
    and "changes s - stamp s < 2 ^ 32"
  shows "even (stamp s) \<and> xs = history s ! (stamp s div 2)"
  using accepted_copy [OF item_run_inv] assms by blast

text \<open>A thread writes 7 into an item of one field, then the item is read.\<close>

definition ex_item :: item_sys where
  "ex_item = \<lparr>item_of = \<lparr>count = 2, words = [7]\<rparr>, writers = (\<lambda>i. if i = 0 then ([7], V_idle) else ([], V_idle)),
     copier = C_copy 2 [7], history = [[0], [7]], stamp = 2\<rparr>"

lemma ex_item_run: "item_run 1 ex_item"
proof -
  let ?w = "\<lambda>w i :: nat. if i = 0 then ([7], w) else ([], V_idle)"
  let ?m = "\<lambda>c x. \<lparr>count = c, words = [x]\<rparr>"
  let ?s = "\<lambda>c x w r h k. \<lparr>item_of = ?m c x, writers = ?w w, copier = r, history = h, stamp = k\<rparr>"
  have u: "(?w w)(0 := ([7], w')) = ?w w'" for w w' :: item_writer by auto
  have "\<not> holds (snd (?w V_idle i))" for i by simp
  then have c: "changes (?s 2 7 V_idle C_start [[0], [7]] 0) = 2" by (simp add: changes_def)
  have "item_run 1 (?s 0 0 V_load C_idle [[0]] 0)"
    using item_run.call_write [OF item_run.init [of "[0]" 1], of 0 "[7]"] by (simp add: fun_upd_def)
  then have "item_run 1 (?s 0 0 (V_try 0) C_idle [[0]] 0)"
    using item_run.wrt [of 1 "?s 0 0 V_load C_idle [[0]] 0" 0 "[7]" V_load True "?m 0 0" "V_try 0"] by (simp add: u)
  then have "item_run 1 (?s 1 0 (V_hold 1 0) C_idle [[0]] 0)"
    using item_run.wrt [of 1 "?s 0 0 (V_try 0) C_idle [[0]] 0" 0 "[7]" "V_try 0" True "?m 1 0" "V_hold 1 0"] by (simp add: u kLocked_def)
  then have "item_run 1 (?s 1 7 (V_hold 1 (Suc 0)) C_idle [[0]] 0)"
    using item_run.wrt [of 1 "?s 1 0 (V_hold 1 0) C_idle [[0]] 0" 0 "[7]" "V_hold 1 0" True "?m 1 7" "V_hold 1 (Suc 0)"] by (simp add: u)
  then have "item_run 1 (?s 2 7 V_idle C_idle [[0], [7]] 0)"
    using item_run.wrt [of 1 "?s 1 7 (V_hold 1 (Suc 0)) C_idle [[0]] 0" 0 "[7]" "V_hold 1 (Suc 0)" True "?m 2 7" V_idle] by (simp add: u kLocked_def write_end_def)
  then have "item_run 1 (?s 2 7 V_idle C_start [[0], [7]] 0)"
    using item_run.call_read by fastforce
  then have "item_run 1 (?s 2 7 V_idle (C_copy 2 []) [[0], [7]] 2)"
    using item_run.cpy [of 1 "?s 2 7 V_idle C_start [[0], [7]] 0" "C_copy 2 []" None] by (simp add: read_begin_def c)
  then have "item_run 1 (?s 2 7 V_idle (C_copy 2 [7]) [[0], [7]] 2)"
    using item_run.cpy [of 1 "?s 2 7 V_idle (C_copy 2 []) [[0], [7]] 2" "C_copy 2 [7]" None] by simp
  then show ?thesis by (simp add: ex_item_def)
qed

theorem seqcount_reads_consistent_witness:
  "copy_step (item_of ex_item, copier ex_item) = (C_idle, Some (True, [7])) \<and> [7] = history ex_item ! (stamp ex_item div 2)"
proof -
  have "copy_step (item_of ex_item, copier ex_item) = (C_idle, Some (True, [7]))"
    by (simp add: ex_item_def read_end_def kLocked_def)
  then show ?thesis
    using seqcount_reads_consistent [OF ex_item_run, of C_idle "[7]"] by (simp add: ex_item_def changes_def)
qed

end
