(* ===== verification/Spec2Isabelle.thy ===== *)
theory Spec2Isabelle
  imports Arr_List Avl_Queue Cpu_Topology Fifo_Runs Edf_Runs Prio_Table Prio_Seqcount
begin

text \<open>
  A verification of the ghOSt userspace library.  All paths are relative to \<open>src/userspace\<close>.

  \<^bold>\<open>The program.\<close>  ghOSt delegates the scheduling of Linux threads to agents in user space.  The kernel
  writes messages about the threads into ring buffers (\<open>lib/channel.cc\<close>).  An agent drains its channel and
  gives each message to the dispatcher of \<open>lib/scheduler.h\<close>, which looks up the task and calls the handler
  of a scheduling policy; the policy keeps run queues and then decides which task runs on which CPU of its
  enclave (\<open>lib/topology.h\<close> has the sets of CPUs and the layout of the machine).  The per-CPU FIFO policy has
  an agent on each CPU; the EDF policy has one global agent, which reads the deadlines and classes that
  applications publish in a table in shared memory (\<open>shared/prio_table.cc\<close> over \<open>shared/shmem.cc\<close>).
  Policies that run in the kernel use a linked list and an AVL tree whose nodes live in one array
  (\<open>lib/queue.bpf.h\<close>, \<open>lib/avl.bpf.h\<close>).

  \<^bold>\<open>Conventions.\<close>  An operation that may abort returns an option: \<^const>\<open>None\<close> is a failed \<open>CHECK\<close>, a
  \<open>GHOST_ERROR\<close>, or undefined behaviour such as a dereferenced null pointer or an index outside of an array.
  The model is that of the build \<open>-c opt\<close>, in which \<open>DCHECK\<close> is compiled out: a \<open>DCHECK\<close> has no effect in the
  model unless the code behind it is undefined when it fails, which is written \<open>REQUIRE\<close>.  Machine integers
  keep their width where they can wrap: ids, sequence numbers, ring indices, sequence counts, offsets and
  sizes.  A pointer to a task is its gtid, a pointer to an array element its id.  What the
  kernel, the operating system, the applications and third-party code decide or compute is an argument,
  often collected in a record (\<open>kernel\<close>, \<open>sched_env\<close>, \<open>edf_env\<close>, \<open>shm_os\<close>, \<open>sw_env\<close>), so the theorems hold for all its
  answers; \<open>absl::SimpleAtoi\<close> and \<open>absl::StrSplit\<close> come with what they document as hypotheses.
  Requests to the kernel (pings, transactions, yields) are kept in logs.

  \<^bold>\<open>The theories.\<close>
  \<^item> \<open>Prelude\<close>: integer types, aborting operations, loops that may abort, decimal numbers, lists and words.
  \<^item> \<open>Arr_Structs\<close> (\<open>lib/arr_structs.bpf.h\<close>, \<open>third_party/bpf/common.bpf.h\<close>, conversions of \<open>lib/avl.bpf.h\<close>): ids and
    pointers at byte level are inverse to one another within the bounds of the array.
  \<^item> \<open>Arr_List\<close> (\<open>lib/queue.bpf.h\<close>): the list macros implement operations on sequences; the contract \<open>fifo_queue\<close>.
    Concatenation with an empty list breaks the first list.
  \<^item> \<open>Avl_Tree\<close> holds the functions of \<open>lib/avl.bpf.h\<close>.  \<open>Avl_Repr\<close> relates the array to binary trees and tree
    contexts; \<open>Avl_Insert\<close>, \<open>Avl_Delete\<close> and \<open>Avl_Walk\<close> follow the loops over them; \<open>Avl_Queue\<close> has the invariant of
    the whole structure with its caches and orphans, the refinement of each operation to the in-order
    sequence, runs of operations, and the contract \<open>stable_pq\<close> of \<open>Prio_Queue\<close>.
  \<^item> \<open>Channel\<close> (\<open>lib/channel.cc\<close>, \<open>kernel/ghost_uapi.h\<close>): message types, \<open>Peek\<close> and \<open>Consume\<close> on the ring, and the loop
    that drains it.
  \<^item> \<open>Cpu_Map\<close> (\<open>CpuMap\<close>, \<open>CpuList\<close> and their iterator in \<open>lib/topology.h\<close>): the bitmap operations are those of sets,
    and a range-based loop visits the set in order.  \<open>Cpu_Topology\<close> (\<open>Topology\<close>): construction from a description or
    from sysfs, the checks, export, and the parser of CPU lists.
  \<^item> \<open>Dispatch\<close> (\<open>lib/scheduler.h\<close>, with the status word table of \<open>lib/ghost.h\<close>): \<open>DispatchMessage\<close>, \<open>DiscoverTasks\<close> and
    the task allocator, over a record of handlers.  The locales \<open>handler_contract\<close> and \<open>seqnum_contract\<close> give the
    invariants of a scheduler from what its handlers promise; both schedulers interpret the first one and
    the FIFO scheduler the second.
  \<^item> \<open>Fifo_PerCpu\<close> (\<open>schedulers/fifo/per_cpu\<close>): the scheduler and its invariant.  \<open>Fifo_Runs\<close>: reachable states, the exact
    condition of an abort, the outcome of a decision, round-robin placement, service in order.
  \<^item> \<open>Edf_Scheduler\<close> (\<open>schedulers/edf\<close>): tasks, run queue, orchestrators, handlers and the global decision.  \<open>Edf_Heap\<close> is
    the binary heap over the contract \<open>heap_order\<close>, \<open>Edf_Queue\<close> and \<open>Edf_Ops\<close> show that the run queue is one, \<open>Edf_Inv\<close> and
    \<open>Edf_Keep\<close> have the invariant, \<open>Edf_Params\<close>, \<open>Edf_Handlers\<close> and \<open>Edf_Global\<close> that every operation keeps it, and
    \<open>Edf_Runs\<close> the reachable states.
  \<^item> \<open>Prio_Items\<close>, \<open>Prio_Stream\<close>, \<open>Prio_Seqcount\<close>, \<open>Prio_Table\<close> (\<open>shared/prio_table.h\<close>, \<open>shared/prio_table.cc\<close>): the data, the stream
    of updates, the sequence counts of the items and the layout of the table.  \<open>Shmem\<close> (\<open>shared/shmem.cc\<close>): creating
    and attaching to a region.

  \<^bold>\<open>What the theorems show.\<close>  Each task of a scheduler is in exactly one place in every reachable state, and the
  sequence numbers of its messages increase.  FIFO queues are served in order.  The EDF run queue is a heap,
  so that the earliest deadline of the highest class comes first, as long as no read of the parameters is
  torn; a torn read breaks the order, which is shown as a theorem.  The AVL tree stays balanced, sorted and
  within the height its loops are bounded by.  Updates that applications mark are not lost, and accepted
  copies of an item are not torn.  CPU lists are sets, and the topology constructors give consistent
  topologies or abort.

  \<^bold>\<open>Loops and bounds.\<close>  A loop that ends for a reason in its data is a total function with a measure.  A loop
  that may not end (\<open>drain_channel\<close>, \<open>for_loop\<close>, \<open>scale_estimate\<close>, \<open>wait_off_cpu\<close>, \<open>WaitForReady\<close>) is a partial function, and
  the theorems show that it returns: for every ring whose messages fit between tail and head, every
  bitmap, every positive estimate, and whenever the task leaves the CPU or the region gets ready.  The loops of the
  AVL tree are bounded by \<open>MAX_AVL_HEIGHT\<close> = 23 in the code itself; the invariant shows that a tree whose
  insertions passed the size check is never higher.  The stream assumes fewer than \<open>2 ^ 31\<close> marks in total,
  after which the overflow count could wrap, and a read of an item fewer than \<open>2 ^ 31\<close> writes during it.

  \<^bold>\<open>Concurrency.\<close>  In the stream and the sequence counts each access to shared memory is one step, and the
  steps of the threads interleave in any order, under sequential consistency; weaker orders of the
  atomic operations are not modelled.  The store of the runnable flag in \<open>MakeEngineRunnable\<close> does not use the
  sequence count and is not among the writers of an item.  In the schedulers the handling of a
  message, a decision and the discovery of the tasks are single steps, in any order; the agents of the FIFO
  policy, which run in parallel, are modelled by the interleavings of their steps.

  \<^bold>\<open>Not modelled.\<close>  Enclaves, agent processes and the ioctl wrappers (\<open>lib/enclave.cc\<close>, \<open>lib/agent.cc\<close>, the rest of
  \<open>lib/ghost.cc\<close>), the file descriptor server and the base library are calls to the kernel; their answers are
  arguments.  The policies CFS with its variants, centralised FIFO, Shinjuku, SOL, Biff and Flux are not
  modelled, nor are the BPF programs, which run in the kernel.  The test topology writes files, and
  printed text is left out, except that printing a message of an undeclared type aborts.  Tools,
  experiments, tests and generated headers are left out.
\<close>

end
